(* ===== verification/Prelude.thy ===== *)
theory Prelude
  imports Main "HOL-Library.Word" "HOL-Library.Signed_Division"
begin

text \<open>
  The vocabulary every component of the development shares.

  \<^item> The machine types of the C and C++ sources (\<open>u8\<close> to \<open>u64\<close>; a signed 64-bit value
    is a \<open>u64\<close> read with \<open>sint\<close>) and the conversions the sources make implicitly.
  \<^item> \<open>fault\<close>: what the code can do wrong without returning an error code (null and
    wild pointers, reads outside a buffer, a loop that never ends, a spin lock taken twice, behaviour the language
    leaves undefined); a fallible operation returns \<open>fault + 'a\<close>.
  \<^item> The lemma collections of the development and the list, rotation and word facts that
    more than one component uses.
  \<^item> The interface \<open>fifo\<close>: a bounded first-in first-out buffer that may refuse a packet
    and may decline to give one out.
\<close>

section \<open>Machine types and faults\<close>

type_synonym u8 = "8 word"
type_synonym u16 = "16 word"
type_synonym u32 = "32 word"
type_synonym u64 = "64 word"

named_theorems ring_simps \<open>facts about positions on a ring\<close>
named_theorems rep_intros \<open>representation relations are preserved\<close>
named_theorems word_views \<open>unsigned and signed readings of machine words\<close>

datatype fault = NullDeref | WildPointer | OutOfBounds | Diverges | Deadlock | Undefined

definition bindE :: "fault + 'a \<Rightarrow> ('a \<Rightarrow> fault + 'b) \<Rightarrow> fault + 'b" where
  "bindE m f = (case m of Inl e \<Rightarrow> Inl e | Inr x \<Rightarrow> f x)"

lemma bindE_simps [simp]:
  "bindE (Inl e) f = Inl e"
  "bindE (Inr x) f = f x"
  by (simp_all add: bindE_def)

lemma bindE_Inr_iff: "bindE m f = Inr y \<longleftrightarrow> (\<exists>x. m = Inr x \<and> f x = Inr y)"
  by (cases m) auto

text \<open>The conversion of a wider value to the 32-bit type \<open>int\<close> (gcc: modulo \<open>2^32\<close>).\<close>

definition c_int :: "int \<Rightarrow> int" where
  "c_int x = signed_take_bit 31 x"

lemma c_int_id [simp]: "- 2147483648 \<le> x \<Longrightarrow> x < 2147483648 \<Longrightarrow> c_int x = x"
  unfolding c_int_def by (rule signed_take_bit_int_eq_self) simp_all

text \<open>A 64-bit word whose top bit is clear reads the same signed and unsigned.\<close>

lemma sint_small [word_views]:
  fixes w :: u64
  assumes "unat w < 2 ^ 63"
  shows "sint w = int (unat w)"
proof -
  have u: "uint w < 2 ^ 63"
    using assms unfolding uint_nat by (metis of_nat_less_iff of_nat_numeral of_nat_power)
  have "sint w = signed_take_bit 63 (uint w)"
    by (simp add: sint_uint)
  also have "\<dots> = uint w"
  proof (rule signed_take_bit_int_eq_self)
    have "- (2 ^ 63) \<le> (0::int)" by simp
    then show "- (2 ^ 63) \<le> uint w" using unsigned_greater_eq by (rule order_trans)
  qed (rule u)
  finally show ?thesis by simp
qed

lemma unat_minus_le [word_views]:
  fixes a b :: "'a::len word"
  assumes "unat b \<le> unat a"
  shows "unat (a - b) = unat a - unat b"
  using assms by (simp add: unat_sub word_le_nat_alt)

lemma unat_plus_lt [word_views]:
  fixes a b :: "'a::len word"
  assumes "unat a + unat b < 2 ^ LENGTH('a)"
  shows "unat (a + b) = unat a + unat b"
  using assms by (simp add: unat_word_ariths)

lemma unat_ucast_32_64 [word_views, simp]: "unat (ucast (w :: u32) :: u64) = unat w"
  by (simp add: unsigned_ucast_eq take_bit_nat_eq_self_iff order_less_le_trans [OF unsigned_less])

lemma sint_nonneg_iff [word_views]:
  fixes w :: u64
  shows "0 \<le> sint w \<longleftrightarrow> unat w < 2 ^ 63"
proof
  assume "unat w < 2 ^ 63"
  then show "0 \<le> sint w" by (simp add: sint_small)
next
  assume s: "0 \<le> sint w"
  show "unat w < 2 ^ 63"
  proof (rule ccontr)
    assume "\<not> unat w < 2 ^ 63"
    then have "int (2 ^ 63) \<le> int (unat w)" unfolding of_nat_le_iff by simp
    then have "2 ^ 63 \<le> uint w" by simp
    then have "signed_take_bit 63 (uint w) \<le> uint w - 2 ^ Suc 63" by (rule signed_take_bit_int_less_eq)
    moreover have "sint w = signed_take_bit 63 (uint w)" by (simp add: sint_uint)
    moreover have "uint w < 2 ^ 64" using uint_lt2p [of w] by simp
    ultimately show False using s by simp
  qed
qed
lemma unat_minus_gt [word_views]:
  fixes a b :: u64
  assumes "unat a < unat b" 
  shows "unat (a - b) = unat a + 2 ^ 64 - unat b"
  using assms by (simp add: unat_sub_if_size word_size not_le)
lemma sint_diff_nonneg [word_views]:
  fixes a b :: u64
  assumes "unat a < 2 ^ 63" and "unat b < 2 ^ 63"
  shows "0 \<le> sint (a - b) \<longleftrightarrow> unat b \<le> unat a"
  using assms unat_minus_gt [of a b] unat_minus_le [of b a]
  unfolding sint_nonneg_iff by (cases "unat b \<le> unat a") simp_all

section \<open>Lists\<close>

lemma rotate_split:
  assumes "r < length xs"
  shows "rotate r xs = xs ! r # (drop (Suc r) xs @ take r xs)"
  using assms by (simp add: rotate_drop_take Cons_nth_drop_Suc [symmetric])

lemma concat_rotate_skip [ring_simps]:
  assumes "r < length xs" and "xs ! r = []"
  shows "concat (rotate (Suc r mod length xs) xs) = concat (rotate r xs)"
proof -
  have "rotate (Suc r mod length xs) xs = rotate1 (rotate r xs)"
    by (metis rotate_Suc rotate_conv_mod)
  then show ?thesis using assms by (simp add: rotate_split)
qed

text \<open>Appending to the last non-empty segment appends to the concatenation.\<close>

lemma concat_update_last:
  assumes "i < length xs" and "\<And>j. i < j \<Longrightarrow> j < length xs \<Longrightarrow> xs ! j = []"
  shows "concat (xs[i := xs ! i @ ys]) = concat xs @ ys"
proof -
  have "concat (drop (Suc i) xs) = []"
    using assms(2) by (auto simp: in_set_conv_nth)
  moreover have "xs = take i xs @ xs ! i # drop (Suc i) xs"
    by (rule id_take_nth_drop [OF assms(1)])
  then have "concat xs = concat (take i xs) @ xs ! i @ concat (drop (Suc i) xs)"
    by (metis concat.simps(2) concat_append)
  ultimately show ?thesis
    using assms(1) by (simp add: upd_conv_take_nth_drop del: concat_eq_Nil_conv)
qed

lemma mod_add_small [ring_simps]:
  assumes "r < n" and "j < (n::nat)"
  shows "(r + j) mod n = (if r + j < n then r + j else r + j - n)"
  using assms by (simp add: mod_if)

lemma mod_add_inj [ring_simps]:
  assumes "r < n" and "i < n" and "j < (n::nat)"
  shows "(r + i) mod n = (r + j) mod n \<longleftrightarrow> i = j"
  using assms by (auto simp: mod_add_small split: if_splits)

lemma rotate_update:
  assumes "i < length xs" and "r < length xs"
  shows "rotate r (xs[(r + i) mod length xs := x]) = (rotate r xs)[i := x]"
proof (rule nth_equalityI)
  fix j assume "j < length (rotate r (xs[(r + i) mod length xs := x]))"
  then have j: "j < length xs" by simp
  have "(r + j) mod length xs = (r + i) mod length xs \<longleftrightarrow> j = i"
    using j assms by (simp add: mod_add_inj)
  moreover have "(r + i) mod length xs < length xs"
    using assms by (metis gr_implies_not0 mod_less_divisor not_gr_zero)
  ultimately show "rotate r (xs[(r + i) mod length xs := x]) ! j = (rotate r xs)[i := x] ! j"
    using j assms(1) by (cases "j = i") (simp_all add: nth_rotate)
qed simp

section \<open>The interface of a first-in first-out buffer\<close>

text \<open>
  \<open>rep s xs\<close>: the state \<open>s\<close> holds the elements \<open>xs\<close>, oldest first. \<open>enq\<close> returns \<open>None\<close>
  when it refuses the element (the state is then unchanged); \<open>ok s x\<close> is the client's
  obligation. \<open>deq\<close> gives out a first part of the elements: none (a paced buffer may wait although
  it holds some), one, or several at once; \<open>val\<close> is what it shows of an element (of a packet its length, say).
\<close>

datatype 'a buf_op = Put 'a | Get

text \<open>A client's run: the elements accepted, the elements given out, the final state.\<close>

fun buf_run :: "('a \<Rightarrow> 's \<Rightarrow> 's option) \<Rightarrow> ('s \<Rightarrow> 'b list \<times> 's) \<Rightarrow> 'a buf_op list \<Rightarrow> 's
    \<Rightarrow> 'a list \<times> 'b list \<times> 's" where
  "buf_run enq deq [] s = ([], [], s)"
| "buf_run enq deq (Put x # ops) s =
     (case enq x s of
        None \<Rightarrow> buf_run enq deq ops s
      | Some s' \<Rightarrow> (case buf_run enq deq ops s' of (acc, outs, t) \<Rightarrow> (x # acc, outs, t)))"
| "buf_run enq deq (Get # ops) s =
     (case deq s of
        (ys, s') \<Rightarrow> (case buf_run enq deq ops s' of (acc, outs, t) \<Rightarrow> (acc, ys @ outs, t)))"

text \<open>The client's obligation at every insertion of the run, with the contents tracked.\<close>

fun buf_run_ok :: "('s \<Rightarrow> 'a list \<Rightarrow> 'a \<Rightarrow> bool) \<Rightarrow> ('a \<Rightarrow> 's \<Rightarrow> 's option) \<Rightarrow>
    ('s \<Rightarrow> 'b list \<times> 's) \<Rightarrow> 'a buf_op list \<Rightarrow> 's \<Rightarrow> 'a list \<Rightarrow> bool" where
  "buf_run_ok ok enq deq [] s xs = True"
| "buf_run_ok ok enq deq (Put x # ops) s xs =
     (ok s xs x \<and>
      (case enq x s of
         None \<Rightarrow> buf_run_ok ok enq deq ops s xs
       | Some s' \<Rightarrow> buf_run_ok ok enq deq ops s' (xs @ [x])))"
| "buf_run_ok ok enq deq (Get # ops) s xs =
     (case deq s of (ys, s') \<Rightarrow> buf_run_ok ok enq deq ops s' (drop (length ys) xs))"

locale fifo =
  fixes rep :: "'s \<Rightarrow> 'a list \<Rightarrow> bool"
    and val :: "'a \<Rightarrow> 'b"
    and ok :: "'s \<Rightarrow> 'a list \<Rightarrow> 'a \<Rightarrow> bool"
    and enq :: "'a \<Rightarrow> 's \<Rightarrow> 's option"
    and deq :: "'s \<Rightarrow> 'b list \<times> 's"
  assumes enq_rep: "rep s xs \<Longrightarrow> ok s xs x \<Longrightarrow> enq x s = Some s' \<Longrightarrow> rep s' (xs @ [x])"
    and deq_rep: "rep s xs \<Longrightarrow> deq s = (vs, s') \<Longrightarrow> \<exists>ys zs. xs = ys @ zs \<and> vs = map val ys \<and> rep s' zs"
begin

text \<open>Whatever the run, elements leave in the order they were accepted, none twice.\<close>

lemma run_order:
  assumes "rep s xs" and "buf_run_ok ok enq deq ops s xs"
    and "buf_run enq deq ops s = (acc, outs, t)"
  shows "\<exists>us ys. xs @ acc = us @ ys \<and> outs = map val us \<and> rep t ys"
  using assms
proof (induction ops arbitrary: s xs acc outs)
  case Nil
  then show ?case by simp
next
  case (Cons op ops)
  show ?case
  proof (cases op)
    case (Put x)
    show ?thesis
    proof (cases "enq x s")
      case None
      with Put Cons show ?thesis by simp
    next
      case (Some s')
      with Put Cons.prems obtain acc' where acc: "acc = x # acc'"
        and run: "buf_run enq deq ops s' = (acc', outs, t)" by (auto split: prod.splits)
      from Put Some Cons.prems have "rep s' (xs @ [x])" and "buf_run_ok ok enq deq ops s' (xs @ [x])"
        by (auto intro: enq_rep)
      from Cons.IH [OF this run] acc show ?thesis by simp
    qed
  next
    case Get
    obtain vs s' where d: "deq s = (vs, s')" by force
    with Get Cons.prems obtain outs' where outs: "outs = vs @ outs'"
      and run: "buf_run enq deq ops s' = (acc, outs', t)" by (auto split: prod.splits)
    from d Cons.prems obtain ys zs where zs: "xs = ys @ zs" "vs = map val ys" "rep s' zs" by (blast dest: deq_rep)
    with d Get Cons.prems have "buf_run_ok ok enq deq ops s' zs" by simp
    from Cons.IH [OF zs(3) this run] obtain us ys' where "zs @ acc = us @ ys'" "outs' = map val us" "rep t ys'" by blast
    then show ?thesis using zs outs by (intro exI [of _ "ys @ us"] exI [of _ ys']) simp
  qed
qed

end

end
