(* ===== verification/Skb.thy ===== *)
theory Skb
  imports Prelude
begin

text \<open>
  Packets of the kernel module and the intrusive packet list of one ring node
  (\<open>src/RateLimiter/sch_kfifo.h\<close>).

  A packet (\<open>struct sk_buff *\<close>) is an address; the fields of the packets the module reads or
  writes are maps from addresses in the record \<open>skb_heap\<close>: the list link \<open>skb->next\<close>, the
  length \<open>qdisc_pkt_len(skb)\<close> and the data length \<open>skb->len\<close>. The link lives in the packet and
  not in the list, so the operations of \<open>kunit_skb_head\<close> change the heap: what a list holds
  depends on every write to a packet's link. \<open>kunit_rep\<close> relates a list head and a heap to the
  packets the list holds; the lemmas show that the three operations append, prepend and remove
  as long as the new packet is in no list and its own link is null, and what happens to a link
  the operation forgets.
\<close>

section \<open>Packets\<close>

type_synonym skb = nat

record skb_heap =
  nxt :: "skb \<Rightarrow> skb option"
  pkt_len :: "skb \<Rightarrow> u32"
  data_len :: "skb \<Rightarrow> u32"

record kunit_skb_head =
  ku_head :: "skb option"
  ku_tail :: "skb option"

section \<open>The operations\<close>

definition kunit_skb_head_init :: "kunit_skb_head \<Rightarrow> kunit_skb_head" where
  "kunit_skb_head_init kuh = kuh\<lparr>ku_head := None, ku_tail := None\<rparr>"

definition set_nxt :: "skb \<Rightarrow> skb option \<Rightarrow> skb_heap \<Rightarrow> skb_heap" where
  "set_nxt s p h = h\<lparr>nxt := (nxt h)(s := p)\<rparr>"

definition kunit_enqueue_tail :: "skb \<Rightarrow> kunit_skb_head \<Rightarrow> skb_heap \<Rightarrow> kunit_skb_head \<times> skb_heap" where
  "kunit_enqueue_tail skb kuh h =
     (case ku_tail kuh of
        Some lst \<Rightarrow>
          (kuh\<lparr>ku_tail := Some skb\<rparr>, set_nxt lst (Some skb) (set_nxt skb None h))
      | None \<Rightarrow>
          (kuh\<lparr>ku_tail := Some skb, ku_head := Some skb\<rparr>, h))"

definition kunit_enqueue_head :: "skb \<Rightarrow> kunit_skb_head \<Rightarrow> skb_heap \<Rightarrow> int \<times> kunit_skb_head \<times> skb_heap" where
  "kunit_enqueue_head skb kuh h =
     (let h' = set_nxt skb (ku_head kuh) h;
          kuh1 = (if ku_head kuh = None then kuh\<lparr>ku_tail := Some skb\<rparr> else kuh)
      in (0, kuh1\<lparr>ku_head := Some skb\<rparr>, h'))"

definition kunit_dequeue_head :: "kunit_skb_head \<Rightarrow> skb_heap \<Rightarrow> skb option \<times> kunit_skb_head" where
  "kunit_dequeue_head kuh h =
     (case ku_head kuh of
        Some skb \<Rightarrow>
          (let kuh1 = kuh\<lparr>ku_head := nxt h skb\<rparr>;
               kuh2 = (if ku_head kuh1 = None then kuh1\<lparr>ku_tail := None\<rparr> else kuh1)
           in (Some skb, kuh2))
      | None \<Rightarrow> (None, kuh))"

section \<open>What a list holds\<close>

fun linked :: "(skb \<Rightarrow> skb option) \<Rightarrow> skb list \<Rightarrow> bool" where
  "linked n [] = True"
| "linked n [x] = (n x = None)"
| "linked n (x # y # zs) = (n x = Some y \<and> linked n (y # zs))"

definition kunit_rep :: "skb_heap \<Rightarrow> kunit_skb_head \<Rightarrow> skb list \<Rightarrow> bool" where
  "kunit_rep h kuh xs \<longleftrightarrow>
     distinct xs \<and> linked (nxt h) xs \<and>
     ku_head kuh = (if xs = [] then None else Some (hd xs)) \<and>
     ku_tail kuh = (if xs = [] then None else Some (last xs))"

lemma set_nxt_simps [simp]:
  "nxt (set_nxt s p h) = (nxt h)(s := p)"
  "pkt_len (set_nxt s p h) = pkt_len h"
  "data_len (set_nxt s p h) = data_len h"
  by (simp_all add: set_nxt_def)

lemma linked_frame:
  assumes "\<And>x. x \<in> set xs \<Longrightarrow> n' x = n x"
  shows "linked n' xs = linked n xs"
  using assms by (induction n xs rule: linked.induct) auto

lemma linked_upd_other [simp]: "s \<notin> set xs \<Longrightarrow> linked (n(s := p)) xs = linked n xs"
  by (rule linked_frame) auto

lemma linked_snoc:
  assumes "linked n xs" and "distinct (xs @ [s])" and "xs \<noteq> []"
  shows "linked ((n(s := None))(last xs := Some s)) (xs @ [s])"
  using assms by (induction n xs rule: linked.induct) auto

lemma linked_tl: "linked n (x # xs) \<Longrightarrow> linked n xs"
  by (cases xs) auto

lemma linked_hd: "linked n (x # xs) \<Longrightarrow> n x = (if xs = [] then None else Some (hd xs))"
  by (cases xs) auto

lemma kunit_rep_Nil [simp]:
  "kunit_rep h kuh [] \<longleftrightarrow> ku_head kuh = None \<and> ku_tail kuh = None"
  by (auto simp: kunit_rep_def)

lemma kunit_rep_frame:
  assumes "\<And>x. x \<in> set xs \<Longrightarrow> nxt h' x = nxt h x"
  shows "kunit_rep h' kuh xs = kunit_rep h kuh xs"
  using linked_frame [of xs "nxt h'" "nxt h"] assms by (simp add: kunit_rep_def)

section \<open>The operations on what the list holds\<close>

lemma kunit_rep_enqueue_tail [rep_intros]:
  assumes "kunit_rep h kuh xs" and "skb \<notin> set xs" and "nxt h skb = None"
    and "kunit_enqueue_tail skb kuh h = (kuh', h')"
  shows "kunit_rep h' kuh' (xs @ [skb])"
  using assms linked_snoc [of "nxt h" xs skb]
  by (cases "xs = []") (auto simp: kunit_rep_def kunit_enqueue_tail_def hd_append)

text \<open>Only the last packet's link is written (the new packet's is already null).\<close>

lemma kunit_enqueue_tail_frame:
  assumes "kunit_rep h kuh xs" and "nxt h skb = None"
    and "kunit_enqueue_tail skb kuh h = (kuh', h')" and "x \<notin> set xs"
  shows "nxt h' x = nxt h x"
  using assms by (auto simp: kunit_rep_def kunit_enqueue_tail_def split: if_splits)

lemma kunit_enqueue_tail_lens [simp]:
  assumes "kunit_enqueue_tail skb kuh h = (kuh', h')"
  shows "pkt_len h' = pkt_len h" and "data_len h' = data_len h"
  using assms by (auto simp: kunit_enqueue_tail_def split: option.splits)

lemma kunit_rep_enqueue_head [rep_intros]:
  assumes "kunit_rep h kuh xs" and "skb \<notin> set xs"
    and "kunit_enqueue_head skb kuh h = (r, kuh', h')"
  shows "kunit_rep h' kuh' (skb # xs)"
  using assms by (cases xs) (auto simp: kunit_rep_def kunit_enqueue_head_def Let_def)

lemma kunit_rep_dequeue_Cons [rep_intros]:
  assumes "kunit_rep h kuh (x # xs)"
  shows "\<exists>kuh'. kunit_dequeue_head kuh h = (Some x, kuh') \<and> kunit_rep h kuh' xs"
  using assms linked_hd [of "nxt h" x xs]
  by (auto simp: kunit_rep_def kunit_dequeue_head_def Let_def dest: linked_tl)

lemma kunit_rep_dequeue_Nil:
  assumes "kunit_rep h kuh []"
  shows "kunit_dequeue_head kuh h = (None, kuh)"
  using assms by (simp add: kunit_dequeue_head_def)

end
