(* ===== verification/Kfifo.thy ===== *)
theory Kfifo
  imports Skb
begin

text \<open>
  The timed ring queue of the kernel module (\<open>src/RateLimiter/sch_kfifo.c\<close> and the structures
  of \<open>sch_kfifo.h\<close>).

  The ring is one block of \<open>struct kfifo_node\<close>, a node for each millisecond. A pointer to a
  node is its index in the block, the null pointer is \<open>None\<close>, and following a pointer
  (\<open>deref\<close>) fails on the null pointer and outside the block. The fields keep their C widths.
  \<open>psched_l2t_ns\<close>, which the kernel provides, is the argument \<open>l2t\<close>; the block \<open>kmalloc\<close>
  returns, with whatever it held before, is the argument \<open>mem\<close> (\<open>None\<close> when it fails).
  The pointer \<open>kfifo\<close> itself is always the address of a field of the scheduler's private data,
  never null, so the tests \<open>if(kfifo)\<close> hold and their other branch is not modelled; the
  unused lock inside a node is left out. The kernel compiles with \<open>-fno-strict-overflow\<close>:
  an overflowing \<open>int\<close> wraps, which \<open>c_int\<close> writes out.

  The invariant of the ring and what every operation does to the packets it holds are in the
  theory \<open>Kfifo_Ring\<close>.
\<close>

section \<open>State\<close>

abbreviation UNIT_TIME :: int where
  "UNIT_TIME \<equiv> 1000000"

record knode =
  n_last_time :: u64
  n_pkt :: u32
  n_left_time :: u64
  n_sleep_time :: u64
  n_prev :: "nat option"
  n_next :: "nat option"
  n_gain :: u32
  n_rate :: u32
  n_slen :: u32
  n_tlen :: u32
  n_kunit :: kunit_skb_head

record 'r kfifo_queue_data =
  k_total_time :: u32
  k_total_len :: u64
  k_pbase :: "nat option"
  k_pread :: "nat option"
  k_pwrite :: "nat option"
  k_gain :: u32
  k_slen :: u64
  k_stime :: u32
  k_mtu :: u32
  k_rate :: 'r
  k_lock :: bool
  k_nodes :: "knode list"

definition NET_XMIT_SUCCESS :: int where "NET_XMIT_SUCCESS = 0"
definition NET_XMIT_DROP :: int where "NET_XMIT_DROP = 1"

definition deref :: "'r kfifo_queue_data \<Rightarrow> nat option \<Rightarrow> fault + knode" where
  "deref k p =
     (case p of
        None \<Rightarrow> Inl NullDeref
      | Some i \<Rightarrow> if i < length (k_nodes k) then Inr (k_nodes k ! i) else Inl WildPointer)"

definition upd_node :: "nat option \<Rightarrow> (knode \<Rightarrow> knode) \<Rightarrow> 'r kfifo_queue_data \<Rightarrow> 'r kfifo_queue_data" where
  "upd_node p f k =
     (case p of
        None \<Rightarrow> k
      | Some i \<Rightarrow> k\<lparr>k_nodes := (k_nodes k)[i := f (k_nodes k ! i)]\<rparr>)"

definition spin_lock :: "'r kfifo_queue_data \<Rightarrow> fault + 'r kfifo_queue_data" where
  "spin_lock k = (if k_lock k then Inl Deadlock else Inr (k\<lparr>k_lock := True\<rparr>))"

definition spin_unlock :: "'r kfifo_queue_data \<Rightarrow> 'r kfifo_queue_data" where
  "spin_unlock k = k\<lparr>k_lock := False\<rparr>"

section \<open>Operations\<close>

definition reset_node :: "knode \<Rightarrow> knode" where
  "reset_node nd = nd\<lparr>n_left_time := 1000000, n_pkt := 0, n_slen := 0, n_sleep_time := 0,
     n_kunit := kunit_skb_head_init (n_kunit nd)\<rparr>"

definition kfifo_finish_node :: "nat option \<Rightarrow> 'r kfifo_queue_data \<Rightarrow> fault + 'r kfifo_queue_data" where
  "kfifo_finish_node read k =
     (if read = None then Inr k
      else bindE (deref k read) (\<lambda>_. Inr (upd_node read reset_node k)))"

text \<open>\<open>kfifo_init\<close>: the three loops over the block, then the four closing assignments.\<close>

definition init_node :: "u32 \<Rightarrow> knode \<Rightarrow> knode" where
  "init_node rate nd = nd\<lparr>n_pkt := 0, n_rate := rate, n_slen := 0, n_tlen := rate div 1000,
     n_gain := 1, n_sleep_time := 0, n_left_time := 1000000,
     n_kunit := \<lparr>ku_head = None, ku_tail = None\<rparr>\<rparr>"

definition link_step :: "nat \<Rightarrow> knode list \<Rightarrow> knode list" where
  "link_step i ns = ns[i := (ns ! i)\<lparr>n_prev := Some (i - 1), n_next := Some (i + 1)\<rparr>]"

definition link_nodes :: "nat \<Rightarrow> knode list \<Rightarrow> knode list" where
  "link_nodes n ns =
     (let ns1 = fold link_step [1 ..< n - 1] ns;
          ns2 = ns1[0 := (ns1 ! 0)\<lparr>n_next := Some 1\<rparr>];
          ns3 = ns2[0 := (ns2 ! 0)\<lparr>n_prev := Some (n - 1)\<rparr>];
          ns4 = ns3[n - 1 := (ns3 ! (n - 1))\<lparr>n_next := Some 0\<rparr>]
      in ns4[n - 1 := (ns4 ! (n - 1))\<lparr>n_prev := Some (n - 2)\<rparr>])"

definition kfifo_init :: "(nat \<Rightarrow> knode list option) \<Rightarrow> 'r kfifo_queue_data \<Rightarrow> u32 \<Rightarrow> u32
    \<Rightarrow> int \<times> 'r kfifo_queue_data" where
  "kfifo_init mem k time rate =
     (let number = unat time in
      case mem number of
        None \<Rightarrow> (-1, k)
      | Some block \<Rightarrow>
          (let k1 = k\<lparr>k_nodes := block, k_pread := Some 0, k_pwrite := Some 0, k_pbase := Some 0,
                      k_total_len := ucast (time * rate div 1000), k_total_time := time,
                      k_lock := False\<rparr>
           in if number < 2 then (-1, k1)
              else (0, k1\<lparr>k_nodes := link_nodes number (map (init_node rate) block)\<rparr>)))"

text \<open>\<open>kfifo_reset\<close> returns no value when there is no block (it runs off its end).\<close>

definition kfifo_reset :: "(nat \<Rightarrow> knode list option) \<Rightarrow> 'r kfifo_queue_data \<Rightarrow> u32 \<Rightarrow> u32
    \<Rightarrow> int option \<times> 'r kfifo_queue_data" where
  "kfifo_reset mem k time rate =
     (if k_pbase k \<noteq> None
      then (case kfifo_init mem (k\<lparr>k_nodes := []\<rparr>) time rate of (r, k') \<Rightarrow> (Some r, k'))
      else (None, k))"

fun wr_conflict_loop :: "'r kfifo_queue_data \<Rightarrow> nat \<Rightarrow> nat option \<Rightarrow> fault + int" where
  "wr_conflict_loop k 0 temp = Inr 0"
| "wr_conflict_loop k (Suc n) temp =
     bindE (deref k temp) (\<lambda>nd.
       if n_next nd = k_pread k then Inr (-1) else wr_conflict_loop k n (n_next nd))"

definition kfifo_wr_conflict :: "'r kfifo_queue_data \<Rightarrow> int \<Rightarrow> fault + int" where
  "kfifo_wr_conflict k step =
     bindE (deref k (k_pwrite k)) (\<lambda>temp.
       if n_pkt temp > 0 \<and> k_pwrite k = k_pread k then Inr (-1)
       else wr_conflict_loop k (nat step) (k_pwrite k))"

fun write_forward_loop :: "nat \<Rightarrow> 'r kfifo_queue_data \<Rightarrow> fault + int \<times> 'r kfifo_queue_data" where
  "write_forward_loop 0 k = Inr (0, k)"
| "write_forward_loop (Suc n) k =
     bindE (deref k (k_pwrite k)) (\<lambda>nd.
       if n_next nd = None then Inr (-1, k)
       else if n_next nd = k_pread k then Inr (-1, k)
       else write_forward_loop n (k\<lparr>k_pwrite := n_next nd\<rparr>))"

definition kfifo_write_forward :: "'r kfifo_queue_data \<Rightarrow> int \<Rightarrow> u64
    \<Rightarrow> fault + int \<times> 'r kfifo_queue_data" where
  "kfifo_write_forward k step cost_time =
     bindE (write_forward_loop (nat step) k) (\<lambda>(r, k1).
       if r < 0 then Inr (r, k1)
       else bindE (deref k1 (k_pwrite k1)) (\<lambda>_.
         Inr (0, upd_node (k_pwrite k1) (\<lambda>nd. nd\<lparr>n_left_time := n_left_time nd - cost_time\<rparr>) k1)))"

text \<open>The \<open>while\<close> loop of \<open>kfifo_read_forward\<close>; \<open>None\<close> is a loop that does not end.\<close>

partial_function (option) read_forward_loop ::
    "'r kfifo_queue_data \<Rightarrow> (fault + int \<times> 'r kfifo_queue_data) option" where
  "read_forward_loop k =
     (case deref k (k_pread k) of
        Inl e \<Rightarrow> Some (Inl e)
      | Inr nd \<Rightarrow>
          if n_pkt nd = 0 then
            (let k' = k\<lparr>k_pread := n_next nd\<rparr> in
             if k_pread k' = k_pwrite k' then
               (case deref k' (k_pread k') of
                  Inl e \<Rightarrow> Some (Inl e)
                | Inr nd' \<Rightarrow> if n_pkt nd' = 0 then Some (Inr (0, k')) else Some (Inr (1, k')))
             else read_forward_loop k')
          else Some (Inr (1, k)))"

definition kfifo_read_forward :: "'r kfifo_queue_data \<Rightarrow> fault + int \<times> 'r kfifo_queue_data" where
  "kfifo_read_forward k =
     (if k_pread k = k_pwrite k then Inr (0, k)
      else case read_forward_loop k of None \<Rightarrow> Inl Diverges | Some r \<Rightarrow> r)"

text \<open>The five statements that store an accepted packet in the node at the write pointer.\<close>

definition kfifo_store :: "skb \<Rightarrow> u64 \<Rightarrow> u32 \<Rightarrow> skb_heap \<Rightarrow> 'r kfifo_queue_data
    \<Rightarrow> fault + skb_heap \<times> 'r kfifo_queue_data" where
  "kfifo_store skb skb_time skb_len h k =
     bindE (deref k (k_pwrite k)) (\<lambda>nd.
       case kunit_enqueue_tail skb (n_kunit nd) h of (ku, h') \<Rightarrow>
         Inr (h', (upd_node (k_pwrite k)
           (\<lambda>nd. nd\<lparr>n_sleep_time := n_sleep_time nd + skb_time, n_pkt := n_pkt nd + 1,
                    n_slen := n_slen nd + skb_len, n_kunit := ku\<rparr>) k)
           \<lparr>k_slen := k_slen k + ucast skb_len\<rparr>))"

definition kfifo_enqueue :: "('r \<Rightarrow> u32 \<Rightarrow> u64) \<Rightarrow> skb option \<Rightarrow> skb_heap \<Rightarrow> 'r kfifo_queue_data
    \<Rightarrow> fault + int \<times> skb_heap \<times> 'r kfifo_queue_data" where
  "kfifo_enqueue l2t p h k =
     (case p of
        None \<Rightarrow> Inl NullDeref
      | Some skb \<Rightarrow>
     (let skb_len = pkt_len h skb in
      if ucast skb_len + k_slen k > k_total_len k then Inr (NET_XMIT_DROP, h, k)
      else
        (let skb_time = l2t (k_rate k) skb_len in
         bindE (deref k (k_pwrite k)) (\<lambda>pw.
         if skb_time > n_left_time pw then
           (let step = c_int (sint skb_time sdiv UNIT_TIME) in
            bindE (kfifo_wr_conflict k (c_int (step + 1))) (\<lambda>c.
            if c = -1 then Inr (NET_XMIT_DROP, h, k)
            else
              (let cost_time = c_int (sint skb_time - c_int (step * UNIT_TIME)) in
               bindE (spin_lock k) (\<lambda>k1.
               bindE (kfifo_write_forward k1 (c_int (step + 1)) (word_of_int cost_time)) (\<lambda>(r, k2).
               if r < 0 then Inr (NET_XMIT_DROP, h, spin_unlock k2)
               else
                 bindE (kfifo_store skb skb_time skb_len h k2) (\<lambda>(h', k3).
                 Inr (NET_XMIT_SUCCESS, h', spin_unlock k3)))))))
         else
           bindE (kfifo_wr_conflict k 0) (\<lambda>c.
           if c = -1 then Inr (NET_XMIT_DROP, h, k)
           else
             bindE (spin_lock k) (\<lambda>k1.
             bindE (kfifo_store skb skb_time skb_len h
                (upd_node (k_pwrite k1) (\<lambda>nd. nd\<lparr>n_left_time := n_left_time nd - skb_time\<rparr>) k1))
               (\<lambda>(h', k3). Inr (NET_XMIT_SUCCESS, h', spin_unlock k3))))))))"

text \<open>The second half of \<open>kfifo_dequeue\<close>: take a packet from the node at the read pointer.\<close>

definition kfifo_take :: "skb_heap \<Rightarrow> 'r kfifo_queue_data \<Rightarrow> fault + skb option \<times> 'r kfifo_queue_data" where
  "kfifo_take h k =
     bindE (deref k (k_pread k)) (\<lambda>pr.
     case kunit_dequeue_head (n_kunit pr) h of
       (None, ku) \<Rightarrow> Inr (None, upd_node (k_pread k) (\<lambda>nd. nd\<lparr>n_kunit := ku\<rparr>) k)
     | (Some skb, ku) \<Rightarrow>
         (let skb_len = pkt_len h skb;
              k0 = upd_node (k_pread k) (\<lambda>nd. nd\<lparr>n_kunit := ku\<rparr>) k
          in bindE (spin_lock k0) (\<lambda>k1.
             Inr (Some skb,
               spin_unlock ((upd_node (k_pread k1)
                 (\<lambda>nd. nd\<lparr>n_pkt := n_pkt nd - 1, n_slen := n_slen nd - skb_len\<rparr>) k1)
                 \<lparr>k_slen := k_slen k1 - ucast skb_len\<rparr>)))))"

definition kfifo_dequeue :: "skb_heap \<Rightarrow> 'r kfifo_queue_data
    \<Rightarrow> fault + skb option \<times> 'r kfifo_queue_data" where
  "kfifo_dequeue h k =
     bindE (deref k (k_pread k)) (\<lambda>pr.
     if n_pkt pr = 0 then
       (if n_sleep_time pr > 0 then Inr (None, k)
        else bindE (kfifo_read_forward k) (\<lambda>(r, k1).
          if r \<noteq> 1 then Inr (None, k1) else kfifo_take h k1))
     else kfifo_take h k)"

end
