(* ===== verification/Kfifo_Ring.thy ===== *)
theory Kfifo_Ring
  imports Kfifo
begin

text \<open>
  What the ring holds and what its operations do to it. \<open>kf_rep h k r d ps\<close>: the ring \<open>k\<close> over
  the packet heap \<open>h\<close> has its read pointer at node \<open>r\<close> and its write pointer \<open>d\<close> nodes further,
  and \<open>ps ! j\<close> are the packets of the node \<open>j\<close> places after the read pointer. The packets the
  ring holds, oldest first, are \<open>concat ps\<close>.
\<close>

section \<open>The invariant\<close>

definition ring_linked :: "knode list \<Rightarrow> bool" where
  "ring_linked ns \<longleftrightarrow> 2 \<le> length ns \<and>
     (\<forall>i < length ns. n_next (ns ! i) = Some (Suc i mod length ns) \<and>
                      n_prev (ns ! i) = Some ((i + length ns - 1) mod length ns))"

definition node_rep :: "skb_heap \<Rightarrow> knode \<Rightarrow> skb list \<Rightarrow> bool" where
  "node_rep h nd xs \<longleftrightarrow>
     kunit_rep h (n_kunit nd) xs \<and> n_pkt nd = of_nat (length xs) \<and>
     n_slen nd = sum_list (map (pkt_len h) xs)"

text \<open>The time a node has left and the time it has promised account for each other.\<close>

definition node_time :: "knode \<Rightarrow> bool" where
  "node_time nd \<longleftrightarrow>
     unat (n_left_time nd) \<le> 1000000 \<and>
     1000000 \<le> unat (n_left_time nd) + unat (n_sleep_time nd) \<and>
     unat (n_left_time nd) + unat (n_sleep_time nd) \<le> 1125899907842624"

definition node_fresh :: "knode \<Rightarrow> bool" where
  "node_fresh nd \<longleftrightarrow> n_left_time nd = 1000000 \<and> n_sleep_time nd = 0"

definition held_bytes :: "skb_heap \<Rightarrow> skb list \<Rightarrow> nat" where
  "held_bytes h xs = sum_list (map (\<lambda>s. unat (pkt_len h s)) xs)"

definition kf_rep :: "skb_heap \<Rightarrow> 'r kfifo_queue_data \<Rightarrow> nat \<Rightarrow> nat \<Rightarrow> skb list list \<Rightarrow> bool" where
  "kf_rep h k r d ps \<longleftrightarrow>
     (let N = length (k_nodes k) in
      ring_linked (k_nodes k) \<and> length ps = N \<and> r < N \<and> d < N \<and>
      k_pread k = Some r \<and> k_pwrite k = Some ((r + d) mod N) \<and> \<not> k_lock k \<and>
      (\<forall>j < N. node_rep h (k_nodes k ! ((r + j) mod N)) (ps ! j) \<and>
               node_time (k_nodes k ! ((r + j) mod N))) \<and>
      (\<forall>j < N. 0 < j \<and> ps ! j = [] \<longrightarrow> node_fresh (k_nodes k ! ((r + j) mod N))) \<and>
      (\<forall>j < N. d < j \<longrightarrow> ps ! j = []) \<and>
      distinct (concat ps) \<and> (\<forall>s \<in> set (concat ps). pkt_len h s \<noteq> 0) \<and>
      unat (k_slen k) = held_bytes h (concat ps) \<and>
      unat (k_slen k) \<le> unat (k_total_len k) \<and> unat (k_total_len k) < 2 ^ 32)"

lemma held_bytes_simps [simp]:
  "held_bytes h [] = 0"
  "held_bytes h (x # xs) = unat (pkt_len h x) + held_bytes h xs"
  "held_bytes h (xs @ ys) = held_bytes h xs + held_bytes h ys"
  by (simp_all add: held_bytes_def)

lemma length_le_held_bytes:
  "\<forall>s \<in> set xs. pkt_len h s \<noteq> 0 \<Longrightarrow> length xs \<le> held_bytes h xs"
proof (induction xs)
  case (Cons x xs)
  then have "0 < unat (pkt_len h x)" by (simp add: unat_gt_0)
  with Cons show ?case by simp
qed simp

section \<open>Positions on the ring\<close>

lemma ring_pos_lt [ring_simps]: "2 \<le> (N::nat) \<Longrightarrow> (r + j) mod N < N"
  by (rule mod_less_divisor) simp

lemma ring_pos_Suc [ring_simps]: "Suc ((r + j) mod N) mod N = (r + Suc j) mod N"
  by (simp add: mod_Suc_eq)

lemma ring_pos_zero [ring_simps]: "r < N \<Longrightarrow> j < N \<Longrightarrow> (r + j) mod N = r \<longleftrightarrow> j = (0::nat)"
  using mod_add_inj [of r N j 0] by simp

section \<open>Projections of the invariant\<close>

lemma kf_rep_dest:
  assumes "kf_rep h k r d ps"
  defines "N \<equiv> length (k_nodes k)"
  shows kf_linked: "ring_linked (k_nodes k)" and kf_length: "length ps = N"
    and kf_r: "r < N" and kf_d: "d < N" and kf_N: "2 \<le> N"
    and kf_pread: "k_pread k = Some r" and kf_pwrite: "k_pwrite k = Some ((r + d) mod N)"
    and kf_unlocked: "\<not> k_lock k"
    and kf_node: "\<And>j. j < N \<Longrightarrow> node_rep h (k_nodes k ! ((r + j) mod N)) (ps ! j)"
    and kf_time: "\<And>j. j < N \<Longrightarrow> node_time (k_nodes k ! ((r + j) mod N))"
    and kf_fresh: "\<And>j. j < N \<Longrightarrow> 0 < j \<Longrightarrow> ps ! j = [] \<Longrightarrow> node_fresh (k_nodes k ! ((r + j) mod N))"
    and kf_beyond: "\<And>j. j < N \<Longrightarrow> d < j \<Longrightarrow> ps ! j = []"
    and kf_distinct: "distinct (concat ps)"
    and kf_pos: "\<And>s. s \<in> set (concat ps) \<Longrightarrow> pkt_len h s \<noteq> 0"
    and kf_bytes: "unat (k_slen k) = held_bytes h (concat ps)"
    and kf_cap: "unat (k_slen k) \<le> unat (k_total_len k)" and kf_cap32: "unat (k_total_len k) < 2 ^ 32"
  using assms by (auto simp: kf_rep_def Let_def ring_linked_def)

lemma deref_pos:
  assumes "kf_rep h k r d ps"
  shows "deref k (Some ((r + j) mod length (k_nodes k))) = Inr (k_nodes k ! ((r + j) mod length (k_nodes k)))"
  using kf_N [OF assms] by (simp add: deref_def ring_pos_lt)

lemma deref_pread: "kf_rep h k r d ps \<Longrightarrow> deref k (k_pread k) = Inr (k_nodes k ! r)"
  using deref_pos [of h k r d ps 0] by (simp add: kf_pread kf_r)

lemma next_pos:
  assumes "kf_rep h k r d ps"
  shows "n_next (k_nodes k ! ((r + j) mod length (k_nodes k))) = Some ((r + Suc j) mod length (k_nodes k))"
  using kf_linked [OF assms] kf_N [OF assms] by (simp add: ring_linked_def ring_pos_lt ring_pos_Suc)

text \<open>A node of the ring never holds \<open>2 ^ 32\<close> packets, so its counter is exact.\<close>

lemma length_nth_le_concat: "i < length xss \<Longrightarrow> length (xss ! i) \<le> length (concat xss)"
  by (simp add: length_concat member_le_sum_list)

lemma kf_pkt:
  assumes "kf_rep h k r d ps" and "j < length (k_nodes k)"
  shows "unat (n_pkt (k_nodes k ! ((r + j) mod length (k_nodes k)))) = length (ps ! j)"
proof -
  have "length (ps ! j) \<le> length (concat ps)"
    using assms by (simp add: length_nth_le_concat kf_length)
  also have "\<dots> \<le> held_bytes h (concat ps)"
    using kf_pos [OF assms(1)] by (intro length_le_held_bytes) blast
  also have "\<dots> < 2 ^ 32"
    using kf_bytes [OF assms(1)] kf_cap [OF assms(1)] kf_cap32 [OF assms(1)] by linarith
  finally show ?thesis
    using kf_node [OF assms] by (simp add: node_rep_def unat_of_nat)
qed

lemma kf_pkt_zero:
  assumes "kf_rep h k r d ps" and "j < length (k_nodes k)"
  shows "n_pkt (k_nodes k ! ((r + j) mod length (k_nodes k))) = 0 \<longleftrightarrow> ps ! j = []"
  using kf_pkt [OF assms] by (metis length_0_conv unat_eq_zero)

lemma kf_pkt_zero_pread:
  assumes "kf_rep h k r d ps"
  shows "n_pkt (k_nodes k ! r) = 0 \<longleftrightarrow> ps ! 0 = []"
proof -
  have "0 < length (k_nodes k)" using kf_N [OF assms] by linarith
  from kf_pkt_zero [OF assms this] show ?thesis by (simp add: kf_r [OF assms])
qed

section \<open>The pointer-chasing loops\<close>

lemma ring_next:
  assumes "ring_linked (k_nodes k)"
  shows "deref k (Some ((r + j) mod length (k_nodes k))) = Inr (k_nodes k ! ((r + j) mod length (k_nodes k)))"
    and "n_next (k_nodes k ! ((r + j) mod length (k_nodes k))) = Some ((r + Suc j) mod length (k_nodes k))"
  using assms by (simp_all add: ring_linked_def deref_def ring_pos_lt ring_pos_Suc)

text \<open>The reader is met exactly when the steps reach once round the ring.\<close>

lemma wr_conflict_loop_eq:
  assumes "ring_linked (k_nodes k)" and "k_pread k = Some r" and "r < length (k_nodes k)"
    and "j < length (k_nodes k)"
  shows "wr_conflict_loop k n (Some ((r + j) mod length (k_nodes k))) =
    Inr (if length (k_nodes k) \<le> j + n then -1 else 0)"
  using assms(4)
proof (induction n arbitrary: j)
  case (Suc n)
  show ?case
  proof (cases "Suc j = length (k_nodes k)")
    case True
    then show ?thesis using assms(2,3) by (simp add: ring_next [OF assms(1)])
  next
    case False
    with Suc.prems have j: "Suc j < length (k_nodes k)" by simp
    with assms(2,3) have "(r + Suc j) mod length (k_nodes k) \<noteq> r"
      by (subst ring_pos_zero) simp_all
    with Suc.IH [OF j] assms(2) show ?thesis by (simp add: ring_next [OF assms(1)])
  qed
qed simp

lemma write_forward_loop_eq:
  assumes "ring_linked (k_nodes k)" and "k_pread k = Some r" and "r < length (k_nodes k)"
    and "k_pwrite k = Some ((r + j) mod length (k_nodes k))" and "j + n < length (k_nodes k)"
  shows "write_forward_loop n k = Inr (0, k\<lparr>k_pwrite := Some ((r + (j + n)) mod length (k_nodes k))\<rparr>)"
  using assms
proof (induction n arbitrary: j k)
  case (Suc n)
  from Suc.prems have "(r + Suc j) mod length (k_nodes k) \<noteq> r"
    by (subst ring_pos_zero) simp_all
  with Suc.prems Suc.IH [of "k\<lparr>k_pwrite := Some ((r + Suc j) mod length (k_nodes k))\<rparr>" "Suc j"]
  show ?case by (simp add: ring_next)
qed simp

lemma wr_conflict_eq:
  assumes "kf_rep h k r d ps"
  shows "kfifo_wr_conflict k step =
    Inr (if d = 0 \<and> ps ! 0 \<noteq> [] \<or> length ps \<le> d + nat step then -1 else 0)"
proof -
  note rep = assms
  have eq: "k_pwrite k = k_pread k \<longleftrightarrow> d = 0"
    using kf_r [OF rep] kf_d [OF rep] by (simp add: kf_pread [OF rep] kf_pwrite [OF rep] ring_pos_zero)
  have pkt: "n_pkt (k_nodes k ! ((r + d) mod length (k_nodes k))) > 0 \<longleftrightarrow> ps ! d \<noteq> []"
    using kf_pkt_zero [OF rep kf_d [OF rep]] word_neq_0_conv by metis
  show ?thesis
    using wr_conflict_loop_eq [OF kf_linked [OF rep] kf_pread [OF rep] kf_r [OF rep] kf_d [OF rep], of "nat step"]
    unfolding kfifo_wr_conflict_def eq
    by (auto simp: kf_length [OF rep] pkt deref_pos [OF rep] kf_pwrite [OF rep])
qed

section \<open>Storing a packet\<close>

text \<open>A write to the heap leaves lengths alone and touches the links of \<open>xs\<close> at most.\<close>

definition heap_frame :: "skb_heap \<Rightarrow> skb_heap \<Rightarrow> skb list \<Rightarrow> bool" where
  "heap_frame h h' xs \<longleftrightarrow> pkt_len h' = pkt_len h \<and> data_len h' = data_len h \<and>
     (\<forall>x. x \<notin> set xs \<longrightarrow> nxt h' x = nxt h x)"

lemma heap_frame_refl [simp]: "heap_frame h h xs"
  by (simp add: heap_frame_def)

lemma heap_frame_bytes: "heap_frame h h' ys \<Longrightarrow> held_bytes h' xs = held_bytes h xs"
  by (simp add: heap_frame_def held_bytes_def)

lemma node_rep_frame:
  assumes "node_rep h nd xs" and "heap_frame h h' ys" and "set xs \<inter> set ys = {}"
  shows "node_rep h' nd xs"
proof -
  have "nxt h' x = nxt h x" if "x \<in> set xs" for x
    using that assms(2,3) by (auto simp: heap_frame_def)
  from kunit_rep_frame [OF this] show ?thesis
    using assms(1,2) by (simp add: node_rep_def heap_frame_def)
qed

lemma concat_nth_disjoint:
  assumes "distinct (concat xss)" and "i < length xss" and "j < length xss" and "i \<noteq> j"
  shows "set (xss ! i) \<inter> set (xss ! j) = {}"
proof -
  have "set (xss ! i) \<inter> set (xss ! j) = {}" if "i < j" "j < length xss" for i j
  proof -
    have "xss = take j xss @ xss ! j # drop (Suc j) xss"
      using that by (simp add: id_take_nth_drop)
    then have "distinct (concat (take j xss) @ xss ! j @ concat (drop (Suc j) xss))"
      using assms(1) by (metis concat.simps(2) concat_append)
    then have "set (concat (take j xss)) \<inter> set (xss ! j) = {}" by auto
    moreover have "xss ! i \<in> set (take j xss)"
      using that by (auto simp: in_set_conv_nth intro!: exI [of _ i])
    ultimately show ?thesis by auto
  qed
  from this [of i j] this [of j i] show ?thesis
    using assms(2-4) by (metis Int_commute linorder_neqE_nat)
qed

lemma ring_linked_update:
  assumes "ring_linked ns" and "i < length ns"
    and "n_next nd = n_next (ns ! i)" and "n_prev nd = n_prev (ns ! i)"
  shows "ring_linked (ns[i := nd])"
  using assms by (auto simp: ring_linked_def nth_list_update)

lemma node_rep_store:
  assumes "node_rep h nd xs" and "skb \<notin> set xs" and "nxt h skb = None"
    and "kunit_enqueue_tail skb (n_kunit nd) h = (ku, h')"
  shows "node_rep h' (nd\<lparr>n_left_time := lt, n_sleep_time := st, n_pkt := n_pkt nd + 1,
      n_slen := n_slen nd + pkt_len h skb, n_kunit := ku\<rparr>) (xs @ [skb])"
    and "heap_frame h h' xs"
proof -
  from assms(1) have ku: "kunit_rep h (n_kunit nd) xs" by (simp add: node_rep_def)
  from kunit_rep_enqueue_tail [OF ku assms(2-4)] assms(1)
  show "node_rep h' (nd\<lparr>n_left_time := lt, n_sleep_time := st, n_pkt := n_pkt nd + 1,
      n_slen := n_slen nd + pkt_len h skb, n_kunit := ku\<rparr>) (xs @ [skb])"
    by (simp add: node_rep_def kunit_enqueue_tail_lens [OF assms(4)])
  show "heap_frame h h' xs"
    using kunit_enqueue_tail_frame [OF ku assms(3,4)] kunit_enqueue_tail_lens [OF assms(4)]
    by (simp add: heap_frame_def)
qed

text \<open>
  Storing a packet in the node \<open>d'\<close> places after the reader, at or past the old write pointer,
  once the lock is taken and the node's time is charged.
\<close>

lemma kf_rep_store:
  fixes k :: "'r kfifo_queue_data"
  assumes rep: "kf_rep h k r d ps" and d': "d \<le> d'" "d' < length (k_nodes k)"
    and skb: "skb \<notin> set (concat ps)" "nxt h skb = None" "pkt_len h skb \<noteq> 0"
    and room: "unat (k_slen k) + unat (pkt_len h skb) \<le> unat (k_total_len k)"
  defines "i \<equiv> (r + d') mod length (k_nodes k)"
  defines "nd \<equiv> k_nodes k ! i"
  assumes time: "node_time (nd\<lparr>n_left_time := lt, n_sleep_time := n_sleep_time nd + t\<rparr>)"
    and k2: "k2 = k\<lparr>k_pwrite := Some i, k_lock := True, k_nodes := (k_nodes k)[i := nd\<lparr>n_left_time := lt\<rparr>]\<rparr>"
  shows "\<exists>h' k3. kfifo_store skb t (pkt_len h skb) h k2 = Inr (h', k3) \<and>
    kf_rep h' (spin_unlock k3) r d' (ps[d' := ps ! d' @ [skb]]) \<and>
    heap_frame h h' (ps ! d') \<and> k_rate k3 = k_rate k \<and> k_total_len k3 = k_total_len k \<and>
    length (k_nodes k3) = length (k_nodes k) \<and> n_left_time (k_nodes k3 ! i) = lt"
proof -
  let ?N = "length (k_nodes k)" and ?ps = "ps[d' := ps ! d' @ [skb]]"
  note N = kf_N [OF rep] and len = kf_length [OF rep]
  have i: "i < ?N" unfolding i_def using N by (rule ring_pos_lt)
  have dj: "set (ps ! j) \<inter> set (ps ! d') = {}" if "j < ?N" "j \<noteq> d'" for j
    using concat_nth_disjoint [OF kf_distinct [OF rep]] that d' len by simp
  have s: "skb \<notin> set (ps ! j)" if "j < ?N" for j
    using skb(1) that len by auto
  have pos: "(r + j) mod ?N = i \<longleftrightarrow> j = d'" if "j < ?N" for j
    using that d' kf_r [OF rep] unfolding i_def by (subst mod_add_inj) auto
  obtain ku h' where ku: "kunit_enqueue_tail skb (n_kunit nd) h = (ku, h')" by force
  define nd' where "nd' = nd\<lparr>n_left_time := lt, n_sleep_time := n_sleep_time nd + t,
      n_pkt := n_pkt nd + 1, n_slen := n_slen nd + pkt_len h skb, n_kunit := ku\<rparr>"
  define k3 where "k3 = k2\<lparr>k_nodes := (k_nodes k)[i := nd'], k_slen := k_slen k + ucast (pkt_len h skb)\<rparr>"
  have nd: "node_rep h nd (ps ! d')"
    unfolding nd_def i_def using rep d'(2) by (rule kf_node)
  note nd_st = node_rep_store [OF nd s [OF d'(2)] skb(2) ku]
  have store: "kfifo_store skb t (pkt_len h skb) h k2 = Inr (h', k3)"
    using i by (simp add: kfifo_store_def deref_def upd_node_def k2 k3_def nd'_def ku)
  have app: "concat ?ps = concat ps @ [skb]"
    using d' len kf_beyond [OF rep] by (intro concat_update_last) auto
  have "kf_rep h' (spin_unlock k3) r d' ?ps"
    unfolding kf_rep_def Let_def
  proof (intro conjI allI impI ballI)
    show "ring_linked (k_nodes (spin_unlock k3))"
      using kf_linked [OF rep] i
      by (simp add: spin_unlock_def k3_def nd'_def nd_def ring_linked_update)
    fix j assume "j < length (k_nodes (spin_unlock k3))"
    then have j: "j < ?N" by (simp add: spin_unlock_def k3_def)
    show "node_rep h' (k_nodes (spin_unlock k3) ! ((r + j) mod length (k_nodes (spin_unlock k3)))) (?ps ! j)"
      using nd_st(1) node_rep_frame [OF kf_node [OF rep j] nd_st(2) dj [OF j]] j i pos [OF j] len
      by (cases "j = d'") (simp_all add: spin_unlock_def k3_def nd'_def)
    show "node_time (k_nodes (spin_unlock k3) ! ((r + j) mod length (k_nodes (spin_unlock k3))))"
      using time kf_time [OF rep j] j i pos [OF j]
      by (cases "j = d'") (simp_all add: spin_unlock_def k3_def nd'_def node_time_def)
    show "?ps ! j = []" if "d' < j"
      using that j d' kf_beyond [OF rep j] by simp
    show "node_fresh (k_nodes (spin_unlock k3) ! ((r + j) mod length (k_nodes (spin_unlock k3))))"
      if "0 < j \<and> ?ps ! j = []"
      using that kf_fresh [OF rep j] j i pos [OF j] len
      by (cases "j = d'") (simp_all add: spin_unlock_def k3_def)
  next
    show "distinct (concat ?ps)" unfolding app using kf_distinct [OF rep] skb(1) by simp
    show "pkt_len h' s \<noteq> 0" if "s \<in> set (concat ?ps)" for s
      using that kf_pos [OF rep] skb(3) nd_st(2) unfolding app by (auto simp: heap_frame_def)
    have "unat (k_slen k + ucast (pkt_len h skb)) = unat (k_slen k) + unat (pkt_len h skb)"
      using room kf_cap32 [OF rep] by (subst unat_plus_lt) simp_all
    then have b: "unat (k_slen (spin_unlock k3)) = unat (k_slen k) + unat (pkt_len h skb)"
      by (simp add: spin_unlock_def k3_def)
    then show "unat (k_slen (spin_unlock k3)) = held_bytes h' (concat ?ps)"
      unfolding app using nd_st(2)
      by (simp add: heap_frame_bytes [OF nd_st(2)] kf_bytes [OF rep] heap_frame_def)
    show "unat (k_slen (spin_unlock k3)) \<le> unat (k_total_len (spin_unlock k3))"
      unfolding b using room by (simp add: spin_unlock_def k3_def k2)
  qed (use rep d' len kf_cap32 [OF rep] in \<open>auto simp: spin_unlock_def k3_def k2 i_def kf_r kf_pread\<close>)
  with store nd_st(2) i show ?thesis
    by (auto simp: k3_def k2 nd'_def)
qed

section \<open>Enqueue\<close>

text \<open>What the caller owes for the packet it hands over.\<close>

definition kf_ok :: "('r \<Rightarrow> u32 \<Rightarrow> u64) \<Rightarrow> skb_heap \<Rightarrow> 'r kfifo_queue_data \<Rightarrow> skb list \<Rightarrow> skb \<Rightarrow> bool" where
  "kf_ok l2t h k xs skb \<longleftrightarrow>
     skb \<notin> set xs \<and> nxt h skb = None \<and> pkt_len h skb \<noteq> 0 \<and>
     unat (l2t (k_rate k) (pkt_len h skb)) < 2 ^ 50"

text \<open>
  Where a packet that takes \<open>t\<close> nanoseconds on the wire goes: the node (counted from the
  reader) and the time that node has left afterwards; \<open>None\<close> when the ring refuses it.
\<close>

definition kf_slot :: "nat \<Rightarrow> nat \<Rightarrow> bool \<Rightarrow> nat \<Rightarrow> nat \<Rightarrow> (nat \<times> nat) option" where
  "kf_slot N d busy left t =
     (if d = 0 \<and> busy then None
      else if t \<le> left then Some (d, left - t)
      else if N \<le> d + (t div 1000000 + 1) then None
      else Some (d + (t div 1000000 + 1), 1000000 - t mod 1000000))"

definition write_left :: "'r kfifo_queue_data \<Rightarrow> nat" where
  "write_left k = (case k_pwrite k of None \<Rightarrow> 0 | Some i \<Rightarrow> unat (n_left_time (k_nodes k ! i)))"

lemma sdiv_nat [word_views]: "int a sdiv int b = int (a div b)"
  by (simp add: signed_divide_int_def zdiv_int sgn_if)

text \<open>The product \<open>step*UNIT_TIME\<close> may wrap; the difference the code takes is right all the same.\<close>

lemma c_int_diff: "c_int (x - c_int y) = c_int (x - y)"
  unfolding c_int_def by (metis signed_take_bit_diff signed_take_bit_signed_take_bit min.idem)

lemma enqueue_arith:
  fixes T :: u64
  assumes "unat T < 2 ^ 50"
  defines "t \<equiv> unat T"
  shows "c_int (sint T sdiv UNIT_TIME) = int (t div 1000000)"
    and "c_int (int (t div 1000000) + 1) = int (t div 1000000 + 1)"
    and "c_int (sint T - c_int (int (t div 1000000) * UNIT_TIME)) = int (t mod 1000000)"
    and "unat (word_of_int (int (t mod 1000000)) :: u64) = t mod 1000000"
proof -
  have t: "t < 1125899906842624" using assms by simp
  have s: "sint T = int t" using assms by (subst sint_small) simp_all
  have d: "sint T sdiv UNIT_TIME = int (t div 1000000)"
    unfolding s using sdiv_nat [of t 1000000] by simp
  show "c_int (sint T sdiv UNIT_TIME) = int (t div 1000000)"
    unfolding d using t by (subst c_int_id) (simp_all add: div_less_iff_less_mult)
  show "c_int (int (t div 1000000) + 1) = int (t div 1000000 + 1)"
    using t by (subst c_int_id) simp_all
  have "int t - int (t div 1000000) * UNIT_TIME = int (t mod 1000000)"
    by (simp add: zmod_int zdiv_int minus_div_mult_eq_mod)
  then show "c_int (sint T - c_int (int (t div 1000000) * UNIT_TIME)) = int (t mod 1000000)"
    unfolding s c_int_diff by simp
  show "unat (word_of_int (int (t mod 1000000)) :: u64) = t mod 1000000"
    by (simp add: unat_of_nat)
qed

lemma kf_write_left:
  "kf_rep h k r d ps \<Longrightarrow> write_left k = unat (n_left_time (k_nodes k ! ((r + d) mod length (k_nodes k))))"
  by (simp add: write_left_def kf_pwrite)

lemma deref_pwrite:
  "kf_rep h k r d ps \<Longrightarrow> deref k (k_pwrite k) = Inr (k_nodes k ! ((r + d) mod length (k_nodes k)))"
  by (simp add: kf_pwrite deref_pos)

lemma kf_full_iff:
  assumes "kf_rep h k r d ps"
  shows "ucast (pkt_len h skb) + k_slen k > k_total_len k \<longleftrightarrow>
    unat (k_total_len k) < unat (k_slen k) + unat (pkt_len h skb)"
proof -
  have l: "unat (pkt_len h skb) < 2 ^ 32" using unsigned_less [of "pkt_len h skb"] by simp
  have "unat (ucast (pkt_len h skb) + k_slen k) = unat (pkt_len h skb) + unat (k_slen k)"
    using kf_cap [OF assms] kf_cap32 [OF assms] l by (subst unat_plus_lt) simp_all
  then show ?thesis by (simp add: word_less_nat_alt add.commute)
qed

lemma kfifo_enqueue_full:
  assumes "kf_rep h k r d ps" and "unat (k_total_len k) < unat (k_slen k) + unat (pkt_len h skb)"
  shows "kfifo_enqueue l2t (Some skb) h k = Inr (NET_XMIT_DROP, h, k)"
  using assms kf_full_iff [OF assms(1)] by (simp add: kfifo_enqueue_def Let_def)

text \<open>The step and cost the code computes, as opaque numbers the simplifier leaves alone.\<close>

lemma enqueue_arith_obtain:
  fixes T :: u64
  assumes "unat T < 2 ^ 50"
  obtains n :: nat and c :: nat
  where "n = unat T div 1000000" and "c = unat T mod 1000000"
    and "c_int (sint T sdiv UNIT_TIME) = int n" and "c_int (int n + 1) = int n + 1"
    and "c_int (sint T - c_int (int n * UNIT_TIME)) = int c"
    and "unat (word_of_int (int c) :: u64) = c"
  using enqueue_arith [OF assms] that [OF refl refl] by simp

lemma kfifo_enqueue_refused:
  assumes rep: "kf_rep h k r d ps" and ok: "kf_ok l2t h k (concat ps) skb"
    and none: "kf_slot (length ps) d (ps ! 0 \<noteq> []) (write_left k)
      (unat (l2t (k_rate k) (pkt_len h skb))) = None"
  shows "kfifo_enqueue l2t (Some skb) h k = Inr (NET_XMIT_DROP, h, k)"
proof -
  define T where "T = l2t (k_rate k) (pkt_len h skb)"
  have T: "unat T < 2 ^ 50" using ok by (simp add: kf_ok_def T_def)
  have d: "d < length ps" using kf_d [OF rep] kf_length [OF rep] by simp
  obtain n c where n: "n = unat T div 1000000"
    and e: "c_int (sint T sdiv UNIT_TIME) = int n" "c_int (int n + 1) = int n + 1"
    by (rule enqueue_arith_obtain [OF T]) 
  define pw where "pw = k_nodes k ! ((r + d) mod length (k_nodes k))"
  have pw: "deref k (k_pwrite k) = Inr pw" "write_left k = unat (n_left_time pw)"
    unfolding pw_def using deref_pwrite [OF rep] kf_write_left [OF rep] by auto
  have gt: "T > n_left_time pw \<longleftrightarrow> unat (n_left_time pw) < unat T" by (rule word_less_nat_alt)
  have none': "kf_slot (length ps) d (ps ! 0 \<noteq> []) (unat (n_left_time pw)) (unat T) = None"
    using none by (simp add: pw T_def)
  show ?thesis
  proof (cases "unat (n_left_time pw) < unat T")
    case True
    with none' have "d = 0 \<and> ps ! 0 \<noteq> [] \<or> length ps \<le> d + (n + 1)"
      by (auto simp: kf_slot_def n split: if_splits)
    then show ?thesis
      using True by (simp add: kfifo_enqueue_def Let_def T_def [symmetric] pw gt e
          wr_conflict_eq [OF rep] nat_add_distrib)
  next
    case False
    with none' have "d = 0 \<and> ps ! 0 \<noteq> []"
      by (auto simp: kf_slot_def split: if_splits)
    then show ?thesis
      using False by (simp add: kfifo_enqueue_def Let_def T_def [symmetric] pw gt wr_conflict_eq [OF rep])
  qed
qed

text \<open>The state the two accepting branches hand to the closing statements.\<close>

abbreviation charged :: "'r kfifo_queue_data \<Rightarrow> nat \<Rightarrow> u64 \<Rightarrow> 'r kfifo_queue_data" where
  "charged k i lt \<equiv> k\<lparr>k_pwrite := Some i, k_lock := True,
     k_nodes := (k_nodes k)[i := (k_nodes k ! i)\<lparr>n_left_time := lt\<rparr>]\<rparr>"

lemma write_forward_charge:
  assumes rep: "kf_rep h k r d ps" and n: "d + n < length (k_nodes k)"
  defines "i \<equiv> (r + (d + n)) mod length (k_nodes k)"
  shows "kfifo_write_forward (k\<lparr>k_lock := True\<rparr>) (int n) cost =
    Inr (0, charged k i (n_left_time (k_nodes k ! i) - cost))"
proof -
  have "write_forward_loop n (k\<lparr>k_lock := True\<rparr>) = Inr (0, k\<lparr>k_lock := True, k_pwrite := Some i\<rparr>)"
    using write_forward_loop_eq [of "k\<lparr>k_lock := True\<rparr>" r d n] rep n
    by (simp add: kf_linked kf_pread kf_r kf_pwrite i_def)
  moreover have "i < length (k_nodes k)" unfolding i_def using kf_N [OF rep] by (rule ring_pos_lt)
  ultimately show ?thesis
    by (simp add: kfifo_write_forward_def deref_def upd_node_def)
qed

lemma node_time_charge:
  assumes "node_time nd" and "unat T \<le> unat (n_left_time nd)" and "unat T < 2 ^ 50"
  shows "node_time (nd\<lparr>n_left_time := n_left_time nd - T, n_sleep_time := n_sleep_time nd + T\<rparr>)"
    and "unat (n_left_time nd - T) = unat (n_left_time nd) - unat T"
proof -
  show l: "unat (n_left_time nd - T) = unat (n_left_time nd) - unat T"
    using assms(2) by (rule unat_minus_le)
  have "unat (n_sleep_time nd + T) = unat (n_sleep_time nd) + unat T"
    using assms by (intro unat_plus_lt) (simp add: node_time_def)
  with l assms show "node_time (nd\<lparr>n_left_time := n_left_time nd - T, n_sleep_time := n_sleep_time nd + T\<rparr>)"
    by (simp add: node_time_def le_diff_conv)
qed

lemma node_time_charge_fresh:
  fixes T c :: u64
  assumes "node_fresh nd" and "unat c = unat T mod 1000000" and "unat T < 2 ^ 50"
  shows "node_time (nd\<lparr>n_left_time := n_left_time nd - c, n_sleep_time := n_sleep_time nd + T\<rparr>)"
    and "unat (n_left_time nd - c) = 1000000 - unat T mod 1000000"
proof -
  have m: "unat T mod 1000000 < 1000000" and mt: "unat T mod 1000000 \<le> unat T" by simp_all
  show l: "unat (n_left_time nd - c) = 1000000 - unat T mod 1000000"
    using assms(1,2) m by (subst unat_minus_le) (simp_all add: node_fresh_def)
  show "node_time (nd\<lparr>n_left_time := n_left_time nd - c, n_sleep_time := n_sleep_time nd + T\<rparr>)"
    using l m mt assms(1,3) unfolding node_time_def node_fresh_def by simp linarith
qed

lemma kfifo_enqueue_stored:
  fixes k :: "'r kfifo_queue_data"
  assumes rep: "kf_rep h k r d ps" and ok: "kf_ok l2t h k (concat ps) skb"
    and room: "unat (k_slen k) + unat (pkt_len h skb) \<le> unat (k_total_len k)"
    and slot: "kf_slot (length ps) d (ps ! 0 \<noteq> []) (write_left k)
      (unat (l2t (k_rate k) (pkt_len h skb))) = Some (d', lt)"
  shows "\<exists>h' k'. kfifo_enqueue l2t (Some skb) h k = Inr (NET_XMIT_SUCCESS, h', k') \<and>
    kf_rep h' k' r d' (ps[d' := ps ! d' @ [skb]]) \<and> heap_frame h h' (ps ! d') \<and>
    k_rate k' = k_rate k \<and> k_total_len k' = k_total_len k \<and>
    length (k_nodes k') = length (k_nodes k) \<and> write_left k' = lt"
proof -
  let ?N = "length (k_nodes k)"
  define T where "T = l2t (k_rate k) (pkt_len h skb)"
  have T: "unat T < 2 ^ 50" and skb: "skb \<notin> set (concat ps)" "nxt h skb = None" "pkt_len h skb \<noteq> 0"
    using ok by (simp_all add: kf_ok_def T_def)
  have len: "length ps = ?N" using rep by (rule kf_length)
  have d: "d < ?N" using rep by (rule kf_d)
  obtain n c where n: "n = unat T div 1000000" and c: "c = unat T mod 1000000"
    and e: "c_int (sint T sdiv UNIT_TIME) = int n" "c_int (int n + 1) = int n + 1"
      "c_int (sint T - c_int (int n * UNIT_TIME)) = int c" "unat (word_of_int (int c) :: u64) = c"
    by (rule enqueue_arith_obtain [OF T])
  define pw where "pw = k_nodes k ! ((r + d) mod ?N)"
  have pw: "deref k (k_pwrite k) = Inr pw" "write_left k = unat (n_left_time pw)"
    unfolding pw_def using deref_pwrite [OF rep] kf_write_left [OF rep] by auto
  have gt: "T > n_left_time pw \<longleftrightarrow> unat (n_left_time pw) < unat T" by (rule word_less_nat_alt)
  have nofull: "\<not> ucast (pkt_len h skb) + k_slen k > k_total_len k"
    using kf_full_iff [OF rep] room by simp
  have lock: "spin_lock k = Inr (k\<lparr>k_lock := True\<rparr>)"
    using kf_unlocked [OF rep] by (simp add: spin_lock_def)
  have slot': "kf_slot (length ps) d (ps ! 0 \<noteq> []) (unat (n_left_time pw)) (unat T) = Some (d', lt)"
    using slot by (simp add: pw T_def)
  then have free: "\<not> (d = 0 \<and> ps ! 0 \<noteq> [])" by (auto simp: kf_slot_def split: if_splits)
  show ?thesis
  proof (cases "unat (n_left_time pw) < unat T")
    case True
    with slot' free have dn: "d' = d + (n + 1)" "d + (n + 1) < ?N" and lt: "lt = 1000000 - unat T mod 1000000"
      by (auto simp: kf_slot_def n len split: if_splits)
    define i where "i = (r + d') mod ?N"
    have empty: "ps ! d' = []" using kf_beyond [OF rep] dn by simp
    then have "node_fresh (k_nodes k ! i)"
      unfolding i_def using dn by (intro kf_fresh [OF rep]) simp_all
    note charge = node_time_charge_fresh [OF this _ T, of "word_of_int (int c)", unfolded e, OF c]
    have conf: "kfifo_wr_conflict k (int n + 1) = Inr 0"
      using free dn len by (auto simp: wr_conflict_eq [OF rep] nat_add_distrib)
    have fwd: "kfifo_write_forward (k\<lparr>k_lock := True\<rparr>) (int n + 1) (word_of_nat c) =
        Inr (0, charged k i (n_left_time (k_nodes k ! i) - word_of_int (int c)))"
      using write_forward_charge [OF rep dn(2), of "word_of_int (int c)"] dn(1)
      by (simp add: i_def add.commute)
    from kf_rep_store [OF rep _ _ skb room charge(1) [unfolded i_def] refl] dn
    obtain h' k3 where "kfifo_store skb T (pkt_len h skb) h
          (charged k i (n_left_time (k_nodes k ! i) - word_of_int (int c))) = Inr (h', k3)"
      and rep': "kf_rep h' (spin_unlock k3) r d' (ps[d' := ps ! d' @ [skb]])"
      and rest: "heap_frame h h' (ps ! d')" "k_rate k3 = k_rate k" "k_total_len k3 = k_total_len k"
        "length (k_nodes k3) = ?N" "n_left_time (k_nodes k3 ! i) = n_left_time (k_nodes k ! i) - word_of_int (int c)"
      by (auto simp: i_def)
    then have "kfifo_enqueue l2t (Some skb) h k = Inr (NET_XMIT_SUCCESS, h', spin_unlock k3)"
      using True nofull by (simp add: kfifo_enqueue_def Let_def T_def [symmetric] pw gt e conf lock fwd)
    moreover have "write_left (spin_unlock k3) = lt"
      using rest charge(2) lt kf_write_left [OF rep'] by (simp add: spin_unlock_def i_def)
    ultimately show ?thesis using rep' rest by (auto simp: spin_unlock_def)
  next
    case False
    with slot' free have dn: "d' = d" and lt: "lt = unat (n_left_time pw) - unat T"
      by (auto simp: kf_slot_def len split: if_splits)
    have conf: "kfifo_wr_conflict k 0 = Inr 0"
      using free d len by (auto simp: wr_conflict_eq [OF rep])
    define i where "i = (r + d) mod ?N"
    have pwi: "pw = k_nodes k ! i" by (simp add: pw_def i_def)
    have upd: "upd_node (k_pwrite (k\<lparr>k_lock := True\<rparr>)) (\<lambda>nd. nd\<lparr>n_left_time := n_left_time nd - T\<rparr>)
        (k\<lparr>k_lock := True\<rparr>) = charged k i (n_left_time (k_nodes k ! i) - T)"
      using kf_pwrite [OF rep] by (simp add: upd_node_def i_def)
    have tm: "node_time (k_nodes k ! i)" unfolding i_def using rep d by (rule kf_time)
    note charge = node_time_charge [OF tm _ T]
    from False have le: "unat T \<le> unat (n_left_time (k_nodes k ! i))" by (simp add: pwi)
    from kf_rep_store [OF rep order_refl d skb room charge(1) [OF le, unfolded i_def] refl]
    obtain h' k3 where "kfifo_store skb T (pkt_len h skb) h
          (charged k i (n_left_time (k_nodes k ! i) - T)) = Inr (h', k3)"
      and rep': "kf_rep h' (spin_unlock k3) r d (ps[d := ps ! d @ [skb]])"
      and rest: "heap_frame h h' (ps ! d)" "k_rate k3 = k_rate k" "k_total_len k3 = k_total_len k"
        "length (k_nodes k3) = ?N" "n_left_time (k_nodes k3 ! i) = n_left_time (k_nodes k ! i) - T"
      by (auto simp: i_def)
    then have "kfifo_enqueue l2t (Some skb) h k = Inr (NET_XMIT_SUCCESS, h', spin_unlock k3)"
      using False nofull
      by (simp add: kfifo_enqueue_def Let_def T_def [symmetric] pw gt conf lock upd [simplified])
    moreover have "write_left (spin_unlock k3) = lt"
      using rest charge(2) [OF le] lt kf_write_left [OF rep'] by (simp add: spin_unlock_def i_def pwi)
    ultimately show ?thesis using rep' rest dn by (auto simp: spin_unlock_def)
  qed
qed

section \<open>Moving the read pointer\<close>

lemma ring_pos_advance [ring_simps]:
  "((r + 1) mod N + j) mod N = (r + Suc j mod N) mod (N::nat)"
  by (simp add: mod_simps)

text \<open>The reader leaves a node that is empty and has nothing left to wait for.\<close>

lemma kf_rep_advance:
  fixes k :: "'r kfifo_queue_data"
  assumes rep: "kf_rep h k r d ps" and empty: "ps ! 0 = []" and fresh: "node_fresh (k_nodes k ! r)"
    and d: "0 < d"
  defines "k1 \<equiv> k\<lparr>k_pread := Some ((r + 1) mod length (k_nodes k))\<rparr>"
  shows "kf_rep h k1 ((r + 1) mod length (k_nodes k)) (d - 1) (rotate1 ps)"
    and "concat (rotate1 ps) = concat ps"
proof -
  let ?N = "length (k_nodes k)"
  note N = kf_N [OF rep] and len = kf_length [OF rep] and r = kf_r [OF rep]
  obtain qs where ps: "ps = [] # qs" using empty len N by (cases ps) auto
  show c: "concat (rotate1 ps) = concat ps" by (simp add: ps)
  have nth: "rotate1 ps ! j = ps ! (Suc j mod ?N)" if "j < ?N" for j
    using that len by (simp add: nth_rotate1)
  have r0: "(r + 0) mod ?N = r" using r by simp
  show "kf_rep h k1 ((r + 1) mod ?N) (d - 1) (rotate1 ps)"
    unfolding kf_rep_def Let_def
  proof (intro conjI allI impI ballI)
    fix j assume "j < length (k_nodes k1)"
    then have j: "j < ?N" by (simp add: k1_def)
    have j': "Suc j mod ?N < ?N" using j by (intro mod_less_divisor) linarith
    show "node_rep h (k_nodes k1 ! (((r + 1) mod ?N + j) mod length (k_nodes k1))) (rotate1 ps ! j)"
      and "node_time (k_nodes k1 ! (((r + 1) mod ?N + j) mod length (k_nodes k1)))"
      using kf_node [OF rep j'] kf_time [OF rep j'] nth [OF j]
      unfolding k1_def by (simp_all add: ring_pos_advance [simplified])
    show "node_fresh (k_nodes k1 ! (((r + 1) mod ?N + j) mod length (k_nodes k1)))"
      if "0 < j \<and> rotate1 ps ! j = []"
    proof (cases "Suc j mod ?N = 0")
      case True
      then show ?thesis using fresh r unfolding k1_def by (simp add: ring_pos_advance [simplified])
    next
      case False
      then show ?thesis using that nth [OF j] kf_fresh [OF rep j']
        unfolding k1_def by (simp add: ring_pos_advance [simplified])
    qed
    show "rotate1 ps ! j = []" if "d - 1 < j"
    proof (cases "Suc j < ?N")
      case True
      with that show ?thesis using nth [OF j] kf_beyond [OF rep True] d by simp
    next
      case False
      with j have "Suc j = ?N" by simp
      then show ?thesis using nth [OF j] empty by simp
    qed
  next
    show "k_pwrite k1 = Some (((r + 1) mod ?N + (d - 1)) mod length (k_nodes k1))"
    proof -
      have "((r + 1) mod ?N + (d - 1)) mod ?N = (r + d) mod ?N"
        using d kf_d [OF rep] by (subst ring_pos_advance) simp
      then show ?thesis using kf_pwrite [OF rep] by (simp add: k1_def)
    qed
  qed (use rep c N len kf_cap32 [OF rep] kf_d [OF rep] kf_linked [OF rep] kf_unlocked [OF rep]
      kf_distinct [OF rep] kf_pos [OF rep] kf_bytes [OF rep] kf_cap [OF rep]
      in \<open>simp_all add: k1_def ring_pos_lt [of ?N r 1, simplified]\<close>)
qed

lemma read_forward_loop_rep:
  assumes "kf_rep h k r d ps" and "0 < d" and "ps ! 0 = [] \<longrightarrow> node_fresh (k_nodes k ! r)"
  shows "\<exists>v r' d' ps'. read_forward_loop k = Some (Inr (v, k\<lparr>k_pread := Some r'\<rparr>)) \<and>
    kf_rep h (k\<lparr>k_pread := Some r'\<rparr>) r' d' ps' \<and> concat ps' = concat ps \<and>
    (v = 1 \<and> ps' ! 0 \<noteq> [] \<or> v = 0 \<and> concat ps = [])"
  using assms
proof (induction d arbitrary: k r ps)
  case (Suc d)
  note rep = Suc.prems(1)
  let ?N = "length (k_nodes k)"
  let ?r = "(r + 1) mod ?N"
  let ?k = "k\<lparr>k_pread := Some ?r\<rparr>"
  note pkt = kf_pkt_zero_pread [OF rep]
  show ?case
  proof (cases "ps ! 0 = []")
    case False
    have "k\<lparr>k_pread := Some r\<rparr> = k" using kf_pread [OF rep] by simp
    with False rep pkt show ?thesis
      by (intro exI [of _ 1] exI [of _ r] exI [of _ "Suc d"] exI [of _ ps])
        (simp add: read_forward_loop.simps [of k] deref_pread [OF rep])
  next
    case True
    with Suc.prems have fresh: "node_fresh (k_nodes k ! r)" by simp
    from kf_rep_advance [OF rep True fresh]
    have rep1: "kf_rep h ?k ?r d (rotate1 ps)" and c1: "concat (rotate1 ps) = concat ps" by simp_all
    have nxt: "n_next (k_nodes k ! r) = Some ?r"
      using next_pos [OF rep, of 0] kf_r [OF rep] by simp
    have meet: "k_pread ?k = k_pwrite ?k \<longleftrightarrow> d = 0"
      using kf_pwrite [OF rep1] ring_pos_zero [OF kf_r [OF rep1] kf_d [OF rep1]]
      by simp metis
    have step: "read_forward_loop k =
        (if d = 0
         then (if n_pkt (k_nodes ?k ! ?r) = 0 then Some (Inr (0, ?k)) else Some (Inr (1, ?k)))
         else read_forward_loop ?k)"
      using True pkt meet deref_pread [OF rep1]
      by (simp add: read_forward_loop.simps [of k] deref_pread [OF rep] nxt Let_def)
    show ?thesis
    proof (cases "d = 0")
      case True
      have z: "n_pkt (k_nodes ?k ! ?r) = 0 \<longleftrightarrow> rotate1 ps ! 0 = []"
        by (rule kf_pkt_zero_pread [OF rep1])
      have "concat (rotate1 ps) = []" if "rotate1 ps ! 0 = []"
        using that kf_beyond [OF rep1] kf_length [OF rep1] True
        by (auto simp: in_set_conv_nth simp del: set_rotate1) (metis gr0I)
      with z rep1 c1 True show ?thesis unfolding step
        by (intro exI [of _ "if rotate1 ps ! 0 = [] then 0 else 1"] exI [of _ ?r] exI [of _ d]
            exI [of _ "rotate1 ps"]) simp
    next
      case False
      have "rotate1 ps ! 0 = [] \<longrightarrow> node_fresh (k_nodes ?k ! ?r)"
      proof -
        have "rotate1 ps ! 0 = ps ! 1"
          using kf_N [OF rep] kf_length [OF rep] by (subst nth_rotate1) auto
        then show ?thesis using kf_fresh [OF rep, of 1] kf_N [OF rep] by simp
      qed
      with Suc.IH [OF rep1 _ this] False obtain v r' d' ps' where
        "read_forward_loop ?k = Some (Inr (v, ?k\<lparr>k_pread := Some r'\<rparr>))"
        "kf_rep h (?k\<lparr>k_pread := Some r'\<rparr>) r' d' ps'" "concat ps' = concat (rotate1 ps)"
        "v = 1 \<and> ps' ! 0 \<noteq> [] \<or> v = 0 \<and> concat (rotate1 ps) = []"
        by blast
      with False c1 show ?thesis unfolding step
        by (intro exI [of _ v] exI [of _ r'] exI [of _ d'] exI [of _ ps']) simp
    qed
  qed
qed simp

section \<open>Dequeue\<close>

text \<open>The node at the read pointer is replaced by one that holds a tail of its packets.\<close>

lemma kf_rep_replace_head:
  fixes k :: "'r kfifo_queue_data"
  assumes rep: "kf_rep h k r d ps" and ps: "ps ! 0 = zs @ ys"
    and link: "n_next nd = n_next (k_nodes k ! r)" "n_prev nd = n_prev (k_nodes k ! r)"
    and nd: "node_rep h nd ys" "node_time nd"
    and v: "unat v = held_bytes h (concat (ps[0 := ys]))"
  shows "kf_rep h (k\<lparr>k_nodes := (k_nodes k)[r := nd], k_slen := v\<rparr>) r d (ps[0 := ys])"
    and "concat ps = zs @ concat (ps[0 := ys])"
proof -
  let ?N = "length (k_nodes k)"
  note N = kf_N [OF rep] and len = kf_length [OF rep] and r = kf_r [OF rep]
  obtain qs where c: "ps = (zs @ ys) # qs" using ps len N by (cases ps) auto
  show app: "concat ps = zs @ concat (ps[0 := ys])" by (simp add: c)
  have pos: "(r + j) mod ?N = r \<longleftrightarrow> j = 0" if "j < ?N" for j
    using r that by (rule ring_pos_zero)
  have le: "unat v \<le> unat (k_total_len k)"
    using v kf_bytes [OF rep] kf_cap [OF rep] app by simp
  have sub: "distinct (concat (ps[0 := ys]))" "set (concat (ps[0 := ys])) \<subseteq> set (concat ps)"
    using kf_distinct [OF rep] by (simp_all add: app del: concat.simps)
  show "kf_rep h (k\<lparr>k_nodes := (k_nodes k)[r := nd], k_slen := v\<rparr>) r d (ps[0 := ys])"
    unfolding kf_rep_def Let_def
  proof (intro conjI allI impI ballI)
    show "ring_linked (k_nodes (k\<lparr>k_nodes := (k_nodes k)[r := nd], k_slen := v\<rparr>))"
      using kf_linked [OF rep] r link by (simp add: ring_linked_update)
    fix j assume "j < length (k_nodes (k\<lparr>k_nodes := (k_nodes k)[r := nd], k_slen := v\<rparr>))"
    then have j: "j < ?N" by simp
    show "node_rep h (k_nodes (k\<lparr>k_nodes := (k_nodes k)[r := nd], k_slen := v\<rparr>) ! ((r + j) mod
            length (k_nodes (k\<lparr>k_nodes := (k_nodes k)[r := nd], k_slen := v\<rparr>)))) (ps[0 := ys] ! j)"
      and "node_time (k_nodes (k\<lparr>k_nodes := (k_nodes k)[r := nd], k_slen := v\<rparr>) ! ((r + j) mod
            length (k_nodes (k\<lparr>k_nodes := (k_nodes k)[r := nd], k_slen := v\<rparr>))))"
      using nd kf_node [OF rep j] kf_time [OF rep j] j r pos [OF j] len
      by (cases "j = 0"; simp)+
    show "node_fresh (k_nodes (k\<lparr>k_nodes := (k_nodes k)[r := nd], k_slen := v\<rparr>) ! ((r + j) mod
            length (k_nodes (k\<lparr>k_nodes := (k_nodes k)[r := nd], k_slen := v\<rparr>))))"
      if "0 < j \<and> ps[0 := ys] ! j = []"
      using that kf_fresh [OF rep j] pos [OF j] by auto
    show "ps[0 := ys] ! j = []" if "d < j"
      using that kf_beyond [OF rep j] by simp
  next
    fix s assume "s \<in> set (concat (ps[0 := ys]))"
    with sub(2) show "pkt_len h s \<noteq> 0" using kf_pos [OF rep] by blast
  qed (use rep le v sub(1) len r kf_cap32 [OF rep] kf_d [OF rep] kf_unlocked [OF rep] kf_pread [OF rep]
      kf_pwrite [OF rep] in simp_all)
qed

lemma unlock_id:
  "\<not> k_lock k \<Longrightarrow> k\<lparr>k_nodes := ns, k_slen := v, k_lock := False\<rparr> = k\<lparr>k_nodes := ns, k_slen := v\<rparr>"
  by (cases k) simp

lemma kfifo_take_rep:
  fixes k :: "'r kfifo_queue_data"
  assumes rep: "kf_rep h k r d ps" and ps: "ps ! 0 = s # xs"
  shows "\<exists>k'. kfifo_take h k = Inr (Some s, k') \<and> kf_rep h k' r d (ps[0 := xs]) \<and>
    concat ps = s # concat (ps[0 := xs]) \<and> k_rate k' = k_rate k \<and> k_total_len k' = k_total_len k"
proof -
  note N = kf_N [OF rep] and len = kf_length [OF rep] and r = kf_r [OF rep]
  define nd where "nd = k_nodes k ! r"
  have "0 < length (k_nodes k)" using N by linarith
  from kf_node [OF rep this] kf_time [OF rep this]
  have nd: "node_rep h nd (s # xs)" and tm: "node_time nd" by (simp_all add: nd_def r ps)
  then have "kunit_rep h (n_kunit nd) (s # xs)" by (simp add: node_rep_def)
  from kunit_rep_dequeue_Cons [OF this] obtain ku where
    ku: "kunit_dequeue_head (n_kunit nd) h = (Some s, ku)" "kunit_rep h ku xs" by blast
  define nd' where "nd' = nd\<lparr>n_kunit := ku, n_pkt := n_pkt nd - 1, n_slen := n_slen nd - pkt_len h s\<rparr>"
  define v where "v = k_slen k - ucast (pkt_len h s)"
  have nd': "node_rep h nd' xs" "node_time nd'"
    using nd tm ku(2) by (simp_all add: nd'_def node_rep_def node_time_def)
  obtain qs where c: "ps = (s # xs) # qs" using ps len N by (cases ps) auto
  have b: "unat (k_slen k) = unat (pkt_len h s) + held_bytes h (concat (ps[0 := xs]))"
    using kf_bytes [OF rep] by (simp add: c)
  have v: "unat v = held_bytes h (concat (ps[0 := xs]))"
    unfolding v_def using b by (subst unat_minus_le) simp_all
  note rep' = kf_rep_replace_head [OF rep, of "[s]" xs nd' v, simplified]
  have "kfifo_take h k = Inr (Some s, k\<lparr>k_nodes := (k_nodes k)[r := nd'], k_slen := v\<rparr>)"
    using r kf_pread [OF rep] kf_unlocked [OF rep]
    by (simp add: kfifo_take_def deref_def nd_def [symmetric] ku upd_node_def spin_lock_def
        spin_unlock_def nd'_def v_def Let_def unlock_id)
  moreover from rep' ps nd' v have "kf_rep h (k\<lparr>k_nodes := (k_nodes k)[r := nd'], k_slen := v\<rparr>) r d (ps[0 := xs])"
    by (simp add: nd'_def nd_def)
  ultimately show ?thesis by (simp add: c)
qed

text \<open>The reader waits: its node is empty and has time left to sleep.\<close>

definition waiting :: "'r kfifo_queue_data \<Rightarrow> nat \<Rightarrow> skb list list \<Rightarrow> bool" where
  "waiting k r ps \<longleftrightarrow> ps ! 0 = [] \<and> n_sleep_time (k_nodes k ! r) \<noteq> 0"

lemma kfifo_dequeue_rep:
  fixes k :: "'r kfifo_queue_data"
  assumes rep: "kf_rep h k r d ps"
  shows "\<exists>res k' r' d' ps'. kfifo_dequeue h k = Inr (res, k') \<and> kf_rep h k' r' d' ps' \<and>
    k_rate k' = k_rate k \<and> k_total_len k' = k_total_len k \<and>
    (if waiting k r ps \<or> concat ps = [] then res = None \<and> concat ps' = concat ps
     else res = Some (hd (concat ps)) \<and> concat ps' = tl (concat ps))"
proof -
  note pkt = kf_pkt_zero_pread [OF rep] and N = kf_N [OF rep] and len = kf_length [OF rep]
  have take_ok: "\<exists>k' ps'. kfifo_take h k1 = Inr (Some (hd (concat ps)), k') \<and> kf_rep h k' r1 d1 ps' \<and>
      concat ps' = tl (concat ps) \<and> k_rate k' = k_rate k1 \<and> k_total_len k' = k_total_len k1"
    if "kf_rep h k1 r1 d1 ps1" "ps1 ! 0 \<noteq> []" "concat ps1 = concat ps" for k1 :: "'r kfifo_queue_data" and r1 d1 ps1
  proof -
    from that(2) obtain s xs where sx: "ps1 ! 0 = s # xs" by (cases "ps1 ! 0") auto
    from kfifo_take_rep [OF that(1) sx] that(3) show ?thesis by auto
  qed
  show ?thesis
  proof (cases "ps ! 0 = []")
    case False
    then have "concat ps \<noteq> []" using len N by (cases ps) auto
    with False take_ok [OF rep False refl] show ?thesis
      using pkt by (fastforce simp: kfifo_dequeue_def deref_pread [OF rep] waiting_def)
  next
    case empty: True
    show ?thesis
    proof (cases "n_sleep_time (k_nodes k ! r) = 0")
      case False
      with empty pkt rep show ?thesis
        by (auto simp: kfifo_dequeue_def deref_pread [OF rep] waiting_def word_neq_0_conv)
    next
      case True
      have "0 < length (k_nodes k)" using N by linarith
      from kf_time [OF rep this] True have fresh: "node_fresh (k_nodes k ! r)"
        using kf_r [OF rep] by (auto simp: node_time_def node_fresh_def intro: word_unat_eq_iff [THEN iffD2])
      have deq: "kfifo_dequeue h k = bindE (kfifo_read_forward k)
          (\<lambda>(v, k1). if v \<noteq> 1 then Inr (None, k1) else kfifo_take h k1)"
        using empty pkt True by (simp add: kfifo_dequeue_def deref_pread [OF rep])
      have nw: "\<not> waiting k r ps" using True by (simp add: waiting_def)
      show ?thesis
      proof (cases "d = 0")
        case True
        then have "concat ps = []"
          using empty kf_beyond [OF rep] len by (auto simp: in_set_conv_nth) (metis gr0I)
        moreover have "kfifo_read_forward k = Inr (0, k)"
          using True kf_r [OF rep] by (simp add: kfifo_read_forward_def kf_pread [OF rep] kf_pwrite [OF rep])
        ultimately show ?thesis using rep deq by auto
      next
        case False
        then have ne: "k_pread k \<noteq> k_pwrite k"
          using kf_r [OF rep] kf_d [OF rep] ring_pos_zero [of r "length (k_nodes k)" d]
          by (simp add: kf_pread [OF rep] kf_pwrite [OF rep])
        from read_forward_loop_rep [OF rep] fresh False obtain v r' d' ps' where
          loop: "read_forward_loop k = Some (Inr (v, k\<lparr>k_pread := Some r'\<rparr>))"
          and rep': "kf_rep h (k\<lparr>k_pread := Some r'\<rparr>) r' d' ps'" and c: "concat ps' = concat ps"
          and v: "v = 1 \<and> ps' ! 0 \<noteq> [] \<or> v = 0 \<and> concat ps = []" by blast
        have deq': "kfifo_dequeue h k = (if v \<noteq> 1 then Inr (None, k\<lparr>k_pread := Some r'\<rparr>)
            else kfifo_take h (k\<lparr>k_pread := Some r'\<rparr>))"
          unfolding deq using ne loop by (simp add: kfifo_read_forward_def)
        show ?thesis
        proof (cases "v = 1")
          case False
          with v rep' c deq' show ?thesis by auto
        next
          case True
          with v have ne': "ps' ! 0 \<noteq> []" by simp
          then have "concat ps' \<noteq> []"
            using kf_length [OF rep'] kf_N [OF rep'] by (cases ps') auto
          then have "concat ps \<noteq> []" unfolding c .
          with True take_ok [OF rep' ne' c] deq' nw show ?thesis by fastforce
        qed
      qed
    qed
  qed
qed

end
