(* ===== verification/Kfifo_Props.thy ===== *)
theory Kfifo_Props
  imports Kfifo_Ring
begin

text \<open>
  The contract of the timed ring. \<open>kf_holds h k xs\<close> hides the pointers: the ring \<open>k\<close> holds the
  packets \<open>xs\<close>, oldest first. \<open>kfifo_init\<close> makes a ring that holds nothing, \<open>kfifo_enqueue\<close>
  appends or leaves everything as it was, \<open>kfifo_dequeue\<close> removes the oldest packet,
  \<open>kfifo_finish_node\<close> gives the reader's node its time back. The ring is an instance of the
  interface \<open>fifo\<close>. The theorems on what the code does against its intention (a stale link on
  the packet handed out, the size computed in 32 bits, the byte count a new ring inherits) are
  at the end.
\<close>

section \<open>Initialisation\<close>

text \<open>\<open>kmalloc\<close> returns a block of the requested number of nodes, or fails.\<close>

definition kmalloc_ok :: "(nat \<Rightarrow> knode list option) \<Rightarrow> bool" where
  "kmalloc_ok mem \<longleftrightarrow> (\<forall>n b. mem n = Some b \<longrightarrow> length b = n)"

lemma link_fold:
  fixes ns :: "knode list"
  assumes "m \<le> length ns"
  shows "length (fold link_step [1 ..< m] ns) = length ns \<and>
    (\<forall>i < length ns. fold link_step [1 ..< m] ns ! i =
      (if 1 \<le> i \<and> i < m then (ns ! i)\<lparr>n_prev := Some (i - 1), n_next := Some (i + 1)\<rparr> else ns ! i))"
  using assms
proof (induction m)
  case (Suc m)
  show ?case
  proof (cases "1 \<le> m")
    case True
    with Suc show ?thesis by (auto simp: link_step_def nth_list_update less_Suc_eq)
  next
    case False
    then show ?thesis by auto
  qed
qed simp

lemma link_nodes_nth:
  assumes "2 \<le> n" and "length ns = n"
  shows "length (link_nodes n ns) = n"
    and "i < n \<Longrightarrow> link_nodes n ns ! i =
      (ns ! i)\<lparr>n_prev := Some ((i + n - 1) mod n), n_next := Some (Suc i mod n)\<rparr>"
proof -
  define f where "f = fold link_step [1 ..< n - 1] ns"
  have f: "length f = n" "\<And>i. i < n \<Longrightarrow> f ! i =
      (if 1 \<le> i \<and> i < n - 1 then (ns ! i)\<lparr>n_prev := Some (i - 1), n_next := Some (i + 1)\<rparr> else ns ! i)"
    using link_fold [of "n - 1" ns] assms by (simp_all add: f_def)
  show "length (link_nodes n ns) = n" using f by (simp add: link_nodes_def f_def Let_def)
  assume i: "i < n"
  have mid: "(i + n - 1) mod n = i - 1" if "1 \<le> i"
    using that i by (subst mod_if) (simp add: mod_if)
  consider "i = 0" | "i = n - 1" "i \<noteq> 0" | "1 \<le> i" "i < n - 1" using i by linarith
  then show "link_nodes n ns ! i =
      (ns ! i)\<lparr>n_prev := Some ((i + n - 1) mod n), n_next := Some (Suc i mod n)\<rparr>"
    using i assms f mid
    unfolding link_nodes_def f_def [symmetric] Let_def
    by cases (simp_all add: nth_list_update numeral_2_eq_2)
qed

lemma init_ring_linked:
  assumes "2 \<le> n" and "length ns = n"
  shows "ring_linked (link_nodes n ns)"
  using assms link_nodes_nth [OF assms] by (simp add: ring_linked_def)

lemma kfifo_init_rep:
  fixes k :: "'r kfifo_queue_data" and rate :: u32
  assumes "kmalloc_ok mem" and "mem (unat time) = Some block" and "2 \<le> unat time" and "k_slen k = 0"
  defines "k' \<equiv> snd (kfifo_init mem k time rate)"
  shows "kfifo_init mem k time rate = (0, k')"
    and "kf_rep h k' 0 0 (replicate (unat time) [])"
    and "k_rate k' = k_rate k" and "k_total_len k' = ucast (time * rate div 1000)"
    and "write_left k' = 1000000"
proof -
  let ?n = "unat time"
  define ns where "ns = map (init_node rate) block"
  have ns: "length ns = ?n" using assms(1,2) by (auto simp: ns_def kmalloc_ok_def)
  note link = link_nodes_nth [OF assms(3) ns]
  have k': "kfifo_init mem k time rate = (0, k\<lparr>k_nodes := link_nodes ?n ns, k_pread := Some 0,
      k_pwrite := Some 0, k_pbase := Some 0, k_total_len := ucast (time * rate div 1000),
      k_total_time := time, k_lock := False\<rparr>)"
    using assms(2,3) by (simp add: kfifo_init_def ns_def)
  then show "kfifo_init mem k time rate = (0, k')" by (simp add: k'_def)
  show "k_rate k' = k_rate k" and "k_total_len k' = ucast (time * rate div 1000)"
    by (simp_all add: k'_def k')
  have nd: "link_nodes ?n ns ! j = (init_node rate (block ! j))
      \<lparr>n_prev := Some ((j + ?n - 1) mod ?n), n_next := Some (Suc j mod ?n)\<rparr>" if "j < ?n" for j
    using link(2) [OF that] ns that by (simp add: ns_def)
  have cap: "unat (ucast (time * rate div 1000) :: u64) < 2 ^ 32"
    using unsigned_less [of "time * rate div 1000"] by simp
  show "kf_rep h k' 0 0 (replicate ?n [])"
    using assms(3,4) nd link(1) init_ring_linked [OF assms(3) ns] cap
    by (simp add: kf_rep_def Let_def k'_def k' node_rep_def node_time_def node_fresh_def init_node_def
        held_bytes_def)
  show "write_left k' = 1000000"
    using assms(3) nd [of 0] by (simp add: write_left_def k'_def k' init_node_def)
qed

section \<open>The reader's node\<close>

text \<open>
  The test of \<open>tsf_dequeue\<close> (and of \<open>kfifo_dequeue\<close>) on the reader's node: no packet left, and
  time to sleep before the next node may be sent.
\<close>

definition reader_sleeps :: "'r kfifo_queue_data \<Rightarrow> bool" where
  "reader_sleeps k \<longleftrightarrow>
     (case deref k (k_pread k) of
        Inl _ \<Rightarrow> False
      | Inr nd \<Rightarrow> n_pkt nd = 0 \<and> n_sleep_time nd > 0)"

lemma reader_sleeps_iff:
  assumes "kf_rep h k r d ps"
  shows "reader_sleeps k \<longleftrightarrow> waiting k r ps"
  using kf_pkt_zero_pread [OF assms]
  by (simp add: reader_sleeps_def deref_pread [OF assms] waiting_def word_neq_0_conv)

lemma kfifo_finish_node_rep:
  fixes k :: "'r kfifo_queue_data"
  assumes rep: "kf_rep h k r d ps" and empty: "ps ! 0 = []"
  shows "\<exists>k'. kfifo_finish_node (k_pread k) k = Inr k' \<and> kf_rep h k' r d ps \<and>
    \<not> reader_sleeps k' \<and> k_pread k' = k_pread k \<and> k_pwrite k' = k_pwrite k \<and>
    k_slen k' = k_slen k \<and> k_rate k' = k_rate k \<and> k_total_len k' = k_total_len k"
proof -
  let ?nd = "reset_node (k_nodes k ! r)"
  let ?k = "k\<lparr>k_nodes := (k_nodes k)[r := ?nd], k_slen := k_slen k\<rparr>"
  have id: "ps[0 := []] = ps" using empty by (metis list_update_id)
  have nd: "node_rep h ?nd []" "node_time ?nd"
    by (simp_all add: reset_node_def node_rep_def node_time_def kunit_skb_head_init_def)
  have rep': "kf_rep h ?k r d ps"
    using kf_rep_replace_head(1) [OF rep, of "[]" "[]" ?nd "k_slen k", unfolded id] empty nd kf_bytes [OF rep]
    by (simp add: reset_node_def)
  moreover have "kfifo_finish_node (k_pread k) k = Inr ?k"
    using kf_pread [OF rep] kf_r [OF rep] by (simp add: kfifo_finish_node_def deref_def upd_node_def)
  moreover have "\<not> reader_sleeps ?k"
    unfolding reader_sleeps_iff [OF rep'] using kf_r [OF rep] by (simp add: waiting_def reset_node_def)
  ultimately show ?thesis by auto
qed

section \<open>The ring as a queue of packets\<close>

definition kf_holds :: "skb_heap \<Rightarrow> 'r kfifo_queue_data \<Rightarrow> skb list \<Rightarrow> bool" where
  "kf_holds h k xs \<longleftrightarrow> (\<exists>r d ps. kf_rep h k r d ps \<and> xs = concat ps)"

lemma kf_holdsI [intro]: "kf_rep h k r d ps \<Longrightarrow> concat ps = xs \<Longrightarrow> kf_holds h k xs"
  by (auto simp: kf_holds_def)

lemma kf_holds_facts:
  assumes "kf_holds h k xs"
  shows "distinct xs" and "unat (k_slen k) = held_bytes h xs"
    and "unat (k_slen k) \<le> unat (k_total_len k)" and "\<not> k_lock k"
  using assms kf_distinct kf_bytes kf_cap kf_unlocked unfolding kf_holds_def by blast+

lemma kf_rep_append:
  assumes "kf_rep h k r d ps" and "d \<le> d'" and "d' < length ps"
  shows "concat (ps[d' := ps ! d' @ [skb]]) = concat ps @ [skb]"
  using assms kf_beyond [OF assms(1)] kf_length [OF assms(1)] by (intro concat_update_last) auto

lemma kf_slot_bounds: "kf_slot N d busy left t = Some (d', lt) \<Longrightarrow> d < N \<Longrightarrow> d \<le> d' \<and> d' < N"
  by (auto simp: kf_slot_def split: if_splits)

lemma kfifo_enqueue_cases:
  assumes rep: "kf_rep h k r d ps" and ok: "kf_ok l2t h k (concat ps) skb"
  obtains (drop) "kfifo_enqueue l2t (Some skb) h k = Inr (NET_XMIT_DROP, h, k)"
      and "unat (k_total_len k) < unat (k_slen k) + unat (pkt_len h skb) \<or>
        kf_slot (length ps) d (ps ! 0 \<noteq> []) (write_left k) (unat (l2t (k_rate k) (pkt_len h skb))) = None"
  | (store) h' k' d' lt where
      "kfifo_enqueue l2t (Some skb) h k = Inr (NET_XMIT_SUCCESS, h', k')"
      and "kf_slot (length ps) d (ps ! 0 \<noteq> []) (write_left k) (unat (l2t (k_rate k) (pkt_len h skb))) = Some (d', lt)"
      and "kf_rep h' k' r d' (ps[d' := ps ! d' @ [skb]])"
      and "concat (ps[d' := ps ! d' @ [skb]]) = concat ps @ [skb]"
      and "heap_frame h h' (concat ps)" and "write_left k' = lt" and "k_rate k' = k_rate k"
      and "k_total_len k' = k_total_len k" and "length (k_nodes k') = length (k_nodes k)"
proof (cases "unat (k_total_len k) < unat (k_slen k) + unat (pkt_len h skb)")
  case True
  with kfifo_enqueue_full [OF rep True, of l2t] show ?thesis by (intro drop) auto
next
  case False
  then have room: "unat (k_slen k) + unat (pkt_len h skb) \<le> unat (k_total_len k)" by simp
  let ?slot = "kf_slot (length ps) d (ps ! 0 \<noteq> []) (write_left k) (unat (l2t (k_rate k) (pkt_len h skb)))"
  show ?thesis
  proof (cases ?slot)
    case None
    with kfifo_enqueue_refused [OF rep ok None] show ?thesis by (intro drop) auto
  next
    case (Some sl)
    then obtain d' lt where slot: "?slot = Some (d', lt)" by (cases sl) auto
    from kf_slot_bounds [OF slot] have b: "d \<le> d'" "d' < length ps"
      using kf_d [OF rep] kf_length [OF rep] by simp_all
    have sub: "heap_frame h h' (concat ps)" if "heap_frame h h' (ps ! d')" for h'
    proof -
      have "set (ps ! d') \<subseteq> set (concat ps)" using b(2) nth_mem by fastforce
      with that show ?thesis by (auto simp: heap_frame_def)
    qed
    from kfifo_enqueue_stored [OF rep ok room slot] kf_rep_append [OF rep b] show ?thesis
      using slot sub by (elim exE conjE) (rule store)
  qed
qed

section \<open>An instance of the interface\<close>

definition ring_holds :: "skb_heap \<times> 'r kfifo_queue_data \<Rightarrow> skb list \<Rightarrow> bool" where
  "ring_holds s xs \<longleftrightarrow> kf_holds (fst s) (snd s) xs"

definition ring_ok :: "('r \<Rightarrow> u32 \<Rightarrow> u64) \<Rightarrow> skb_heap \<times> 'r kfifo_queue_data \<Rightarrow> skb list \<Rightarrow> skb \<Rightarrow> bool" where
  "ring_ok l2t s xs skb \<longleftrightarrow> kf_ok l2t (fst s) (snd s) xs skb"

definition ring_put :: "('r \<Rightarrow> u32 \<Rightarrow> u64) \<Rightarrow> skb \<Rightarrow> skb_heap \<times> 'r kfifo_queue_data
    \<Rightarrow> (skb_heap \<times> 'r kfifo_queue_data) option" where
  "ring_put l2t skb s =
     (case kfifo_enqueue l2t (Some skb) (fst s) (snd s) of
        Inl _ \<Rightarrow> None
      | Inr (ret, h, k) \<Rightarrow> if ret = NET_XMIT_SUCCESS then Some (h, k) else None)"

definition ring_get :: "skb_heap \<times> 'r kfifo_queue_data \<Rightarrow> skb list \<times> skb_heap \<times> 'r kfifo_queue_data" where
  "ring_get s =
     (case kfifo_dequeue (fst s) (snd s) of
        Inl _ \<Rightarrow> ([], s)
      | Inr (res, k) \<Rightarrow> (case res of None \<Rightarrow> [] | Some skb \<Rightarrow> [skb], fst s, k))"

lemma NET_XMIT_neq [simp]: "NET_XMIT_DROP \<noteq> NET_XMIT_SUCCESS" "NET_XMIT_SUCCESS \<noteq> NET_XMIT_DROP"
  by (simp_all add: NET_XMIT_DROP_def NET_XMIT_SUCCESS_def)

interpretation ring: fifo ring_holds "\<lambda>skb. skb" "ring_ok l2t" "ring_put l2t" ring_get
  for l2t :: "'r \<Rightarrow> u32 \<Rightarrow> u64"
proof unfold_locales
  fix s s' :: "skb_heap \<times> 'r kfifo_queue_data" and xs x
  show "ring_holds s' (xs @ [x])"
    if holds: "ring_holds s xs" and ok: "ring_ok l2t s xs x" and put: "ring_put l2t x s = Some s'"
  proof -
    from holds obtain r d ps where rep: "kf_rep (fst s) (snd s) r d ps" and xs: "xs = concat ps"
      by (auto simp: ring_holds_def kf_holds_def)
    from rep ok [unfolded ring_ok_def xs] show ?thesis
      by (rule kfifo_enqueue_cases) (use put xs in \<open>auto simp: ring_put_def ring_holds_def\<close>)
  qed
  show "\<exists>us zs. xs = us @ zs \<and> ys = map (\<lambda>skb. skb) us \<and> ring_holds s' zs" if "ring_holds s xs" and "ring_get s = (ys, s')" for ys
  proof -
    from that(1) obtain r d ps where rep: "kf_rep (fst s) (snd s) r d ps" and xs: "xs = concat ps"
      by (auto simp: ring_holds_def kf_holds_def)
    from kfifo_dequeue_rep [OF rep] obtain res k' r' d' ps' where
      d: "kfifo_dequeue (fst s) (snd s) = Inr (res, k')" and rep': "kf_rep (fst s) k' r' d' ps'"
      and res: "if waiting (snd s) r ps \<or> concat ps = [] then res = None \<and> concat ps' = concat ps
        else res = Some (hd (concat ps)) \<and> concat ps' = tl (concat ps)" by blast
    from d that(2) have s': "s' = (fst s, k')" and ys: "ys = (case res of None \<Rightarrow> [] | Some skb \<Rightarrow> [skb])"
      by (auto simp: ring_get_def)
    have "xs = ys @ concat ps'" using res unfolding xs ys by (auto split: if_splits)
    moreover have "ring_holds s' (concat ps')" using rep' by (auto simp: ring_holds_def s')
    ultimately show ?thesis by simp
  qed
qed

section \<open>A burst of packets\<close>

definition airtime :: "('r \<Rightarrow> u32 \<Rightarrow> u64) \<Rightarrow> 'r \<Rightarrow> (skb \<Rightarrow> u32) \<Rightarrow> skb list \<Rightarrow> nat" where
  "airtime l2t rate len xs = sum_list (map (\<lambda>s. unat (l2t rate (len s))) xs)"

lemma airtime_simps [simp]:
  "airtime l2t rate len [] = 0"
  "airtime l2t rate len (x # xs) = unat (l2t rate (len x)) + airtime l2t rate len xs"
  by (simp_all add: airtime_def)

lemma kf_slot_pace:
  "kf_slot N d busy left t = Some (d', lt) \<Longrightarrow> t + d * 1000000 + lt \<le> d' * 1000000 + left"
  by (auto simp: kf_slot_def split: if_splits; use div_mult_mod_eq [of t 1000000] in linarith)

lemma burst_rep:
  fixes k :: "'r kfifo_queue_data"
  assumes "kf_rep h k r d ps"
    and "buf_run_ok (ring_ok l2t) (ring_put l2t) ring_get (map Put skbs) (h, k) (concat ps)"
    and "buf_run (ring_put l2t) ring_get (map Put skbs) (h, k) = (acc, outs, h', k')"
  shows "\<exists>d' ps'. kf_rep h' k' r d' ps' \<and> length (k_nodes k') = length (k_nodes k) \<and>
    airtime l2t (k_rate k) (pkt_len h) acc + d * 1000000 + write_left k' \<le> d' * 1000000 + write_left k"
  using assms
proof (induction skbs arbitrary: h k d ps acc)
  case Nil
  then show ?case by auto
next
  case (Cons skb skbs)
  note rep = Cons.prems(1)
  from Cons.prems(2) have ok: "kf_ok l2t h k (concat ps) skb" by (simp add: ring_ok_def)
  from rep ok show ?case
  proof (cases rule: kfifo_enqueue_cases)
    case drop
    with Cons.prems Cons.IH [OF rep] show ?thesis by (simp add: ring_put_def)
  next
    case (store h1 k1 d1 lt)
    have put: "ring_put l2t skb (h, k) = Some (h1, k1)" using store(1) by (simp add: ring_put_def)
    with Cons.prems(3) obtain acc1 where acc: "acc = skb # acc1"
      and run: "buf_run (ring_put l2t) ring_get (map Put skbs) (h1, k1) = (acc1, outs, h', k')"
      by (auto split: prod.splits)
    have "buf_run_ok (ring_ok l2t) (ring_put l2t) ring_get (map Put skbs) (h1, k1)
        (concat (ps[d1 := ps ! d1 @ [skb]]))"
      using Cons.prems(2) put unfolding store(4) by simp
    from Cons.IH [OF store(3) this run] obtain d' ps' where
      "kf_rep h' k' r d' ps'" "length (k_nodes k') = length (k_nodes k1)"
      and a: "airtime l2t (k_rate k1) (pkt_len h1) acc1 + d1 * 1000000 + write_left k' \<le>
        d' * 1000000 + write_left k1" by blast
    moreover have "pkt_len h1 = pkt_len h" using store(5) by (simp add: heap_frame_def)
    ultimately show ?thesis
      using kf_slot_pace [OF store(2)] store(6-) unfolding acc
      by (intro exI [of _ d'] exI [of _ ps']) simp
  qed
qed

lemma write_left_le: "kf_rep h k r d ps \<Longrightarrow> write_left k \<le> 1000000"
  using kf_time [of h k r d ps d] by (simp add: kf_write_left kf_d node_time_def)

section \<open>The reader's loop returns\<close>

text \<open>On any linked ring with both pointers inside it, whatever the nodes hold.\<close>

lemma read_forward_loop_returns:
  fixes k :: "'r kfifo_queue_data"
  assumes "ring_linked (k_nodes k)" and "r < length (k_nodes k)" and "e < length (k_nodes k)"
    and "k_pread k = Some r" and "k_pwrite k = Some ((r + Suc e) mod length (k_nodes k))"
  shows "\<exists>res. read_forward_loop k = Some (Inr res)"
  using assms
proof (induction e arbitrary: k r)
  case (0 k r)
  let ?N = "length (k_nodes k)"
  from 0 have "deref k (Some r) = Inr (k_nodes k ! r)" and "n_next (k_nodes k ! r) = Some (Suc r mod ?N)"
    by (simp_all add: deref_def ring_linked_def)
  moreover have "deref (k\<lparr>k_pread := Some (Suc r mod ?N)\<rparr>) (Some (Suc r mod ?N)) = Inr (k_nodes k ! (Suc r mod ?N))"
    using 0(2) by (simp add: deref_def mod_less_divisor [OF le_less_trans [OF le0]])
  ultimately show ?case
    using 0(4,5) by (simp add: read_forward_loop.simps [of k] Let_def)
next
  case (Suc e k r)
  let ?N = "length (k_nodes k)" and ?r = "Suc r mod length (k_nodes k)"
  let ?k = "k\<lparr>k_pread := Some ?r\<rparr>"
  from Suc.prems have d: "deref k (Some r) = Inr (k_nodes k ! r)" "n_next (k_nodes k ! r) = Some ?r"
    by (simp_all add: deref_def ring_linked_def)
  have r: "?r < ?N" using Suc.prems(2) by (intro mod_less_divisor) linarith
  have "(?r + Suc e) mod ?N = (r + Suc (Suc e)) mod ?N" by (subst mod_add_left_eq) simp
  then have "k_pwrite ?k = Some ((?r + Suc e) mod length (k_nodes ?k))"
    using Suc.prems(5) by simp
  with Suc.IH [of ?k ?r] Suc.prems r obtain res where "read_forward_loop ?k = Some (Inr res)"
    by auto
  moreover have "deref ?k (Some ?r) = Inr (k_nodes k ! ?r)" using r by (simp add: deref_def)
  ultimately show ?case
    using d Suc.prems(4)
    by (cases "k_pwrite k = Some ?r") (auto simp: read_forward_loop.simps [of k] Let_def)
qed

section \<open>A concrete ring\<close>

text \<open>
  Four nodes, a rate of one megabyte per second, and packets of 100 bytes that take 0.8 ms each:
  the inputs of the witnesses below.
\<close>

definition blank_node :: knode where
  "blank_node = \<lparr>n_last_time = 0, n_pkt = 0, n_left_time = 0, n_sleep_time = 0, n_prev = None,
     n_next = None, n_gain = 0, n_rate = 0, n_slen = 0, n_tlen = 0,
     n_kunit = \<lparr>ku_head = None, ku_tail = None\<rparr>\<rparr>"

definition blank_ring :: "unit kfifo_queue_data" where
  "blank_ring = \<lparr>k_total_time = 0, k_total_len = 0, k_pbase = None, k_pread = None, k_pwrite = None,
     k_gain = 0, k_slen = 0, k_stime = 0, k_mtu = 1500, k_rate = (), k_lock = False, k_nodes = []\<rparr>"

definition ex_mem :: "nat \<Rightarrow> knode list option" where
  "ex_mem n = Some (replicate n blank_node)"

definition ex_l2t :: "unit \<Rightarrow> u32 \<Rightarrow> u64" where
  "ex_l2t rate len = 8000 * ucast len"

definition ex_heap :: skb_heap where
  "ex_heap = \<lparr>nxt = (\<lambda>_. None), pkt_len = (\<lambda>_. 100), data_len = (\<lambda>_. 100)\<rparr>"

definition ex_ring :: "unit kfifo_queue_data" where
  "ex_ring = snd (kfifo_init ex_mem blank_ring 4 1000000)"

lemma ex_ring_eq:
  "ex_ring = blank_ring\<lparr>k_total_time := 4, k_total_len := 4000, k_pbase := Some 0, k_pread := Some 0,
     k_pwrite := Some 0,
     k_nodes := map (\<lambda>i. blank_node\<lparr>n_left_time := 1000000, n_rate := 1000000, n_gain := 1,
       n_tlen := 1000, n_prev := Some ((i + 3) mod 4), n_next := Some ((i + 1) mod 4)\<rparr>) [0, 1, 2, 3]\<rparr>"
  by code_simp

lemmas ring_exec = ex_ring_eq kfifo_enqueue_def ex_heap_def ex_l2t_def blank_ring_def blank_node_def
  deref_def kfifo_wr_conflict_def kfifo_write_forward_def spin_lock_def spin_unlock_def
  kfifo_store_def upd_node_def kunit_enqueue_tail_def set_nxt_def kfifo_dequeue_def
  kfifo_read_forward_def read_forward_loop.simps kfifo_take_def kunit_dequeue_head_def
  kfifo_finish_node_def reset_node_def kunit_skb_head_init_def Let_def

lemma ex_kmalloc: "kmalloc_ok ex_mem" "ex_mem (unat (4 :: u32)) = Some (replicate 4 blank_node)"
  by (simp_all add: kmalloc_ok_def ex_mem_def)

lemma replicate4: "replicate 4 x = [x, x, x, x]"
  by (simp add: numeral_eq_Suc)

lemma ex_ring_rep: "kf_rep h ex_ring 0 0 [[], [], [], []]" "write_left ex_ring = 1000000"
  using kfifo_init_rep(2,5) [OF ex_kmalloc, of blank_ring] unfolding ex_ring_def
  by (simp_all add: blank_ring_def replicate4)

lemma ex_ring_holds: "kf_holds h ex_ring []"
  using ex_ring_rep(1) by (rule kf_holdsI) simp

lemma ex_ok: "skb \<notin> set xs \<Longrightarrow> kf_ok ex_l2t ex_heap ex_ring xs skb"
  by (simp add: kf_ok_def ex_heap_def ex_l2t_def)

text \<open>The ring after packet 7 has been stored.\<close>

definition ex_ring7 :: "unit kfifo_queue_data" where
  "ex_ring7 = (case kfifo_enqueue ex_l2t (Some 7) ex_heap ex_ring of Inl _ \<Rightarrow> ex_ring | Inr (_, _, k) \<Rightarrow> k)"

lemma ex_enqueue7: "kfifo_enqueue ex_l2t (Some 7) ex_heap ex_ring = Inr (NET_XMIT_SUCCESS, ex_heap, ex_ring7)"
  unfolding ex_ring7_def by (simp add: ring_exec)

lemma ex_ring7_rep: "kf_rep ex_heap ex_ring7 0 0 [[7], [], [], []]"
proof -
  have slot: "kf_slot (length [[], [], [], [] :: skb list]) 0 ([[], [], [], [] :: skb list] ! 0 \<noteq> [])
      (write_left ex_ring) (unat (ex_l2t (k_rate ex_ring) (pkt_len ex_heap 7))) = Some (0, 200000)"
    by (simp add: ex_ring_rep(2) kf_slot_def ex_l2t_def ex_heap_def)
  have "unat (k_slen ex_ring) + unat (pkt_len ex_heap 7) \<le> unat (k_total_len ex_ring)"
    by (simp add: ex_ring_eq blank_ring_def ex_heap_def)
  from kfifo_enqueue_stored [OF ex_ring_rep(1) ex_ok this slot] ex_enqueue7 show ?thesis
    by simp
qed

lemma ex_ring7_holds: "kf_holds ex_heap ex_ring7 [7]"
  using ex_ring7_rep by (rule kf_holdsI) simp

section \<open>The contract of the ring\<close>

text \<open>
  C1. Enqueue refines appending to a queue. On a ring that holds \<open>xs\<close>, for a packet that is not
  in it, whose link is null and whose length is not zero, \<open>kfifo_enqueue\<close> never faults: either it
  succeeds, the ring then holds \<open>xs\<close> with the packet at the end, its byte count grows by exactly
  the packet's length and no link outside the ring's packets is written; or it returns
  \<open>NET_XMIT_DROP\<close> and neither the ring nor any packet has changed.
\<close>

theorem kfifo_enqueue_contract:
  assumes "kf_holds h k xs" and "kf_ok l2t h k xs skb"
  shows "(\<exists>h' k'. kfifo_enqueue l2t (Some skb) h k = Inr (NET_XMIT_SUCCESS, h', k') \<and>
      kf_holds h' k' (xs @ [skb]) \<and> heap_frame h h' xs \<and>
      unat (k_slen k') = unat (k_slen k) + unat (pkt_len h skb)) \<or>
    kfifo_enqueue l2t (Some skb) h k = Inr (NET_XMIT_DROP, h, k)"
proof -
  from assms(1) obtain r d ps where rep: "kf_rep h k r d ps" and xs: "xs = concat ps"
    by (auto simp: kf_holds_def)
  from rep assms(2) [unfolded xs] show ?thesis
  proof (cases rule: kfifo_enqueue_cases)
    case drop
    then show ?thesis by simp
  next
    case (store h' k' d' lt)
    then have holds: "kf_holds h' k' (xs @ [skb])" by (auto simp: xs)
    have "pkt_len h' = pkt_len h" using store(5) by (simp add: heap_frame_def)
    then have "unat (k_slen k') = unat (k_slen k) + unat (pkt_len h skb)"
      using kf_holds_facts(2) [OF holds] kf_holds_facts(2) [OF assms(1)] by (simp add: held_bytes_def)
    with store holds show ?thesis by (auto simp: xs)
  qed
qed

theorem kfifo_enqueue_contract_witness:
  "kf_holds ex_heap ex_ring [] \<and> (\<exists>h' k'.
     kfifo_enqueue ex_l2t (Some 7) ex_heap ex_ring = Inr (NET_XMIT_SUCCESS, h', k') \<and> kf_holds h' k' [7])"
  using kfifo_enqueue_contract [OF ex_ring_holds ex_ok, of 7] ex_enqueue7 ex_ring_holds by auto

lemma kfifo_takes_iff:
  assumes "kf_rep h k r d ps" and "kf_ok l2t h k (concat ps) skb"
  shows "(\<exists>h' k'. kfifo_enqueue l2t (Some skb) h k = Inr (NET_XMIT_SUCCESS, h', k')) \<longleftrightarrow>
    unat (k_slen k) + unat (pkt_len h skb) \<le> unat (k_total_len k) \<and>
    (let t = unat (l2t (k_rate k) (pkt_len h skb)) in
     \<not> (d = 0 \<and> ps ! 0 \<noteq> []) \<and>
     (t \<le> write_left k \<or> d + (t div 1000000 + 1) < length ps))"
proof (cases "unat (k_slen k) + unat (pkt_len h skb) \<le> unat (k_total_len k)")
  case False
  then show ?thesis using kfifo_enqueue_full [OF assms(1), of skb l2t] by simp
next
  case True
  let ?slot = "kf_slot (length ps) d (ps ! 0 \<noteq> []) (write_left k) (unat (l2t (k_rate k) (pkt_len h skb)))"
  have "(\<exists>h' k'. kfifo_enqueue l2t (Some skb) h k = Inr (NET_XMIT_SUCCESS, h', k')) \<longleftrightarrow> ?slot \<noteq> None"
    using kfifo_enqueue_refused [OF assms] kfifo_enqueue_stored [OF assms True]
    by (cases ?slot) fastforce+
  also have "?slot \<noteq> None \<longleftrightarrow> (let t = unat (l2t (k_rate k) (pkt_len h skb)) in
     \<not> (d = 0 \<and> ps ! 0 \<noteq> []) \<and> (t \<le> write_left k \<or> d + (t div 1000000 + 1) < length ps))"
    by (auto simp: kf_slot_def Let_def not_le)
  finally show ?thesis using True by simp
qed

text \<open>
  C10. When exactly a packet is refused. The ring takes the packet precisely when its bytes fit
  under \<open>total_len\<close> and there is a node for it: a packet whose air time fits into what the write
  node has left stays there; otherwise it goes \<open>1 + t div 1 ms\<close> nodes on, which must not meet the
  reader; and while reader and writer share a node that holds packets, nothing is taken.
\<close>

theorem kfifo_enqueue_accepts_iff:
  assumes "kf_rep h k r d ps" and "kf_ok l2t h k (concat ps) skb"
  shows "(\<exists>h' k'. kfifo_enqueue l2t (Some skb) h k = Inr (NET_XMIT_SUCCESS, h', k')) \<longleftrightarrow>
    unat (k_slen k) + unat (pkt_len h skb) \<le> unat (k_total_len k) \<and>
    (let t = unat (l2t (k_rate k) (pkt_len h skb)) in
     \<not> (d = 0 \<and> ps ! 0 \<noteq> []) \<and>
     (t \<le> write_left k \<or> d + (t div 1000000 + 1) < length ps))"
  by (rule kfifo_takes_iff [OF assms])

theorem kfifo_enqueue_accepts_iff_witness:
  "kf_rep ex_heap ex_ring 0 0 [[], [], [], []] \<and> kf_ok ex_l2t ex_heap ex_ring [] 9 \<and>
   (\<exists>h' k'. kfifo_enqueue ex_l2t (Some 9) ex_heap ex_ring = Inr (NET_XMIT_SUCCESS, h', k'))"
proof -
  have ok: "kf_ok ex_l2t ex_heap ex_ring (concat [[], [], [], []]) 9" by (rule ex_ok) simp
  with kfifo_enqueue_accepts_iff [OF ex_ring_rep(1) ok] ex_ring_rep show ?thesis
    by (simp add: Let_def ex_ring_eq blank_ring_def ex_heap_def ex_l2t_def)
qed

text \<open>
  C2. Dequeue refines removing the oldest packet. On a ring that holds \<open>xs\<close>, \<open>kfifo_dequeue\<close>
  never faults and its loop ends: it returns the oldest packet and leaves the rest in order, or
  returns nothing and leaves the contents as they were.
\<close>

theorem kfifo_dequeue_contract:
  assumes "kf_holds h k xs"
  shows "\<exists>res k'. kfifo_dequeue h k = Inr (res, k') \<and>
    (res = None \<and> kf_holds h k' xs \<or> (\<exists>x ys. xs = x # ys \<and> res = Some x \<and> kf_holds h k' ys))"
proof -
  from assms obtain r d ps where rep: "kf_rep h k r d ps" and xs: "xs = concat ps"
    by (auto simp: kf_holds_def)
  from kfifo_dequeue_rep [OF rep] show ?thesis
    unfolding xs by (cases "concat ps") (fastforce split: if_splits)+
qed

theorem kfifo_dequeue_contract_witness:
  "kf_holds ex_heap ex_ring7 [7] \<and> (\<exists>k'. kfifo_dequeue ex_heap ex_ring7 = Inr (Some 7, k') \<and> kf_holds ex_heap k' [])"
proof -
  have "fst (projr (kfifo_dequeue ex_heap ex_ring7)) = Some 7"
    unfolding ex_ring7_def by (simp add: ring_exec)
  then show ?thesis using kfifo_dequeue_contract [OF ex_ring7_holds] ex_ring7_holds by auto
qed

text \<open>
  Progress of the reader. A ring that holds packets gives out the oldest one at once, unless
  the reader's node is empty and still has time to sleep; and then \<open>kfifo_finish_node\<close> on the
  read pointer, which keeps the contents, ends the sleep, so that the next dequeue succeeds.
\<close>

theorem kfifo_dequeue_progress:
  assumes "kf_holds h k (x # xs)"
  shows "(\<not> reader_sleeps k \<longrightarrow> (\<exists>k'. kfifo_dequeue h k = Inr (Some x, k') \<and> kf_holds h k' xs)) \<and>
    (reader_sleeps k \<longrightarrow> kfifo_dequeue h k = Inr (None, k) \<and>
      (\<exists>k1 k2. kfifo_finish_node (k_pread k) k = Inr k1 \<and> kf_holds h k1 (x # xs) \<and>
        kfifo_dequeue h k1 = Inr (Some x, k2) \<and> kf_holds h k2 xs))"
proof -
  have go: "\<exists>k'. kfifo_dequeue h q = Inr (Some x, k') \<and> kf_holds h k' xs"
    if "kf_rep h q r d ps" "concat ps = x # xs" "\<not> reader_sleeps q" for q :: "'a kfifo_queue_data" and r d ps
    using kfifo_dequeue_rep [OF that(1)] that(2,3) reader_sleeps_iff [OF that(1)]
    by (auto simp: kf_holds_def)
  from assms obtain r d ps where rep: "kf_rep h k r d ps" and xs: "concat ps = x # xs"
    by (auto simp: kf_holds_def)
  show ?thesis
  proof (intro conjI impI)
    show "\<exists>k'. kfifo_dequeue h k = Inr (Some x, k') \<and> kf_holds h k' xs" if "\<not> reader_sleeps k"
      using rep xs that by (rule go)
  next
    assume sl: "reader_sleeps k"
    then show "kfifo_dequeue h k = Inr (None, k)"
      by (auto simp: reader_sleeps_def kfifo_dequeue_def split: sum.splits)
    from sl have "ps ! 0 = []" using reader_sleeps_iff [OF rep] by (simp add: waiting_def)
    from kfifo_finish_node_rep [OF rep this] obtain k1 where
      k1: "kfifo_finish_node (k_pread k) k = Inr k1" "kf_rep h k1 r d ps" "\<not> reader_sleeps k1" by blast
    with go [OF k1(2) xs k1(3)] xs show "\<exists>k1 k2. kfifo_finish_node (k_pread k) k = Inr k1 \<and>
        kf_holds h k1 (x # xs) \<and> kfifo_dequeue h k1 = Inr (Some x, k2) \<and> kf_holds h k2 xs"
      by blast
  qed
qed

theorem kfifo_dequeue_progress_witness:
  "kf_holds ex_heap ex_ring7 [7] \<and> \<not> reader_sleeps ex_ring7 \<and>
   (\<exists>k'. kfifo_dequeue ex_heap ex_ring7 = Inr (Some 7, k') \<and> kf_holds ex_heap k' [])"
proof -
  have ns: "\<not> reader_sleeps ex_ring7"
    using reader_sleeps_iff [OF ex_ring7_rep] by (simp add: waiting_def)
  with kfifo_dequeue_progress [OF ex_ring7_holds] ex_ring7_holds show ?thesis by blast
qed

text \<open>
  C3. Order over a whole run. For any sequence of enqueues and dequeues on a ring (enqueues that
  are refused and dequeues that return nothing included), the packets given out, followed by
  those still in the ring, are the packets it held at the start followed by those it accepted:
  nothing is lost, duplicated or reordered.
\<close>

theorem ring_run_in_order:
  assumes "kf_holds h k xs"
    and "buf_run_ok (ring_ok l2t) (ring_put l2t) ring_get ops (h, k) xs"
    and "buf_run (ring_put l2t) ring_get ops (h, k) = (acc, outs, h', k')"
  shows "\<exists>ys. xs @ acc = outs @ ys \<and> kf_holds h' k' ys"
  using ring.run_order [of "(h, k)" xs l2t ops acc outs "(h', k')"] assms by (simp add: ring_holds_def)

theorem ring_run_in_order_witness:
  "\<exists>h' k'. buf_run (ring_put ex_l2t) ring_get [Put 7, Get] (ex_heap, ex_ring) = ([7], [7], h', k') \<and>
     kf_holds h' k' []"
proof -
  have put: "ring_put ex_l2t 7 (ex_heap, ex_ring) = Some (ex_heap, ex_ring7)"
    by (simp add: ring_put_def ex_enqueue7)
  have get: "fst (ring_get (ex_heap, ex_ring7)) = [7]"
    unfolding ex_ring7_def by (simp add: ring_get_def ring_exec)
  obtain h' k' where run: "buf_run (ring_put ex_l2t) ring_get [Put 7, Get] (ex_heap, ex_ring) = ([7], [7], h', k')"
    using put get by (cases "ring_get (ex_heap, ex_ring7)") auto
  have ok: "buf_run_ok (ring_ok ex_l2t) (ring_put ex_l2t) ring_get [Put 7, Get] (ex_heap, ex_ring) []"
    using ex_ok [of 7 "[]"] by (simp add: put ring_ok_def split: prod.splits option.splits)
  from ring_run_in_order [OF ex_ring_holds ok run] run show ?thesis by auto
qed

text \<open>
  C19. A new ring is empty. With a block of the requested size, at least two milliseconds and a
  byte count of zero, \<open>kfifo_init\<close> returns 0, links the nodes into a circle in both directions,
  puts both pointers on the first node and gives every node a full millisecond.
\<close>

theorem kfifo_init_empty_ring:
  assumes "kmalloc_ok mem" and "mem (unat time) = Some block" and "2 \<le> unat time" and "k_slen k = 0"
  shows "fst (kfifo_init mem k time rate) = 0 \<and>
    kf_holds h (snd (kfifo_init mem k time rate)) [] \<and>
    ring_linked (k_nodes (snd (kfifo_init mem k time rate))) \<and>
    length (k_nodes (snd (kfifo_init mem k time rate))) = unat time \<and>
    (\<forall>nd \<in> set (k_nodes (snd (kfifo_init mem k time rate))).
       n_left_time nd = 1000000 \<and> n_sleep_time nd = 0 \<and> n_pkt nd = 0)"
proof -
  let ?k = "snd (kfifo_init mem k time rate)"
  note init = kfifo_init_rep [OF assms, where rate = rate]
  have len: "length (k_nodes ?k) = unat time" using kf_length [OF init(2)] by simp
  have "n_left_time nd = 1000000 \<and> n_sleep_time nd = 0 \<and> n_pkt nd = 0" if "nd \<in> set (k_nodes ?k)" for nd
  proof -
    from that obtain i where i: "i < unat time" "nd = k_nodes ?k ! i"
      unfolding in_set_conv_nth len by blast
    define ns where "ns = map (init_node rate) block"
    have ns: "length ns = unat time" using assms(1,2) by (auto simp: ns_def kmalloc_ok_def)
    have "k_nodes ?k = link_nodes (unat time) ns"
      using assms(2,3) by (simp add: kfifo_init_def ns_def)
    with link_nodes_nth(2) [OF assms(3) ns i(1)] i ns show ?thesis
      by (simp add: ns_def init_node_def)
  qed
  moreover have "kf_holds h ?k []" using init(2) by (rule kf_holdsI) simp
  moreover have "fst (kfifo_init mem k time rate) = 0" by (subst init(1)) simp
  ultimately show ?thesis using len kf_linked [OF init(2)] by blast
qed

theorem kfifo_init_empty_ring_witness:
  "fst (kfifo_init ex_mem blank_ring 4 1000000) = 0 \<and>
   kf_holds ex_heap (snd (kfifo_init ex_mem blank_ring 4 1000000)) []"
proof -
  have "2 \<le> unat (4 :: u32)" and "k_slen blank_ring = 0" by (simp_all add: blank_ring_def)
  from kfifo_init_empty_ring [OF ex_kmalloc this] show ?thesis by blast
qed

text \<open>
  C11. A burst cannot exceed the ring's time. However many packets arrive without a dequeue in
  between, the air times of those the ring accepts add up to at most one millisecond for each
  node: the ring never promises more than \<open>total_time\<close> milliseconds of sending.
\<close>

theorem kfifo_burst_bounded:
  assumes "kf_rep h k r d ps"
    and "buf_run_ok (ring_ok l2t) (ring_put l2t) ring_get (map Put skbs) (h, k) (concat ps)"
    and "buf_run (ring_put l2t) ring_get (map Put skbs) (h, k) = (acc, outs, h', k')"
  shows "airtime l2t (k_rate k) (pkt_len h) acc \<le> length (k_nodes k) * 1000000"
proof -
  from burst_rep [OF assms] obtain d' ps' where rep': "kf_rep h' k' r d' ps'"
    and len: "length (k_nodes k') = length (k_nodes k)"
    and a: "airtime l2t (k_rate k) (pkt_len h) acc + d * 1000000 + write_left k' \<le> d' * 1000000 + write_left k"
    by blast
  from kf_d [OF rep'] len have "Suc d' \<le> length (k_nodes k)" by simp
  then have "Suc d' * 1000000 \<le> length (k_nodes k) * 1000000" by (rule mult_le_mono1)
  with a write_left_le [OF assms(1)] show ?thesis by simp
qed

theorem kfifo_burst_bounded_witness:
  "\<exists>acc outs h' k'. buf_run (ring_put ex_l2t) ring_get (map Put [7]) (ex_heap, ex_ring) = (acc, outs, h', k') \<and>
     acc = [7] \<and> airtime ex_l2t (k_rate ex_ring) (pkt_len ex_heap) acc \<le> 4000000"
proof -
  have put: "ring_put ex_l2t 7 (ex_heap, ex_ring) = Some (ex_heap, ex_ring7)"
    by (simp add: ring_put_def ex_enqueue7)
  then have run: "buf_run (ring_put ex_l2t) ring_get (map Put [7]) (ex_heap, ex_ring) = ([7], [], ex_heap, ex_ring7)"
    by simp
  have ok: "buf_run_ok (ring_ok ex_l2t) (ring_put ex_l2t) ring_get (map Put [7]) (ex_heap, ex_ring)
      (concat [[], [], [], []])"
    using ex_ok [of 7 "[]"] put by (simp add: ring_ok_def)
  from kfifo_burst_bounded [OF ex_ring_rep(1) ok run] run show ?thesis by (simp add: ex_ring_eq)
qed

text \<open>
  C20. The reader's loop terminates. On any ring linked as \<open>kfifo_init\<close> links it, with both
  pointers inside the block, the \<open>while\<close> loop of \<open>kfifo_read_forward\<close> returns, whatever the
  nodes hold, and it never follows a null or wild pointer.
\<close>

theorem kfifo_read_forward_returns:
  assumes "ring_linked (k_nodes k)" and "k_pread k = Some r" and "r < length (k_nodes k)"
    and "k_pwrite k = Some w" and "w < length (k_nodes k)"
  shows "\<exists>v k'. kfifo_read_forward k = Inr (v, k') \<and> (v = 0 \<or> v = 1)"
proof -
  let ?N = "length (k_nodes k)"
  obtain e where e: "e < ?N" and "(r + Suc e) mod ?N = w"
  proof (cases "r < w")
    case True
    with assms(5) show ?thesis by (intro that [of "w - Suc r"]) simp_all
  next
    case False
    then have "r + Suc (w + ?N - Suc r) = w + ?N" using assms(3) by linarith
    then have "(r + Suc (w + ?N - Suc r)) mod ?N = w"
      unfolding \<open>r + Suc (w + ?N - Suc r) = w + ?N\<close> using assms(5) by simp
    moreover have "w + ?N - Suc r < ?N" using False assms(3) by linarith
    ultimately show ?thesis by (intro that)
  qed
  then obtain v k' where l: "read_forward_loop k = Some (Inr (v, k'))"
    using read_forward_loop_returns [OF assms(1,3) e assms(2)] assms(4) by force
  have "v = 0 \<or> v = 1"
    by (rule read_forward_loop.raw_induct
        [where P = "\<lambda>k res. \<forall>v k'. res = Inr (v, k') \<longrightarrow> v = 0 \<or> v = 1", OF _ l, rule_format])
      (auto simp: Let_def split: sum.splits if_splits)
  with l show ?thesis by (simp add: kfifo_read_forward_def)
qed

theorem kfifo_read_forward_returns_witness:
  "\<exists>v k'. kfifo_read_forward (ex_ring\<lparr>k_pwrite := Some 2\<rparr>) = Inr (v, k') \<and> (v = 0 \<or> v = 1)"
proof -
  have "ring_linked (k_nodes (ex_ring\<lparr>k_pwrite := Some 2\<rparr>))" and "k_pread (ex_ring\<lparr>k_pwrite := Some 2\<rparr>) = Some 0"
    and "length (k_nodes (ex_ring\<lparr>k_pwrite := Some 2\<rparr>)) = 4"
    using kf_linked [OF ex_ring_rep(1)] kf_pread [OF ex_ring_rep(1)] by (simp_all add: ex_ring_eq)
  then show ?thesis by (intro kfifo_read_forward_returns [where r = 0 and w = 2]) simp_all
qed

text \<open>
  The check before the move is enough. When \<open>kfifo_wr_conflict\<close> finds no conflict over
  \<open>step\<close> nodes, \<open>kfifo_write_forward\<close> over the same number of nodes returns 0 and moves the write
  pointer by exactly \<open>step\<close>: the branch of \<open>kfifo_enqueue\<close> that drops a packet with the pointer
  half moved is never taken.
\<close>

theorem kfifo_write_forward_after_check:
  assumes "kf_rep h k r d ps" and "kfifo_wr_conflict k step = Inr 0" and "0 \<le> step"
  shows "\<exists>k'. kfifo_write_forward (k\<lparr>k_lock := True\<rparr>) step cost = Inr (0, k') \<and>
    k_pwrite k' = Some ((r + (d + nat step)) mod length (k_nodes k)) \<and> d + nat step < length (k_nodes k)"
proof -
  from assms(2) wr_conflict_eq [OF assms(1), of step] kf_length [OF assms(1)]
  have n: "d + nat step < length (k_nodes k)" by (auto split: if_splits)
  with write_forward_charge [OF assms(1) n, of cost] assms(3) show ?thesis by simp
qed

theorem kfifo_write_forward_after_check_witness:
  "kfifo_wr_conflict ex_ring 2 = Inr 0 \<and>
   (\<exists>k'. kfifo_write_forward (ex_ring\<lparr>k_lock := True\<rparr>) 2 5 = Inr (0, k') \<and> k_pwrite k' = Some 2)"
proof -
  have c: "kfifo_wr_conflict ex_ring 2 = Inr 0"
    using wr_conflict_eq [OF ex_ring_rep(1), where step = 2] by simp
  have "length (k_nodes ex_ring) = 4" by (simp add: ex_ring_eq)
  with c kfifo_write_forward_after_check [OF ex_ring_rep(1) c, of 5] show ?thesis
    by (simp add: numeral_2_eq_2)
qed

section \<open>Where the code departs from its intention\<close>

text \<open>
  The packet handed out keeps its link. \<open>kunit_dequeue_head\<close> does not clear \<open>skb->next\<close>: when
  the node held more packets, the packet it returns still points to the packet that is now the
  head of the node's list (the kernel's own queues clear the link on dequeue, and its transmit
  path follows it).
\<close>

theorem kunit_dequeue_head_keeps_link:
  assumes "kunit_rep h kuh (x # y # zs)"
  shows "\<exists>kuh'. kunit_dequeue_head kuh h = (Some x, kuh') \<and> kunit_rep h kuh' (y # zs) \<and>
    nxt h x = Some y \<and> nxt h x = ku_head kuh'"
proof -
  from kunit_rep_dequeue_Cons [OF assms] obtain kuh' where
    d: "kunit_dequeue_head kuh h = (Some x, kuh')" "kunit_rep h kuh' (y # zs)" by blast
  with assms show ?thesis by (auto simp: kunit_rep_def)
qed

theorem kunit_dequeue_head_keeps_link_witness:
  "\<exists>kuh'. kunit_dequeue_head \<lparr>ku_head = Some 1, ku_tail = Some 2\<rparr>
      (ex_heap\<lparr>nxt := (\<lambda>_. None)(1 := Some 2)\<rparr>) = (Some 1, kuh') \<and> ku_head kuh' = Some 2"
proof -
  have "kunit_rep (ex_heap\<lparr>nxt := (\<lambda>_. None)(1 := Some 2)\<rparr>) \<lparr>ku_head = Some 1, ku_tail = Some 2\<rparr> [1, 2]"
    by (simp add: kunit_rep_def)
  from kunit_dequeue_head_keeps_link [OF this] show ?thesis by auto
qed

text \<open>
  A link left on a packet corrupts an empty list. \<open>kunit_enqueue_tail\<close> clears the new packet's
  link only when the list is not empty. A packet whose link is not null, put into an empty list,
  brings the packet its link names along: the next two dequeues return both.
\<close>

theorem kunit_enqueue_tail_stale_link:
  assumes "ku_tail kuh = None" and "nxt h skb = Some y" and "nxt h y = None"
    and "kunit_enqueue_tail skb kuh h = (kuh1, h1)"
  shows "\<exists>kuh2. kunit_dequeue_head kuh1 h1 = (Some skb, kuh2) \<and>
    fst (kunit_dequeue_head kuh2 h1) = Some y"
  using assms by (auto simp: kunit_enqueue_tail_def kunit_dequeue_head_def)

theorem kunit_enqueue_tail_stale_link_witness:
  "\<exists>kuh1 h1 kuh2. kunit_enqueue_tail 1 \<lparr>ku_head = None, ku_tail = None\<rparr>
      (ex_heap\<lparr>nxt := (\<lambda>_. None)(1 := Some 2)\<rparr>) = (kuh1, h1) \<and>
     kunit_dequeue_head kuh1 h1 = (Some 1, kuh2) \<and> fst (kunit_dequeue_head kuh2 h1) = Some 2"
  using kunit_enqueue_tail_stale_link [of "\<lparr>ku_head = None, ku_tail = None\<rparr>"
      "ex_heap\<lparr>nxt := (\<lambda>_. None)(1 := Some 2)\<rparr>" 1 2]
  by (simp add: kunit_enqueue_tail_def)

text \<open>
  The capacity is computed in 32 bits. \<open>total_len\<close> is \<open>time * rate / 1000\<close> with the product
  taken modulo \<open>2^32\<close>; it is the intended capacity only while \<open>time * rate\<close> stays below \<open>2^32\<close>.
  At one second and 100 Mbit/s it is 3,910,065 bytes instead of 12,500,000.
\<close>

theorem kfifo_init_total_len:
  assumes "mem (unat time) = Some block"
  shows "unat (k_total_len (snd (kfifo_init mem k time rate))) = (unat time * unat rate) mod 2 ^ 32 div 1000"
  using assms by (simp add: kfifo_init_def Let_def unat_div unat_word_ariths)

theorem kfifo_init_total_len_witness:
  "unat (k_total_len (snd (kfifo_init ex_mem blank_ring 1000 12500000))) = 3910065 \<and>
   (1000 * 12500000) div 1000 = (12500000 :: nat)"
  using kfifo_init_total_len [of ex_mem 1000 "replicate 1000 blank_node" blank_ring 12500000]
  by (simp add: ex_mem_def)

text \<open>
  A ring made over an old one inherits its byte count. \<open>kfifo_init\<close> does not clear \<open>slen\<close>:
  after a change of parameters the new nodes are all empty, yet every packet is refused whose
  length and the old count together exceed the new capacity.
\<close>

theorem kfifo_init_keeps_slen:
  assumes "kmalloc_ok mem" and "mem (unat time) = Some block" and "2 \<le> unat time"
    and "ucast (pkt_len h skb) + k_slen k > k_total_len (snd (kfifo_init mem k time rate))"
  shows "kfifo_enqueue l2t (Some skb) h (snd (kfifo_init mem k time rate)) =
      Inr (NET_XMIT_DROP, h, snd (kfifo_init mem k time rate)) \<and>
    (\<forall>nd \<in> set (k_nodes (snd (kfifo_init mem k time rate))). n_pkt nd = 0)"
proof
  let ?k = "snd (kfifo_init mem k time rate)"
  define ns where "ns = map (init_node rate) block"
  have ns: "length ns = unat time" using assms(1,2) by (auto simp: ns_def kmalloc_ok_def)
  have nodes: "k_nodes ?k = link_nodes (unat time) ns" and "k_slen ?k = k_slen k"
    using assms(2,3) by (simp_all add: kfifo_init_def ns_def)
  then show "kfifo_enqueue l2t (Some skb) h ?k = Inr (NET_XMIT_DROP, h, ?k)"
    using assms(4) by (simp add: kfifo_enqueue_def Let_def)
  show "\<forall>nd \<in> set (k_nodes ?k). n_pkt nd = 0"
    unfolding nodes using link_nodes_nth [OF assms(3) ns] ns
    by (auto simp: in_set_conv_nth ns_def init_node_def)
qed

theorem kfifo_init_keeps_slen_witness:
  "kfifo_enqueue ex_l2t (Some 9) ex_heap (snd (kfifo_init ex_mem (blank_ring\<lparr>k_slen := 3950\<rparr>) 4 1000000)) =
     Inr (NET_XMIT_DROP, ex_heap, snd (kfifo_init ex_mem (blank_ring\<lparr>k_slen := 3950\<rparr>) 4 1000000))"
proof -
  have "ucast (pkt_len ex_heap 9) + k_slen (blank_ring\<lparr>k_slen := 3950\<rparr>) >
      k_total_len (snd (kfifo_init ex_mem (blank_ring\<lparr>k_slen := 3950\<rparr>) 4 1000000))"
    by (simp add: kfifo_init_def ex_mem_def ex_heap_def)
  from kfifo_init_keeps_slen [OF ex_kmalloc _ this] show ?thesis by simp
qed

text \<open>
  A node shared by reader and writer takes one packet at a time. While both pointers are on
  the same node and it holds a packet, every further packet is refused, however much room the
  ring has; the comment on \<open>kfifo_enqueue\<close> says such a packet joins the node's queue.
\<close>

theorem kfifo_enqueue_shared_node_refuses:
  assumes "kf_holds h k xs" and "kf_ok l2t h k xs skb" and "k_pread k = k_pwrite k" and "xs \<noteq> []"
  shows "kfifo_enqueue l2t (Some skb) h k = Inr (NET_XMIT_DROP, h, k)"
proof -
  from assms(1) obtain r d ps where rep: "kf_rep h k r d ps" and xs: "xs = concat ps"
    by (auto simp: kf_holds_def)
  have "(r + d) mod length (k_nodes k) = r"
    using assms(3) by (simp add: kf_pread [OF rep] kf_pwrite [OF rep])
  then have d: "d = 0" using ring_pos_zero [OF kf_r [OF rep] kf_d [OF rep]] by blast
  have "ps ! 0 \<noteq> []"
  proof
    assume "ps ! 0 = []"
    then have "concat ps = []"
      using kf_beyond [OF rep] kf_length [OF rep] d by (auto simp: in_set_conv_nth) (metis gr0I)
    with assms(4) xs show False by simp
  qed
  with rep assms(2) [unfolded xs] d show ?thesis
    by (cases rule: kfifo_enqueue_cases) (auto simp: kf_slot_def)
qed

theorem kfifo_enqueue_shared_node_refuses_witness:
  "kf_holds ex_heap ex_ring7 [7] \<and> unat (k_slen ex_ring7) = 100 \<and> unat (k_total_len ex_ring7) = 4000 \<and>
   kfifo_enqueue ex_l2t (Some 8) ex_heap ex_ring7 = Inr (NET_XMIT_DROP, ex_heap, ex_ring7)"
proof -
  have ok: "kf_ok ex_l2t ex_heap ex_ring7 [7] 8" by (simp add: kf_ok_def ex_heap_def ex_l2t_def)
  have "k_pread ex_ring7 = k_pwrite ex_ring7" and len: "unat (k_slen ex_ring7) = 100" "unat (k_total_len ex_ring7) = 4000"
    unfolding ex_ring7_def by (simp_all add: ring_exec)
  from kfifo_enqueue_shared_node_refuses [OF ex_ring7_holds ok this(1)] len ex_ring7_holds show ?thesis by simp
qed

end
