(* ===== verification/Tsf.thy ===== *)
theory Tsf
  imports Kfifo_Props
begin

text \<open>
  The queueing discipline \<open>tsf\<close> (\<open>src/RateLimiter/sch_tsf.c\<close>, built with \<open>DEBUG\<close> defined as the
  file does): a token bucket in front of the timed ring.

  \<open>tsf_sched_data\<close> is the discipline's private data and \<open>sch_state\<close> what the operations see of
  the world: the packet heap, the private data, the counters of \<open>struct Qdisc\<close>, the static buffer
  \<open>dest\<close>, the packets to be freed, those consumed, the tree lock, how often the clock has been read, the
  arguments of the calls to \<open>qdisc_tree_reduce_backlog\<close>, and the queues that have been put.

  What the kernel provides is the record \<open>kernel\<close>, an argument of every operation: the length to
  time conversion, the clock (\<open>ktime n\<close> is the value of reading \<open>n\<close>), the operations of the two
  inner queues (type \<open>'q\<close>; \<open>q_peek\<close> takes the queue whose operations are called and the queue
  they are called on, which differ in \<open>tsf_dequeue\<close>), the packet headers, segmentation and
  address printing. Signed 64-bit fields are \<open>u64\<close> read with \<open>sint\<close>. The record \<open>control\<close> is what
  the operations that set the discipline up take from the kernel. Messages (\<open>printk\<close>) are left out.
\<close>

section \<open>State and kernel interface\<close>

record ('r, 'q) tsf_sched_data =
  t_ttime :: u64
  t_tlen :: u64
  t_tokens :: u64
  t_t_c :: u64
  t_kfifo :: "'r kfifo_queue_data"
  t_rate :: 'r
  t_max_size :: u32
  t_buffer :: u64
  t_limit :: u32
  t_qdisc :: 'q
  t_test_qdisc :: 'q
  t_watchdog :: "u64 option"

record ('r, 'q) sch_state =
  s_heap :: skb_heap
  s_priv :: "('r, 'q) tsf_sched_data"
  s_qlen :: u32
  s_backlog :: u32
  s_drops :: u32
  s_overlimits :: u32
  s_dest :: string
  s_to_free :: "skb list"
  s_consumed :: "skb list"
  s_tree_lock :: bool
  s_clock :: nat
  s_reduced :: "(int \<times> u32) list"
  s_put :: "'q list"

record ('r, 'q) kernel =
  l2t :: "'r \<Rightarrow> u32 \<Rightarrow> u64"
  ktime :: "nat \<Rightarrow> u64"
  q_peek :: "'q \<Rightarrow> 'q \<Rightarrow> skb option"
  q_enqueue :: "skb \<Rightarrow> skb_heap \<Rightarrow> 'q \<Rightarrow> int \<times> skb_heap \<times> 'q"
  q_dequeue_peeked :: "skb_heap \<Rightarrow> 'q \<Rightarrow> skb option \<times> skb_heap \<times> 'q"
  net_xmit_drop_count :: "int \<Rightarrow> bool"
  ip_daddr :: "skb \<Rightarrow> u32 option"
  ip_saddr :: "skb \<Rightarrow> u32 option"
  pI4 :: "u32 \<Rightarrow> string"
  skb_is_gso :: "skb \<Rightarrow> bool"
  skb_gso_validate_mac_len :: "skb \<Rightarrow> u32 \<Rightarrow> bool"
  skb_gso_segment :: "skb \<Rightarrow> skb_heap \<Rightarrow> skb option option \<times> skb_heap"

definition DEIP :: string where "DEIP = ''45.32.31.234''"

text \<open>\<open>snprintf\<close> into a buffer of 16 bytes keeps 15 characters.\<close>

definition snprintf16 :: "string \<Rightarrow> string" where
  "snprintf16 s = take 15 s"

section \<open>Small steps on the state\<close>

definition upd_priv :: "(('r, 'q) tsf_sched_data \<Rightarrow> ('r, 'q) tsf_sched_data)
    \<Rightarrow> ('r, 'q) sch_state \<Rightarrow> ('r, 'q) sch_state" where
  "upd_priv f s = s\<lparr>s_priv := f (s_priv s)\<rparr>"

text \<open>The three lines that follow a refused enqueue.\<close>

definition count_drop :: "('r, 'q) kernel \<Rightarrow> int \<Rightarrow> ('r, 'q) sch_state \<Rightarrow> ('r, 'q) sch_state" where
  "count_drop K ret s =
     (if net_xmit_drop_count K ret then s\<lparr>s_drops := s_drops s + 1\<rparr> else s)"

definition ktime_get_ns :: "('r, 'q) kernel \<Rightarrow> ('r, 'q) sch_state \<Rightarrow> u64 \<times> ('r, 'q) sch_state" where
  "ktime_get_ns K s = (ktime K (s_clock s), s\<lparr>s_clock := s_clock s + 1\<rparr>)"

definition qdisc_watchdog_schedule_ns :: "u64 \<Rightarrow> ('r, 'q) sch_state \<Rightarrow> ('r, 'q) sch_state" where
  "qdisc_watchdog_schedule_ns expires s = upd_priv (\<lambda>q. q\<lparr>t_watchdog := Some expires\<rparr>) s"

definition tsf_kfifo_enqueue :: "('r, 'q) kernel \<Rightarrow> skb option \<Rightarrow> ('r, 'q) sch_state
    \<Rightarrow> fault + int \<times> ('r, 'q) sch_state" where
  "tsf_kfifo_enqueue K p s =
     bindE (kfifo_enqueue (l2t K) p (s_heap s) (t_kfifo (s_priv s))) (\<lambda>(ret, h, k).
       Inr (ret, upd_priv (\<lambda>q. q\<lparr>t_kfifo := k\<rparr>) (s\<lparr>s_heap := h\<rparr>)))"

definition tsf_inner_enqueue :: "('r, 'q) kernel \<Rightarrow> skb \<Rightarrow> ('r, 'q) sch_state
    \<Rightarrow> int \<times> ('r, 'q) sch_state" where
  "tsf_inner_enqueue K skb s =
     (case q_enqueue K skb (s_heap s) (t_qdisc (s_priv s)) of
        (ret, h, q') \<Rightarrow> (ret, upd_priv (\<lambda>q. q\<lparr>t_qdisc := q'\<rparr>) (s\<lparr>s_heap := h\<rparr>)))"

text \<open>
  The tokens at time \<open>now\<close>: \<open>tsf_enqueue\<close> takes the minimum of the elapsed time and the bucket
  depth as unsigned numbers, \<open>tsf_segment\<close> as signed ones.
\<close>

definition cap_tokens :: "u64 \<Rightarrow> u64 \<Rightarrow> u64" where
  "cap_tokens buffer toks = (if sint toks > sint buffer then buffer else toks)"

definition refill_u64 :: "('r, 'q) tsf_sched_data \<Rightarrow> u64 \<Rightarrow> u64" where
  "refill_u64 q now = cap_tokens (t_buffer q) (min (now - t_t_c q) (t_buffer q) + t_tokens q)"

definition refill_s64 :: "('r, 'q) tsf_sched_data \<Rightarrow> u64 \<Rightarrow> u64" where
  "refill_s64 q now = cap_tokens (t_buffer q)
     ((if sint (now - t_t_c q) < sint (t_buffer q) then now - t_t_c q else t_buffer q) + t_tokens q)"

definition set_tokens :: "u64 \<Rightarrow> u64 \<Rightarrow> ('r, 'q) sch_state \<Rightarrow> ('r, 'q) sch_state" where
  "set_tokens now toks s = upd_priv (\<lambda>q. q\<lparr>t_t_c := now, t_tokens := toks\<rparr>) s"

section \<open>Segmentation\<close>

text \<open>
  The loop of \<open>tsf_segment\<close> over the chain of segments: \<open>len\<close> and \<open>nb\<close> are its accumulators.
  \<open>None\<close> is a chain that never ends.
\<close>

definition segment_step :: "('r, 'q) kernel \<Rightarrow> skb \<Rightarrow> ('r, 'q) sch_state
    \<Rightarrow> fault + int \<times> ('r, 'q) sch_state" where
  "segment_step K seg s0 =
     (let h = set_nxt seg None (s_heap s0);
          s1 = s0\<lparr>s_heap := h\<lparr>pkt_len := (pkt_len h)(seg := data_len h seg)\<rparr>\<rparr>
      in case ktime_get_ns K s1 of (now, s2) \<Rightarrow>
         (let toks = refill_s64 (s_priv s2) now - l2t K (t_rate (s_priv s2)) (data_len h seg)
          in bindE (if sint toks \<ge> 0
                    then bindE (tsf_kfifo_enqueue K (Some seg) s2)
                           (\<lambda>(ret, s3). Inr (ret, set_tokens now toks s3))
                    else Inr (tsf_inner_enqueue K seg s2))
               (\<lambda>(ret, s3). Inr (ret, if ret \<noteq> NET_XMIT_SUCCESS then count_drop K ret s3 else s3))))"

partial_function (option) segment_loop ::
    "('r, 'q) kernel \<Rightarrow> skb option \<Rightarrow> u32 \<Rightarrow> int \<Rightarrow> ('r, 'q) sch_state
     \<Rightarrow> (fault + u32 \<times> int \<times> ('r, 'q) sch_state) option" where
  "segment_loop K segs len nb s =
     (case segs of
        None \<Rightarrow> Some (Inr (len, nb, s))
      | Some seg \<Rightarrow>
          (case segment_step K seg s of
             Inl e \<Rightarrow> Some (Inl e)
           | Inr (ret, s') \<Rightarrow>
               segment_loop K (nxt (s_heap s) seg) (len + data_len (s_heap s) seg)
                 (if ret = NET_XMIT_SUCCESS then nb + 1 else nb) s'))"

definition qdisc_drop :: "skb \<Rightarrow> ('r, 'q) sch_state \<Rightarrow> int \<times> ('r, 'q) sch_state" where
  "qdisc_drop skb s = (NET_XMIT_DROP, s\<lparr>s_to_free := skb # s_to_free s, s_drops := s_drops s + 1\<rparr>)"

definition tsf_segment :: "('r, 'q) kernel \<Rightarrow> skb \<Rightarrow> ('r, 'q) sch_state
    \<Rightarrow> fault + int \<times> ('r, 'q) sch_state" where
  "tsf_segment K skb s =
     (let prev_len = pkt_len (s_heap s) skb in
      case skb_gso_segment K skb (s_heap s) of
        (None, h) \<Rightarrow> Inr (qdisc_drop skb (s\<lparr>s_heap := h\<rparr>))
      | (Some None, h) \<Rightarrow> Inr (qdisc_drop skb (s\<lparr>s_heap := h\<rparr>))
      | (Some (Some segs), h) \<Rightarrow>
          (case segment_loop K (Some segs) 0 0 (s\<lparr>s_heap := h\<rparr>) of
             None \<Rightarrow> Inl Diverges
           | Some (Inl e) \<Rightarrow> Inl e
           | Some (Inr (len, nb, s1)) \<Rightarrow>
               (let s2 = s1\<lparr>s_qlen := s_qlen s1 + word_of_int nb\<rparr>;
                    s3 = (if nb > 1
                          then s2\<lparr>s_reduced := s_reduced s2 @ [(1 - nb, prev_len - len)]\<rparr>
                          else s2)
                in Inr (if nb > 0 then NET_XMIT_SUCCESS else NET_XMIT_DROP, s3\<lparr>s_consumed := skb # s_consumed s3\<rparr>))))"

section \<open>Enqueue\<close>

text \<open>
  The \<open>while (toks2 >= 0)\<close> loop that moves waiting packets from the inner queue to the ring. It
  leaves the function early with \<open>Inl ret\<close>, or ends with the three variables it changes.
\<close>

partial_function (option) drain_loop ::
    "('r, 'q) kernel \<Rightarrow> u64 \<Rightarrow> u64 \<Rightarrow> u64 \<Rightarrow> skb option \<Rightarrow> ('r, 'q) sch_state
     \<Rightarrow> (fault + (int + u64 \<times> u64 \<times> skb option) \<times> ('r, 'q) sch_state) option" where
  "drain_loop K now toks toks2 pre_skb s =
     (if sint toks2 \<ge> 0 then
        (case q_dequeue_peeked K (s_heap s) (t_qdisc (s_priv s)) of (pre1, h, q') \<Rightarrow>
         (case tsf_kfifo_enqueue K pre1 (upd_priv (\<lambda>q. q\<lparr>t_qdisc := q'\<rparr>) (s\<lparr>s_heap := h\<rparr>)) of
            Inl e \<Rightarrow> Some (Inl e)
          | Inr (ret, s1) \<Rightarrow>
              if ret \<noteq> NET_XMIT_SUCCESS then Some (Inr (Inl ret, count_drop K ret s1))
              else
                (let s2 = set_tokens now toks2 s1;
                     s3 = s2\<lparr>s_backlog := s_backlog s2 -
                               (case pre1 of None \<Rightarrow> 0 | Some p \<Rightarrow> pkt_len (s_heap s2) p),
                             s_qlen := s_qlen s2 - 1\<rparr>
                 in case q_peek K (t_qdisc (s_priv s3)) (t_qdisc (s_priv s3)) of
                      None \<Rightarrow> Some (Inr (Inr (toks2, toks2, None), s3))
                    | Some p \<Rightarrow>
                        drain_loop K now toks2
                          (toks2 - l2t K (t_rate (s_priv s3)) (pkt_len (s_heap s3) p)) (Some p) s3)))
      else Some (Inr (Inr (toks, toks2, pre_skb), s)))"

text \<open>The rest of \<open>tsf_enqueue\<close>, from the comment \<open>dequeue new skb\<close> on.\<close>

definition enqueue_new :: "('r, 'q) kernel \<Rightarrow> skb \<Rightarrow> u32 \<Rightarrow> u64 \<Rightarrow> u64 \<Rightarrow> u64 \<Rightarrow> skb option
    \<Rightarrow> ('r, 'q) sch_state \<Rightarrow> fault + int \<times> ('r, 'q) sch_state" where
  "enqueue_new K skb len now toks0 toks2 pre_skb s =
     (let toks = toks0 - l2t K (t_rate (s_priv s)) len in
      if sint toks \<ge> 0 then
        bindE (tsf_kfifo_enqueue K (Some skb) s) (\<lambda>(ret, s1).
          (let s2 = set_tokens now toks s1 in
           if ret \<noteq> NET_XMIT_SUCCESS then Inr (ret, count_drop K ret s2)
           else Inr (NET_XMIT_SUCCESS, s2)))
      else
        (case tsf_inner_enqueue K skb s of (ret, s1) \<Rightarrow>
         (let s2 = s1\<lparr>s_backlog := s_backlog s1 + len, s_qlen := s_qlen s1 + 1\<rparr>;
              s3 = qdisc_watchdog_schedule_ns (if pre_skb \<noteq> None then now - toks2 else now - toks) s2
          in Inr (NET_XMIT_SUCCESS, s3\<lparr>s_overlimits := s_overlimits s3 + 1\<rparr>))))"

definition tsf_enqueue :: "('r, 'q) kernel \<Rightarrow> skb \<Rightarrow> ('r, 'q) sch_state
    \<Rightarrow> fault + int \<times> ('r, 'q) sch_state" where
  "tsf_enqueue K skb s0 =
     (let s = (case ip_daddr K skb of
                 None \<Rightarrow> s0
               | Some a \<Rightarrow> s0\<lparr>s_dest := snprintf16 (pI4 K a)\<rparr>)
      in
      if s_dest s \<noteq> DEIP then
        (case q_enqueue K skb (s_heap s) (t_test_qdisc (s_priv s)) of (ret, h, q') \<Rightarrow>
         (let s1 = upd_priv (\<lambda>q. q\<lparr>t_test_qdisc := q'\<rparr>) (s\<lparr>s_heap := h\<rparr>) in
          if ret \<noteq> NET_XMIT_SUCCESS then Inr (ret, count_drop K ret s1)
          else Inr (NET_XMIT_SUCCESS, s1)))
      else if pkt_len (s_heap s) skb > k_mtu (t_kfifo (s_priv s)) \<and> skb_is_gso K skb \<and>
              skb_gso_validate_mac_len K skb (k_mtu (t_kfifo (s_priv s))) then
        tsf_segment K skb s
      else
        (let len = pkt_len (s_heap s) skb in
         case ktime_get_ns K s of (now, s1) \<Rightarrow>
         (let toks = refill_u64 (s_priv s1) now;
              pre_skb = q_peek K (t_qdisc (s_priv s1)) (t_qdisc (s_priv s1));
              toks2 = (case pre_skb of
                         None \<Rightarrow> toks
                       | Some p \<Rightarrow> toks - l2t K (t_rate (s_priv s1)) (pkt_len (s_heap s1) p))
          in case drain_loop K now toks toks2 pre_skb s1 of
               None \<Rightarrow> Inl Diverges
             | Some (Inl e) \<Rightarrow> Inl e
             | Some (Inr (Inl ret, s2)) \<Rightarrow> Inr (ret, s2)
             | Some (Inr (Inr (toks', toks2', pre'), s2)) \<Rightarrow>
                 enqueue_new K skb len now toks' toks2' pre' s2)))"

section \<open>Dequeue\<close>

text \<open>The busy wait of \<open>tsf_delay\<close>; \<open>None\<close> when the clock never gets there.\<close>

partial_function (option) delay_loop ::
    "('r, 'q) kernel \<Rightarrow> u64 \<Rightarrow> u64 \<Rightarrow> ('r, 'q) sch_state \<Rightarrow> ('r, 'q) sch_state option" where
  "delay_loop K now sleep_time s =
     (case ktime_get_ns K s of (now2, s') \<Rightarrow>
        if sint (now2 - now) \<ge> sint sleep_time then Some s' else delay_loop K now sleep_time s')"

definition tsf_delay :: "('r, 'q) kernel \<Rightarrow> u64 \<Rightarrow> ('r, 'q) sch_state
    \<Rightarrow> fault + ('r, 'q) sch_state" where
  "tsf_delay K sleep_time s0 =
     (case ktime_get_ns K s0 of (now, s) \<Rightarrow>
        if sint sleep_time > 1000000
        then Inr (qdisc_watchdog_schedule_ns (now + sleep_time) s)
        else (case delay_loop K now sleep_time s of None \<Rightarrow> Inl Diverges | Some s' \<Rightarrow> Inr s'))"

text \<open>The last part of \<open>tsf_dequeue\<close>: the ring gave nothing, perhaps because the reader sleeps.\<close>

definition dequeue_idle :: "('r, 'q) kernel \<Rightarrow> ('r, 'q) sch_state
    \<Rightarrow> fault + skb option \<times> ('r, 'q) sch_state" where
  "dequeue_idle K s =
     (let k = t_kfifo (s_priv s) in
      bindE (deref k (k_pread k)) (\<lambda>pr.
      if n_pkt pr = 0 \<and> n_sleep_time pr > 0 then
        bindE (spin_lock k) (\<lambda>k1.
        bindE (kfifo_finish_node (k_pread k1) k1) (\<lambda>k2.
        bindE (tsf_delay K (n_sleep_time pr) (upd_priv (\<lambda>q. q\<lparr>t_kfifo := spin_unlock k2\<rparr>) s)) (\<lambda>s'.
        Inr (None, s'))))
      else Inr (None, s)))"

definition tsf_dequeue :: "('r, 'q) kernel \<Rightarrow> ('r, 'q) sch_state
    \<Rightarrow> fault + skb option \<times> ('r, 'q) sch_state" where
  "tsf_dequeue K s =
     (let ring = bindE (kfifo_dequeue (s_heap s) (t_kfifo (s_priv s))) (\<lambda>(res, k).
                   (let s1 = upd_priv (\<lambda>q. q\<lparr>t_kfifo := k\<rparr>) s in
                    if res = None then dequeue_idle K s1 else Inr (res, s1)))
      in case q_peek K (t_qdisc (s_priv s)) (t_test_qdisc (s_priv s)) of
           None \<Rightarrow> ring
         | Some skb \<Rightarrow>
             (case ip_saddr K skb of
                None \<Rightarrow> Inl NullDeref
              | Some a \<Rightarrow>
                  if snprintf16 (pI4 K a) \<noteq> DEIP then
                    (case q_dequeue_peeked K (s_heap s) (t_test_qdisc (s_priv s)) of (res, h, q') \<Rightarrow>
                       Inr (res, upd_priv (\<lambda>q. q\<lparr>t_test_qdisc := q'\<rparr>) (s\<lparr>s_heap := h\<rparr>)))
                  else ring))"

section \<open>Setting up, changing and removing the discipline\<close>

record 's tc_tsf_qopt =
  o_rate :: 's
  o_time :: u64

text \<open>The table of parsed attributes \<open>tb\<close> (\<open>TCA_TSF_PARMS\<close>, \<open>TCA_TSF_TIME\<close>, \<open>TCA_TSF_RATE64\<close>).\<close>

record 's tsf_tb =
  tb_parms :: "'s tc_tsf_qopt option"
  tb_time :: "u64 option"
  tb_rate64 :: "u64 option"

record ('o, 's, 'r, 'q) control =
  nla_parse_nested :: "'o \<Rightarrow> int + 's tsf_tb"
  psched_ratecfg_precompute :: "'s \<Rightarrow> u64 \<Rightarrow> 'r"
  HZ :: u64
  dev_mtu :: u32
  fifo_create_dflt :: "nat \<Rightarrow> u32 \<Rightarrow> int + 'q"
  kmalloc_nodes :: "nat \<Rightarrow> knode list option"
  noop_qdisc :: 'q
  qdisc_tree_flush_backlog :: "'q \<Rightarrow> u32 \<times> u32 \<times> u32 \<Rightarrow> u32 \<times> u32 \<times> u32"

definition EINVAL :: int where "EINVAL = 22"
definition IP_MAX_MTU :: u32 where "IP_MAX_MTU = 0xFFFF"

definition sch_tree_lock :: "('r, 'q) sch_state \<Rightarrow> fault + ('r, 'q) sch_state" where
  "sch_tree_lock s = (if s_tree_lock s then Inl Deadlock else Inr (s\<lparr>s_tree_lock := True\<rparr>))"

definition sch_tree_unlock :: "('r, 'q) sch_state \<Rightarrow> ('r, 'q) sch_state" where
  "sch_tree_unlock s = s\<lparr>s_tree_lock := False\<rparr>"

text \<open>The assignments \<open>tsf_change\<close> makes from the parsed parameters, under the tree lock.\<close>

definition set_params :: "('o, 's, 'r, 'q) control \<Rightarrow> 's tc_tsf_qopt \<Rightarrow> u64 \<Rightarrow> u64
    \<Rightarrow> ('r, 'q) tsf_sched_data \<Rightarrow> ('r, 'q) tsf_sched_data" where
  "set_params C qopt time rate64 q =
     (let ttime = time div 1000;
          rate = psched_ratecfg_precompute C (o_rate qopt) rate64;
          buffer = rate64 div HZ C
      in q\<lparr>t_ttime := ttime, t_tlen := rate64 * ttime div 1000, t_buffer := buffer,
           t_limit := ucast buffer, t_rate := rate,
           t_kfifo := (t_kfifo q)\<lparr>k_rate := rate, k_mtu := min (dev_mtu C) IP_MAX_MTU\<rparr>\<rparr>)"

text \<open>
  One of the two blocks that replace an inner queue: \<open>n\<close> is the number of the call to
  \<open>fifo_create_dflt\<close>, \<open>get\<close> and \<open>put\<close> name the field. The old queue is flushed and put; what the flush
  of a child takes from the packet count, the byte count and the drops of the discipline above it is the
  kernel's \<open>qdisc_tree_flush_backlog\<close>, here a function of these three.
\<close>

definition flush_child :: "('o, 's, 'r, 'q) control \<Rightarrow> 'q \<Rightarrow> ('r, 'q) sch_state \<Rightarrow> ('r, 'q) sch_state" where
  "flush_child C old s =
     (case qdisc_tree_flush_backlog C old (s_qlen s, s_backlog s, s_drops s) of
        (qlen, backlog, drops) \<Rightarrow> s\<lparr>s_qlen := qlen, s_backlog := backlog, s_drops := drops, s_put := old # s_put s\<rparr>)"

lemma flush_child_simps [simp]:
  "s_heap (flush_child C old s) = s_heap s" "s_priv (flush_child C old s) = s_priv s"
  "s_tree_lock (flush_child C old s) = s_tree_lock s"
  by (simp_all add: flush_child_def split: prod.splits)

definition replace_child :: "('o, 's, 'r, 'q) control \<Rightarrow> nat
    \<Rightarrow> (('r, 'q) tsf_sched_data \<Rightarrow> 'q) \<Rightarrow> ('q \<Rightarrow> ('r, 'q) tsf_sched_data \<Rightarrow> ('r, 'q) tsf_sched_data)
    \<Rightarrow> ('r, 'q) sch_state \<Rightarrow> int + ('r, 'q) sch_state" where
  "replace_child C n get put s =
     (if t_tlen (s_priv s) > 0 then
        (case fifo_create_dflt C n (t_limit (s_priv s)) of
           Inl err \<Rightarrow> Inl err
         | Inr child \<Rightarrow> Inr (upd_priv (put child) (flush_child C (get (s_priv s)) s)))
      else Inr s)"

definition tsf_change :: "('o, 's, 'r, 'q) control \<Rightarrow> 'o \<Rightarrow> ('r, 'q) sch_state
    \<Rightarrow> fault + int \<times> ('r, 'q) sch_state" where
  "tsf_change C opt s =
     (case nla_parse_nested C opt of
        Inl err \<Rightarrow> Inr (err, s)
      | Inr tb \<Rightarrow>
     (case tb_parms tb of None \<Rightarrow> Inr (- EINVAL, s) | Some qopt \<Rightarrow>
     (case tb_time tb of None \<Rightarrow> Inr (- EINVAL, s) | Some time \<Rightarrow>
     (case tb_rate64 tb of None \<Rightarrow> Inr (- EINVAL, s) | Some rate64 \<Rightarrow>
      bindE (sch_tree_lock s) (\<lambda>s0.
      (let s1 = upd_priv (set_params C qopt time rate64) s0 in
       case replace_child C 0 t_test_qdisc (\<lambda>c q. q\<lparr>t_test_qdisc := c\<rparr>) s1 of
         Inl err \<Rightarrow> Inr (err, s1)
       | Inr s2 \<Rightarrow>
      (case replace_child C 1 t_qdisc (\<lambda>c q. q\<lparr>t_qdisc := c\<rparr>) s2 of
         Inl err \<Rightarrow> Inr (err, s2)
       | Inr s3 \<Rightarrow>
      (case kfifo_init (kmalloc_nodes C) (t_kfifo (s_priv s3)) (ucast (t_ttime (s_priv s3))) (ucast rate64) of
         (err, k) \<Rightarrow>
           (let s4 = sch_tree_unlock (upd_priv (\<lambda>q. q\<lparr>t_kfifo := k\<rparr>) s3)
            in Inr (if err < 0 then err else 0, s4))))))))))"

definition qdisc_watchdog_cancel :: "('r, 'q) sch_state \<Rightarrow> ('r, 'q) sch_state" where
  "qdisc_watchdog_cancel s = upd_priv (\<lambda>q. q\<lparr>t_watchdog := None\<rparr>) s"

definition tsf_init :: "('o, 's, 'r, 'q) control \<Rightarrow> 'o option \<Rightarrow> ('r, 'q) sch_state
    \<Rightarrow> fault + int \<times> ('r, 'q) sch_state" where
  "tsf_init C opt s =
     (let s0 = upd_priv (\<lambda>q. q\<lparr>t_watchdog := None\<rparr>) s in
      case opt of
        None \<Rightarrow> Inr (- EINVAL, s0)
      | Some nla \<Rightarrow>
          tsf_change C nla (upd_priv (\<lambda>q. q\<lparr>t_test_qdisc := noop_qdisc C, t_qdisc := noop_qdisc C\<rparr>) s0))"

definition tsf_reset :: "('r, 'q) sch_state \<Rightarrow> ('r, 'q) sch_state" where
  "tsf_reset s = qdisc_watchdog_cancel s"

text \<open>Freeing the block leaves no node to point to; the pointers keep their values.\<close>

definition tsf_destroy :: "('r, 'q) sch_state \<Rightarrow> ('r, 'q) sch_state" where
  "tsf_destroy s =
     (let s1 = qdisc_watchdog_cancel s in
      if k_pbase (t_kfifo (s_priv s1)) \<noteq> None
      then upd_priv (\<lambda>q. q\<lparr>t_kfifo := (t_kfifo q)\<lparr>k_nodes := []\<rparr>\<rparr>) s1
      else s1)"

text \<open>
  \<open>tsf_dump\<close> writes attributes; \<open>fits\<close> says whether the message has room for the next one.
  The result is the attributes of the nest, or \<open>None\<close> for the return value -1.
\<close>

datatype 's tsf_attr = TCA_TSF_PARMS "'s tc_tsf_qopt" | TCA_TSF_TIME u64 | TCA_TSF_RATE64 u64

definition tsf_dump :: "bool \<Rightarrow> ('s tsf_attr list \<Rightarrow> 's tsf_attr \<Rightarrow> bool) \<Rightarrow> ('r \<Rightarrow> 's) \<Rightarrow> ('r \<Rightarrow> u64)
    \<Rightarrow> ('r, 'q) tsf_sched_data \<Rightarrow> 's tsf_attr list option" where
  "tsf_dump nest fits getrate rate_bytes_ps q =
     (if \<not> nest then None
      else
        (let rate = k_rate (t_kfifo q);
             parms = TCA_TSF_PARMS \<lparr>o_rate = getrate rate, o_time = drop_bit 6 (t_ttime q)\<rparr>
         in if \<not> fits [] parms then None
            else if rate_bytes_ps rate \<ge> 2 ^ 32 then
              (if fits [parms] (TCA_TSF_RATE64 (rate_bytes_ps rate))
               then Some [parms, TCA_TSF_RATE64 (rate_bytes_ps rate)] else None)
            else Some [parms]))"

end
