(* ===== verification/Tsf_Bucket.thy ===== *)
theory Tsf_Bucket
  imports Tsf
begin

text \<open>
  The invariant of the queueing discipline and what the loop of \<open>tsf_enqueue\<close> does.

  \<open>bucket q\<close> says the depth and the tokens are in range (the tokens may exceed the depth after a
  change of the rate, until the next refill), \<open>tsf_rep K c s xs ys\<close> that the ring holds \<open>xs\<close> and
  the inner queue \<open>ys\<close>, with the packets distinct and in order. The inner queue belongs to the
  kernel: \<open>inner_fifo K c\<close> is what the code relies on of it (\<open>bfifo\<close>: the packets leave in
  order, \<open>peek\<close> looks at the first one, a refused packet is not kept, and only the links of its own
  packets are written), \<open>c q\<close> being the packets the queue \<open>q\<close> holds.
\<close>

section \<open>The token bucket\<close>

definition bucket :: "('r, 'q) tsf_sched_data \<Rightarrow> bool" where
  "bucket q \<longleftrightarrow> unat (t_buffer q) < 2 ^ 62 \<and> unat (t_tokens q) < 2 ^ 62"

lemma cap_tokens_unat:
  assumes "unat b < 2 ^ 62" and "unat a < 2 ^ 63"
  shows "unat (cap_tokens b a) = min (unat b) (unat a)"
proof -
  have "sint b < sint a \<longleftrightarrow> unat b < unat a"
    using assms by (simp add: sint_small del: uint_nat) (simp add: word_less_nat_alt flip: word_less_def)
  then show ?thesis by (simp add: cap_tokens_def)
qed

lemma refill_u64_unat:
  assumes "bucket q"
  shows "unat (refill_u64 q now) = min (unat (t_buffer q)) (unat (t_tokens q) + unat (now - t_t_c q))"
proof -
  let ?e = "min (now - t_t_c q) (t_buffer q)"
  have e: "unat ?e = min (unat (now - t_t_c q)) (unat (t_buffer q))"
    by (simp add: min_def word_le_nat_alt)
  then have "unat ?e \<le> unat (t_buffer q)" by simp
  moreover from assms have b: "unat (t_buffer q) < 2 ^ 62" "unat (t_tokens q) < 2 ^ 62"
    by (simp_all add: bucket_def)
  ultimately have lt: "unat ?e + unat (t_tokens q) < 2 ^ 63" by simp
  then have s: "unat (?e + t_tokens q) = unat ?e + unat (t_tokens q)" by (intro unat_plus_lt) simp
  from lt have "unat (?e + t_tokens q) < 2 ^ 63" unfolding s .
  with assms have "unat (refill_u64 q now) = min (unat (t_buffer q)) (unat (?e + t_tokens q))"
    unfolding refill_u64_def by (intro cap_tokens_unat) (simp_all add: bucket_def)
  with assms show ?thesis unfolding s e by (auto simp: bucket_def min_def)
qed

section \<open>The inner queue and the invariant\<close>

definition inner_fifo :: "('r, 'q) kernel \<Rightarrow> ('q \<Rightarrow> skb list) \<Rightarrow> bool" where
  "inner_fifo K c \<longleftrightarrow>
     (\<forall>q. q_peek K q q = (case c q of [] \<Rightarrow> None | x # _ \<Rightarrow> Some x)) \<and>
     (\<forall>h q r h' q'. q_dequeue_peeked K h q = (r, h', q') \<longrightarrow>
        r = (case c q of [] \<Rightarrow> None | x # _ \<Rightarrow> Some x) \<and> c q' = tl (c q) \<and>
        heap_frame h h' (c q) \<and> (\<forall>x. r = Some x \<longrightarrow> nxt h' x = None)) \<and>
     (\<forall>skb h q r h' q'. q_enqueue K skb h q = (r, h', q') \<longrightarrow>
        c q' = (if r = NET_XMIT_SUCCESS then c q @ [skb] else c q) \<and> heap_frame h h' (skb # c q))"

lemma inner_fifoD:
  assumes "inner_fifo K c"
  shows "q_peek K q q = (case c q of [] \<Rightarrow> None | x # _ \<Rightarrow> Some x)"
    and "q_dequeue_peeked K h q = (r, h', q') \<Longrightarrow>
        r = (case c q of [] \<Rightarrow> None | x # _ \<Rightarrow> Some x) \<and> c q' = tl (c q) \<and>
        heap_frame h h' (c q) \<and> (\<forall>x. r = Some x \<longrightarrow> nxt h' x = None)"
    and "q_enqueue K skb h q = (ret, h', q') \<Longrightarrow>
        c q' = (if ret = NET_XMIT_SUCCESS then c q @ [skb] else c q) \<and> heap_frame h h' (skb # c q)"
proof -
  note D = assms [unfolded inner_fifo_def]
  show "q_peek K q q = (case c q of [] \<Rightarrow> None | x # _ \<Rightarrow> Some x)"
    by (rule D [THEN conjunct1, THEN spec])
  show "r = (case c q of [] \<Rightarrow> None | x # _ \<Rightarrow> Some x) \<and> c q' = tl (c q) \<and>
      heap_frame h h' (c q) \<and> (\<forall>x. r = Some x \<longrightarrow> nxt h' x = None)"
    if "q_dequeue_peeked K h q = (r, h', q')"
    by (rule D [THEN conjunct2, THEN conjunct1, THEN spec, THEN spec, THEN spec, THEN spec, THEN spec,
        THEN mp, OF that])
  show "c q' = (if ret = NET_XMIT_SUCCESS then c q @ [skb] else c q) \<and> heap_frame h h' (skb # c q)"
    if "q_enqueue K skb h q = (ret, h', q')"
    by (rule D [THEN conjunct2, THEN conjunct2, THEN spec, THEN spec, THEN spec, THEN spec, THEN spec,
        THEN spec, THEN mp, OF that])
qed

definition pkt_ok :: "('r, 'q) kernel \<Rightarrow> 'r \<Rightarrow> skb_heap \<Rightarrow> skb \<Rightarrow> bool" where
  "pkt_ok K rate h p \<longleftrightarrow> pkt_len h p \<noteq> 0 \<and> unat (l2t K rate (pkt_len h p)) < 2 ^ 50"

definition tsf_rep :: "('r, 'q) kernel \<Rightarrow> ('q \<Rightarrow> skb list) \<Rightarrow> ('r, 'q) sch_state \<Rightarrow> skb list \<Rightarrow> skb list \<Rightarrow> bool" where
  "tsf_rep K c s xs ys \<longleftrightarrow>
     kf_holds (s_heap s) (t_kfifo (s_priv s)) xs \<and> c (t_qdisc (s_priv s)) = ys \<and> distinct (xs @ ys) \<and>
     (\<forall>p \<in> set ys. pkt_ok K (t_rate (s_priv s)) (s_heap s) p) \<and> bucket (s_priv s) \<and>
     k_rate (t_kfifo (s_priv s)) = t_rate (s_priv s)"

lemma kf_holds_frame:
  assumes "kf_holds h k xs" and "heap_frame h h' zs" and "set xs \<inter> set zs = {}"
  shows "kf_holds h' k xs"
proof -
  from assms(1) obtain r d ps where rep: "kf_rep h k r d ps" and xs: "xs = concat ps"
    by (auto simp: kf_holds_def)
  have "node_rep h' nd (ps ! j)" if "node_rep h nd (ps ! j)" and "j < length ps" for nd j
  proof (rule node_rep_frame [OF that(1) assms(2)])
    have "set (ps ! j) \<subseteq> set xs" using that(2) unfolding xs by (simp add: UN_upper)
    with assms(3) show "set (ps ! j) \<inter> set zs = {}" by blast
  qed
  moreover have "pkt_len h' = pkt_len h" using assms(2) by (simp add: heap_frame_def)
  ultimately have "kf_rep h' k r d ps"
    using rep heap_frame_bytes [OF assms(2)] unfolding kf_rep_def Let_def by simp
  then show ?thesis unfolding xs by (rule kf_holdsI) simp
qed

lemma kfifo_enqueue_holds:
  assumes "kf_holds h k xs" and "kf_ok f h k xs skb"
  obtains (drop) "kfifo_enqueue f (Some skb) h k = Inr (NET_XMIT_DROP, h, k)"
  | (store) h' k' where "kfifo_enqueue f (Some skb) h k = Inr (NET_XMIT_SUCCESS, h', k')"
      and "kf_holds h' k' (xs @ [skb])" and "heap_frame h h' xs" and "k_rate k' = k_rate k"
proof -
  from assms(1) obtain r d ps where rep: "kf_rep h k r d ps" and xs: "xs = concat ps"
    by (auto simp: kf_holds_def)
  from rep assms(2) [unfolded xs] show ?thesis
  proof (cases rule: kfifo_enqueue_cases)
    case drop
    from drop(1) show ?thesis by (rule that(1))
  next
    case (store h' k' d' lt)
    then have holds: "kf_holds h' k' (xs @ [skb])" by (auto simp: xs)
    have frame: "heap_frame h h' xs" using store(5) by (simp add: xs)
    show ?thesis by (rule that(2) [OF store(1) holds frame store(7)])
  qed
qed

section \<open>The loop that drains the inner queue\<close>

text \<open>What a step of the discipline leaves alone; \<open>zs\<close> are the packets whose links it may write.\<close>

definition sch_frame :: "skb list \<Rightarrow> ('r, 'q) sch_state \<Rightarrow> ('r, 'q) sch_state \<Rightarrow> bool" where
  "sch_frame zs s s' \<longleftrightarrow> heap_frame (s_heap s) (s_heap s') zs \<and>
     t_rate (s_priv s') = t_rate (s_priv s) \<and> t_buffer (s_priv s') = t_buffer (s_priv s) \<and>
     t_test_qdisc (s_priv s') = t_test_qdisc (s_priv s) \<and> s_dest s' = s_dest s \<and> s_clock s' = s_clock s \<and>
     s_to_free s' = s_to_free s \<and> s_tree_lock s' = s_tree_lock s"

lemma heap_frame_trans:
  "heap_frame h1 h2 xs \<Longrightarrow> heap_frame h2 h3 ys \<Longrightarrow> set xs \<union> set ys \<subseteq> set zs \<Longrightarrow> heap_frame h1 h3 zs"
  unfolding heap_frame_def by (metis Un_iff subsetD)

lemma sch_frame_trans:
  "sch_frame xs s1 s2 \<Longrightarrow> sch_frame ys s2 s3 \<Longrightarrow> set xs \<union> set ys \<subseteq> set zs \<Longrightarrow> sch_frame zs s1 s3"
  unfolding sch_frame_def by (elim conjE, intro conjI) (erule (2) heap_frame_trans, simp_all)

lemma upd_priv_simps [simp]:
  "s_priv (upd_priv f s) = f (s_priv s)" "s_heap (upd_priv f s) = s_heap s"
  "s_qlen (upd_priv f s) = s_qlen s" "s_backlog (upd_priv f s) = s_backlog s"
  "s_drops (upd_priv f s) = s_drops s" "s_overlimits (upd_priv f s) = s_overlimits s"
  "s_dest (upd_priv f s) = s_dest s" "s_to_free (upd_priv f s) = s_to_free s"
  "s_tree_lock (upd_priv f s) = s_tree_lock s" "s_clock (upd_priv f s) = s_clock s"
  "s_consumed (upd_priv f s) = s_consumed s" "s_reduced (upd_priv f s) = s_reduced s" "s_put (upd_priv f s) = s_put s"
  by (simp_all add: upd_priv_def)

text \<open>One turn of the loop: the first waiting packet moves to the ring or is refused by it.\<close>

lemma drain_turn:
  assumes K: "inner_fifo K c" and rep: "tsf_rep K c s xs (y # ys)"
  obtains h q' s' ret where
    "q_dequeue_peeked K (s_heap s) (t_qdisc (s_priv s)) = (Some y, h, q')"
    and "tsf_kfifo_enqueue K (Some y) (upd_priv (\<lambda>q. q\<lparr>t_qdisc := q'\<rparr>) (s\<lparr>s_heap := h\<rparr>)) = Inr (ret, s')"
    and "ret = NET_XMIT_SUCCESS \<and> tsf_rep K c s' (xs @ [y]) ys \<or> ret = NET_XMIT_DROP \<and> tsf_rep K c s' xs ys"
    and "sch_frame (xs @ y # ys) s s'" and "t_tokens (s_priv s') = t_tokens (s_priv s)"
    and "t_t_c (s_priv s') = t_t_c (s_priv s)" and "s_qlen s' = s_qlen s" and "s_backlog s' = s_backlog s"
proof -
  let ?p = "s_priv s" and ?k = "t_kfifo (s_priv s)"
  obtain r h q' where d: "q_dequeue_peeked K (s_heap s) (t_qdisc ?p) = (r, h, q')" by (rule prod_cases3)
  have c: "c (t_qdisc ?p) = y # ys" using rep by (simp add: tsf_rep_def)
  from inner_fifoD(2) [OF K d] c have r: "r = Some y" "c q' = ys"
    and fr: "heap_frame (s_heap s) h (y # ys)" and nx: "nxt h y = None" by simp_all
  have len: "pkt_len h = pkt_len (s_heap s)" using fr by (simp add: heap_frame_def)
  from rep have holds: "kf_holds (s_heap s) ?k xs" and dist: "distinct (xs @ y # ys)" and b: "bucket ?p"
    and ok: "\<forall>p \<in> set (y # ys). pkt_ok K (t_rate ?p) (s_heap s) p" and rate: "k_rate ?k = t_rate ?p"
    by (simp_all add: tsf_rep_def)
  from holds fr have holds1: "kf_holds h ?k xs" by (rule kf_holds_frame) (use dist in auto)
  have kfok: "kf_ok (l2t K) h ?k xs y"
    using ok dist nx by (simp add: kf_ok_def pkt_ok_def len rate)
  let ?s = "upd_priv (\<lambda>q. q\<lparr>t_qdisc := q'\<rparr>) (s\<lparr>s_heap := h\<rparr>)"
  from holds1 kfok show ?thesis
  proof (cases rule: kfifo_enqueue_holds)
    case drop
    let ?s' = "upd_priv (\<lambda>q. q\<lparr>t_kfifo := ?k\<rparr>) (?s\<lparr>s_heap := h\<rparr>)"
    have e: "tsf_kfifo_enqueue K (Some y) ?s = Inr (NET_XMIT_DROP, ?s')"
      using drop by (simp add: tsf_kfifo_enqueue_def)
    have "tsf_rep K c ?s' xs ys"
      using holds1 dist ok rate b r by (simp add: tsf_rep_def pkt_ok_def len bucket_def)
    moreover have "sch_frame (xs @ y # ys) s ?s'"
      using fr by (auto simp: sch_frame_def heap_frame_def)
    ultimately show ?thesis by (intro that [OF d [unfolded r] e]) simp_all
  next
    case (store h' k')
    let ?s' = "upd_priv (\<lambda>q. q\<lparr>t_kfifo := k'\<rparr>) (?s\<lparr>s_heap := h'\<rparr>)"
    have e: "tsf_kfifo_enqueue K (Some y) ?s = Inr (NET_XMIT_SUCCESS, ?s')"
      using store by (simp add: tsf_kfifo_enqueue_def)
    have len': "pkt_len h' = pkt_len (s_heap s)" using store(3) len by (simp add: heap_frame_def)
    have "tsf_rep K c ?s' (xs @ [y]) ys"
      using store(2,4) dist ok rate b r by (auto simp: tsf_rep_def pkt_ok_def len' bucket_def)
    moreover have "sch_frame (xs @ y # ys) s ?s'"
      using fr store(3) by (auto simp: sch_frame_def heap_frame_def)
    ultimately show ?thesis by (intro that [OF d [unfolded r] e]) simp_all
  qed
qed

lemma tsf_rep_cong:
  assumes "tsf_rep K c s xs ys" and "s_heap s' = s_heap s"
    and "s_priv s' = (s_priv s)\<lparr>t_t_c := now, t_tokens := toks\<rparr>" and "unat toks \<le> unat (t_buffer (s_priv s))"
  shows "tsf_rep K c s' xs ys"
  using assms by (simp add: tsf_rep_def bucket_def)

lemma count_drop_simps [simp]:
  "s_heap (count_drop K ret s) = s_heap s" "s_priv (count_drop K ret s) = s_priv s"
  "s_qlen (count_drop K ret s) = s_qlen s" "s_dest (count_drop K ret s) = s_dest s"
  "s_clock (count_drop K ret s) = s_clock s" "s_to_free (count_drop K ret s) = s_to_free s"
  "s_tree_lock (count_drop K ret s) = s_tree_lock s" "s_backlog (count_drop K ret s) = s_backlog s"
  by (simp_all add: count_drop_def)

lemma tsf_rep_count_drop: "tsf_rep K c s xs ys \<Longrightarrow> tsf_rep K c (count_drop K ret s) xs ys"
  by (simp add: tsf_rep_def)

text \<open>
  The outcome of the loop started on the waiting packets \<open>zs\<close> with \<open>toks\<close> tokens: \<open>moved\<close> went to
  the ring, \<open>rest\<close> did not. \<open>rate\<close> and \<open>len\<close> fix the air times.
\<close>

definition drain_post :: "('r, 'q) kernel \<Rightarrow> ('q \<Rightarrow> skb list) \<Rightarrow> 'r \<Rightarrow> (skb \<Rightarrow> u32) \<Rightarrow> u64 \<Rightarrow> u64
    \<Rightarrow> ('r, 'q) sch_state \<Rightarrow> skb list \<Rightarrow> skb list \<Rightarrow> skb list
    \<Rightarrow> int + u64 \<times> u64 \<times> skb option \<Rightarrow> ('r, 'q) sch_state \<Rightarrow> bool" where
  "drain_post K c rate len now toks s xs moved rest out s' \<longleftrightarrow>
     sch_frame (xs @ moved @ rest) s s' \<and> airtime (l2t K) rate len moved \<le> unat toks \<and>
     s_qlen s' = s_qlen s - of_nat (length moved) \<and>
     (moved = [] \<longrightarrow> t_tokens (s_priv s') = t_tokens (s_priv s) \<and> t_t_c (s_priv s') = t_t_c (s_priv s)) \<and>
     (moved \<noteq> [] \<longrightarrow> unat (t_tokens (s_priv s')) = unat toks - airtime (l2t K) rate len moved \<and>
        t_t_c (s_priv s') = now) \<and>
     (case out of
        Inl ret \<Rightarrow> ret = NET_XMIT_DROP \<and> rest \<noteq> [] \<and> tsf_rep K c s' (xs @ moved) (tl rest) \<and>
          unat (l2t K rate (len (hd rest))) \<le> unat toks - airtime (l2t K) rate len moved
      | Inr (toks', toks2', pre) \<Rightarrow> tsf_rep K c s' (xs @ moved) rest \<and>
          unat toks' = unat toks - airtime (l2t K) rate len moved \<and>
          (case rest of
             [] \<Rightarrow> pre = None \<and> toks2' = toks'
           | p # _ \<Rightarrow> pre = Some p \<and> toks2' = toks' - l2t K rate (len p) \<and>
               unat toks' < unat (l2t K rate (len p))))"

lemma drain_step:
  assumes K: "inner_fifo K c" and rep: "tsf_rep K c s xs (y # ys)"
    and toks: "unat toks \<le> unat (t_buffer (s_priv s))" and rate: "t_rate (s_priv s) = rate"
    and len: "pkt_len (s_heap s) = len"
    and fits: "unat (l2t K rate (len y)) \<le> unat toks" and t2: "t2 = toks - l2t K rate (len y)"
  obtains (drop) s1 where "drain_loop K now toks t2 (Some y) s = Some (Inr (Inl NET_XMIT_DROP, s1))"
      and "tsf_rep K c s1 xs ys" and "sch_frame (xs @ y # ys) s s1" and "s_qlen s1 = s_qlen s"
      and "t_tokens (s_priv s1) = t_tokens (s_priv s)" and "t_t_c (s_priv s1) = t_t_c (s_priv s)"
  | (store) s3 where
      "drain_loop K now toks t2 (Some y) s =
        (case ys of
           [] \<Rightarrow> Some (Inr (Inr (t2, t2, None), s3))
         | z # _ \<Rightarrow> drain_loop K now t2 (t2 - l2t K rate (len z)) (Some z) s3)"
      and "tsf_rep K c s3 (xs @ [y]) ys" and "sch_frame (xs @ y # ys) s s3" and "s_qlen s3 = s_qlen s - 1"
      and "t_tokens (s_priv s3) = t2" and "t_t_c (s_priv s3) = now"
      and "unat t2 = unat toks - unat (l2t K rate (len y))"
proof -
  from rep have lt: "unat toks < 2 ^ 63" "unat (l2t K rate (len y)) < 2 ^ 63"
    using toks rate len by (auto simp: tsf_rep_def bucket_def pkt_ok_def)
  have pos: "0 \<le> sint t2" unfolding t2 using sint_diff_nonneg [OF lt] fits by simp
  have t2u: "unat t2 = unat toks - unat (l2t K rate (len y))" unfolding t2 using fits by (rule unat_minus_le)
  from K rep show ?thesis
  proof (cases rule: drain_turn)
    case (1 h q' s1 ret)
    note unf = drain_loop.simps [of K now toks t2 "Some y" s]
    show ?thesis
    proof (cases "ret = NET_XMIT_SUCCESS")
      case False
      with 1(3) have ret: "ret = NET_XMIT_DROP" and rep1: "tsf_rep K c s1 xs ys" by auto
      have l: "drain_loop K now toks t2 (Some y) s = Some (Inr (Inl NET_XMIT_DROP, count_drop K NET_XMIT_DROP s1))"
        using pos 1(1,2) False unfolding unf ret by simp
      have fr: "sch_frame (xs @ y # ys) s (count_drop K NET_XMIT_DROP s1)"
        using 1(4) by (simp add: sch_frame_def)
      show ?thesis by (rule drop [OF l tsf_rep_count_drop [OF rep1] fr]) (simp_all add: 1)
    next
      case True
      with 1(3) have rep1: "tsf_rep K c s1 (xs @ [y]) ys" by auto
      define s2 where "s2 = set_tokens now t2 s1"
      define s3 where "s3 = s2\<lparr>s_backlog := s_backlog s2 - pkt_len (s_heap s2) y, s_qlen := s_qlen s2 - 1\<rparr>"
      have s3: "s_heap s3 = s_heap s1" "s_priv s3 = (s_priv s1)\<lparr>t_t_c := now, t_tokens := t2\<rparr>"
        "s_qlen s3 = s_qlen s - 1" "s_dest s3 = s_dest s1" "s_clock s3 = s_clock s1"
        "s_to_free s3 = s_to_free s1" "s_tree_lock s3 = s_tree_lock s1"
        by (simp_all add: s3_def s2_def set_tokens_def 1)
      from 1(4) have same: "t_rate (s_priv s3) = rate" "pkt_len (s_heap s3) = len"
        "t_buffer (s_priv s1) = t_buffer (s_priv s)"
        using rate len by (simp_all add: s3 sch_frame_def heap_frame_def)
      have "unat t2 \<le> unat (t_buffer (s_priv s1))" using toks t2u by (simp add: same)
      with rep1 have rep3: "tsf_rep K c s3 (xs @ [y]) ys" by (rule tsf_rep_cong [OF _ s3(1,2)])
      then have "c (t_qdisc (s_priv s3)) = ys" by (simp add: tsf_rep_def)
      then have pk: "q_peek K (t_qdisc (s_priv s3)) (t_qdisc (s_priv s3)) = (case ys of [] \<Rightarrow> None | z # _ \<Rightarrow> Some z)"
        using inner_fifoD(1) [OF K] by simp
      have "drain_loop K now toks t2 (Some y) s =
        (case q_peek K (t_qdisc (s_priv s3)) (t_qdisc (s_priv s3)) of
           None \<Rightarrow> Some (Inr (Inr (t2, t2, None), s3))
         | Some p \<Rightarrow> drain_loop K now t2
             (t2 - l2t K (t_rate (s_priv s3)) (pkt_len (s_heap s3) p)) (Some p) s3)"
        unfolding unf s3_def s2_def 1(1) prod.case 1(2) sum.case True Let_def if_P [OF pos] option.case
        by (rule if_not_P) simp
      then have l: "drain_loop K now toks t2 (Some y) s =
        (case ys of
           [] \<Rightarrow> Some (Inr (Inr (t2, t2, None), s3))
         | z # _ \<Rightarrow> drain_loop K now t2 (t2 - l2t K rate (len z)) (Some z) s3)"
        unfolding pk same by (cases ys) simp_all
      have fr: "sch_frame (xs @ y # ys) s s3"
        using 1(4) by (simp add: sch_frame_def s3)
      show ?thesis by (rule store [OF l rep3 fr _ _ _ t2u]) (simp_all add: s3)
    qed
  qed
qed

lemma drain_loop_stop:
  assumes rep: "tsf_rep K c s xs (y # ys)" and "unat toks \<le> unat (t_buffer (s_priv s))"
    and "t_rate (s_priv s) = rate" and "pkt_len (s_heap s) = len"
    and "\<not> unat (l2t K rate (len y)) \<le> unat toks"
  shows "drain_loop K now toks (toks - l2t K rate (len y)) (Some y) s =
      Some (Inr (Inr (toks, toks - l2t K rate (len y), Some y), s)) \<and>
    drain_post K c rate len now toks s xs [] (y # ys) (Inr (toks, toks - l2t K rate (len y), Some y)) s"
proof -
  from assms have lt: "unat toks < 2 ^ 63" "unat (l2t K rate (len y)) < 2 ^ 63"
    by (auto simp: tsf_rep_def bucket_def pkt_ok_def)
  have "\<not> 0 \<le> sint (toks - l2t K rate (len y))" using sint_diff_nonneg [OF lt] assms(5) by simp
  then show ?thesis
    using assms by (subst drain_loop.simps) (simp add: drain_post_def sch_frame_def)
qed

lemma drain_post_Cons:
  assumes post: "drain_post K c rate len now t2 s3 (xs @ [y]) moved rest out s'"
    and "sch_frame (xs @ y # moved @ rest) s s3" and "s_qlen s3 = s_qlen s - 1"
    and "t_tokens (s_priv s3) = t2" and "t_t_c (s_priv s3) = now"
    and "unat t2 = unat toks - unat (l2t K rate (len y))" and "unat (l2t K rate (len y)) \<le> unat toks"
  shows "drain_post K c rate len now toks s xs (y # moved) rest out s'"
proof -
  have "sch_frame (xs @ y # moved @ rest) s s'"
  proof (rule sch_frame_trans [OF assms(2)])
    show "sch_frame ((xs @ [y]) @ moved @ rest) s3 s'" using post by (simp add: drain_post_def)
  qed auto
  moreover have a: "airtime (l2t K) rate len moved \<le> unat t2" using post by (simp add: drain_post_def)
  moreover have "airtime (l2t K) rate len (y # moved) \<le> unat toks"
    and "unat toks - airtime (l2t K) rate len (y # moved) = unat t2 - airtime (l2t K) rate len moved"
    using a assms(6,7) unfolding airtime_simps by linarith+
  moreover have "s_qlen s' = s_qlen s - of_nat (length (y # moved))"
    using post assms(3) by (simp add: drain_post_def)
  moreover have "unat (t_tokens (s_priv s')) = unat t2 - airtime (l2t K) rate len moved \<and> t_t_c (s_priv s') = now"
    using post assms(4,5) by (cases "moved = []") (simp_all add: drain_post_def)
  ultimately show ?thesis
    using post unfolding drain_post_def append_Cons append_assoc append_Nil
    by (elim conjE) (intro conjI impI; assumption?; simp only: list.distinct append_Cons)
qed

lemma drain_loop_post:
  assumes K: "inner_fifo K c" and "tsf_rep K c s xs (y # ys)"
    and "unat toks \<le> unat (t_buffer (s_priv s))" and "t_rate (s_priv s) = rate" and "pkt_len (s_heap s) = len"
  shows "\<exists>moved rest out s'.
    drain_loop K now toks (toks - l2t K rate (len y)) (Some y) s = Some (Inr (out, s')) \<and>
    y # ys = moved @ rest \<and> drain_post K c rate len now toks s xs moved rest out s'"
  using assms(2-)
proof (induction ys arbitrary: s xs y toks)
  case Nil
  note pre = Nil.prems
  let ?t2 = "toks - l2t K rate (len y)"
  show ?case
  proof (cases "unat (l2t K rate (len y)) \<le> unat toks")
    case False
    with drain_loop_stop [OF pre] show ?thesis by (intro exI [of _ "[]"] exI [of _ "[y]"]) auto
  next
    case True
    from K pre True refl show ?thesis
    proof (cases rule: drain_step [where now = now])
      case (drop s1)
      then have "drain_post K c rate len now toks s xs [] [y] (Inl NET_XMIT_DROP) s1"
        using True by (simp add: drain_post_def)
      with drop(1) show ?thesis by (intro exI [of _ "[]"] exI [of _ "[y]"]) auto
    next
      case (store s3)
      then have "drain_post K c rate len now toks s xs [y] [] (Inr (?t2, ?t2, None)) s3"
        using True by (simp add: drain_post_def)
      with store(1) show ?thesis by (intro exI [of _ "[y]"] exI [of _ "[]"]) auto
    qed
  qed
next
  case (Cons z zs)
  note pre = Cons.prems
  let ?t2 = "toks - l2t K rate (len y)"
  show ?case
  proof (cases "unat (l2t K rate (len y)) \<le> unat toks")
    case False
    with drain_loop_stop [OF pre] show ?thesis by (intro exI [of _ "[]"] exI [of _ "y # z # zs"]) auto
  next
    case True
    from K pre True refl show ?thesis
    proof (cases rule: drain_step [where now = now])
      case (drop s1)
      then have "drain_post K c rate len now toks s xs [] (y # z # zs) (Inl NET_XMIT_DROP) s1"
        using True by (simp add: drain_post_def)
      with drop(1) show ?thesis by (intro exI [of _ "[]"] exI [of _ "y # z # zs"]) auto
    next
      case (store s3)
      have same: "t_buffer (s_priv s3) = t_buffer (s_priv s)" "t_rate (s_priv s3) = rate" "pkt_len (s_heap s3) = len"
        using store(3) pre(3,4) by (simp_all add: sch_frame_def heap_frame_def)
      from store(7) pre(2) have "unat ?t2 \<le> unat (t_buffer (s_priv s3))" by (simp add: same)
      from Cons.IH [OF store(2) this same(2,3)] obtain moved rest out s' where
        l: "drain_loop K now ?t2 (?t2 - l2t K rate (len z)) (Some z) s3 = Some (Inr (out, s'))"
        and split: "z # zs = moved @ rest"
        and post: "drain_post K c rate len now ?t2 s3 (xs @ [y]) moved rest out s'" by blast
      have "drain_post K c rate len now toks s xs (y # moved) rest out s'"
        using drain_post_Cons [OF post store(3) [unfolded split] store(4-7) True] .
      moreover have "drain_loop K now toks ?t2 (Some y) s = Some (Inr (out, s'))" using l store(1) by simp
      ultimately show ?thesis using split by (metis append_Cons)
    qed
  qed
qed

section \<open>The new packet\<close>

definition new_post :: "('r, 'q) kernel \<Rightarrow> ('q \<Rightarrow> skb list) \<Rightarrow> nat \<Rightarrow> u64 \<Rightarrow> nat \<Rightarrow> ('r, 'q) sch_state
    \<Rightarrow> skb \<Rightarrow> skb list \<Rightarrow> skb list \<Rightarrow> skb list \<Rightarrow> skb list \<Rightarrow> int \<Rightarrow> ('r, 'q) sch_state \<Rightarrow> bool" where
  "new_post K c need now avail s skb xs ys new kept ret s' \<longleftrightarrow>
     tsf_rep K c s' (xs @ new) (ys @ kept) \<and> sch_frame (skb # xs @ ys) s s' \<and>
     (if need \<le> avail
      then kept = [] \<and> unat (t_tokens (s_priv s')) = avail - need \<and> t_t_c (s_priv s') = now \<and>
        (new = [skb] \<and> ret = NET_XMIT_SUCCESS \<or> new = [] \<and> ret = NET_XMIT_DROP) \<and>
        s_qlen s' = s_qlen s \<and> s_backlog s' = s_backlog s
      else new = [] \<and> (kept = [] \<or> kept = [skb]) \<and> ret = NET_XMIT_SUCCESS \<and>
        t_tokens (s_priv s') = t_tokens (s_priv s) \<and> t_t_c (s_priv s') = t_t_c (s_priv s) \<and>
        s_qlen s' = s_qlen s + 1 \<and> s_backlog s' = s_backlog s + pkt_len (s_heap s) skb)"

lemma tsf_rep_lt:
  "tsf_rep K c s xs ys \<Longrightarrow> unat toks \<le> unat (t_buffer (s_priv s)) \<Longrightarrow> unat toks < 2 ^ 63"
  by (simp add: tsf_rep_def bucket_def)

lemma tsf_rep_kf_ok:
  assumes "tsf_rep K c s xs ys" and "skb \<notin> set xs" and "pkt_ok K (t_rate (s_priv s)) (s_heap s) skb"
    and "nxt (s_heap s) skb = None"
  shows "kf_ok (l2t K) (s_heap s) (t_kfifo (s_priv s)) xs skb"
  using assms by (simp add: tsf_rep_def kf_ok_def pkt_ok_def)

text \<open>
  Offering one packet to the ring or to the inner queue. \<open>rest_same\<close> collects the fields both leave
  alone beyond those of \<open>sch_frame\<close>.
\<close>

definition rest_same :: "('r, 'q) sch_state \<Rightarrow> ('r, 'q) sch_state \<Rightarrow> bool" where
  "rest_same s s' \<longleftrightarrow> t_tokens (s_priv s') = t_tokens (s_priv s) \<and> t_t_c (s_priv s') = t_t_c (s_priv s) \<and>
     s_qlen s' = s_qlen s \<and> s_backlog s' = s_backlog s \<and> s_reduced s' = s_reduced s \<and>
     s_consumed s' = s_consumed s \<and> s_drops s' = s_drops s"

lemma tsf_kfifo_enqueue_rep:
  assumes rep: "tsf_rep K c s xs ys" and new: "skb \<notin> set (xs @ ys)"
    and ok: "pkt_ok K (t_rate (s_priv s)) (s_heap s) skb" and nx: "nxt (s_heap s) skb = None"
  shows "\<exists>ret s' new. tsf_kfifo_enqueue K (Some skb) s = Inr (ret, s') \<and> tsf_rep K c s' (xs @ new) ys \<and>
    (new = [skb] \<and> ret = NET_XMIT_SUCCESS \<or> new = [] \<and> ret = NET_XMIT_DROP) \<and>
    sch_frame xs s s' \<and> rest_same s s'"
proof -
  have "kf_ok (l2t K) (s_heap s) (t_kfifo (s_priv s)) xs skb"
    using new by (intro tsf_rep_kf_ok [OF rep _ ok nx]) simp
  with rep [unfolded tsf_rep_def, THEN conjunct1] show ?thesis
  proof (cases rule: kfifo_enqueue_holds)
    case drop
    let ?s = "upd_priv (\<lambda>q. q\<lparr>t_kfifo := t_kfifo (s_priv s)\<rparr>) (s\<lparr>s_heap := s_heap s\<rparr>)"
    have "tsf_rep K c ?s (xs @ []) ys" using rep by (simp add: tsf_rep_def bucket_def)
    with drop show ?thesis
      by (intro exI [of _ NET_XMIT_DROP] exI [of _ ?s] exI [of _ "[]"])
        (simp add: tsf_kfifo_enqueue_def sch_frame_def rest_same_def)
  next
    case (store h' k')
    let ?s = "upd_priv (\<lambda>q. q\<lparr>t_kfifo := k'\<rparr>) (s\<lparr>s_heap := h'\<rparr>)"
    have "pkt_len h' = pkt_len (s_heap s)" using store(3) by (simp add: heap_frame_def)
    then have "tsf_rep K c ?s (xs @ [skb]) ys"
      using rep store new by (auto simp: tsf_rep_def bucket_def pkt_ok_def)
    with store show ?thesis
      by (intro exI [of _ NET_XMIT_SUCCESS] exI [of _ ?s] exI [of _ "[skb]"])
        (simp add: tsf_kfifo_enqueue_def sch_frame_def rest_same_def)
  qed
qed

lemma tsf_inner_enqueue_rep:
  assumes K: "inner_fifo K c" and rep: "tsf_rep K c s xs ys" and new: "skb \<notin> set (xs @ ys)"
    and ok: "pkt_ok K (t_rate (s_priv s)) (s_heap s) skb"
  shows "\<exists>ret s' kept. tsf_inner_enqueue K skb s = (ret, s') \<and> tsf_rep K c s' xs (ys @ kept) \<and>
    kept = (if ret = NET_XMIT_SUCCESS then [skb] else []) \<and> sch_frame (skb # ys) s s' \<and> rest_same s s'"
proof -
  obtain r h q' where e: "q_enqueue K skb (s_heap s) (t_qdisc (s_priv s)) = (r, h, q')" by (rule prod_cases3)
  let ?kept = "if r = NET_XMIT_SUCCESS then [skb] else []" and ?s = "upd_priv (\<lambda>q. q\<lparr>t_qdisc := q'\<rparr>) (s\<lparr>s_heap := h\<rparr>)"
  have c: "c (t_qdisc (s_priv s)) = ys" using rep by (simp add: tsf_rep_def)
  from inner_fifoD(3) [OF K e] have cq: "c q' = ys @ ?kept" and fr: "heap_frame (s_heap s) h (skb # ys)"
    by (simp_all add: c)
  have len: "pkt_len h = pkt_len (s_heap s)" using fr by (simp add: heap_frame_def)
  have "kf_holds h (t_kfifo (s_priv s)) xs"
    by (rule kf_holds_frame [OF rep [unfolded tsf_rep_def, THEN conjunct1] fr])
      (use rep new in \<open>auto simp: tsf_rep_def\<close>)
  then have "tsf_rep K c ?s xs (ys @ ?kept)"
    using rep new ok cq by (auto simp: tsf_rep_def len bucket_def pkt_ok_def)
  with fr show ?thesis
    by (intro exI [of _ r] exI [of _ ?s] exI [of _ ?kept])
      (simp add: tsf_inner_enqueue_def e sch_frame_def rest_same_def)
qed

lemma enqueue_new_ring:
  assumes rep: "tsf_rep K c s xs ys" and new: "skb \<notin> set (xs @ ys)"
    and ok: "pkt_ok K (t_rate (s_priv s)) (s_heap s) skb" and nx: "nxt (s_heap s) skb = None"
    and av: "unat toks \<le> unat (t_buffer (s_priv s))"
    and fits: "unat (l2t K (t_rate (s_priv s)) (pkt_len (s_heap s) skb)) \<le> unat toks"
  shows "\<exists>new ret s'. enqueue_new K skb (pkt_len (s_heap s) skb) now toks toks2 pre s = Inr (ret, s') \<and>
    new_post K c (unat (l2t K (t_rate (s_priv s)) (pkt_len (s_heap s) skb))) now (unat toks) s skb xs ys new [] ret s'"
proof -
  let ?t = "toks - l2t K (t_rate (s_priv s)) (pkt_len (s_heap s) skb)"
  from ok have "unat (l2t K (t_rate (s_priv s)) (pkt_len (s_heap s) skb)) < 2 ^ 63" by (simp add: pkt_ok_def)
  with tsf_rep_lt [OF rep av] fits have pos: "0 \<le> sint ?t" by (simp add: sint_diff_nonneg)
  have t: "unat ?t = unat toks - unat (l2t K (t_rate (s_priv s)) (pkt_len (s_heap s) skb))"
    using fits by (rule unat_minus_le)
  from tsf_kfifo_enqueue_rep [OF rep new ok nx] obtain ret s1 nw where
    e: "tsf_kfifo_enqueue K (Some skb) s = Inr (ret, s1)" and rep1: "tsf_rep K c s1 (xs @ nw) ys"
    and nw: "nw = [skb] \<and> ret = NET_XMIT_SUCCESS \<or> nw = [] \<and> ret = NET_XMIT_DROP"
    and fr: "sch_frame xs s s1" and same: "rest_same s s1" by blast
  let ?s2 = "set_tokens now ?t s1"
  let ?s' = "if ret = NET_XMIT_SUCCESS then ?s2 else count_drop K ret ?s2"
  have "enqueue_new K skb (pkt_len (s_heap s) skb) now toks toks2 pre s = Inr (ret, ?s')"
    using pos e by (simp add: enqueue_new_def Let_def)
  moreover have p: "s_heap ?s' = s_heap s1" "s_priv ?s' = (s_priv s1)\<lparr>t_t_c := now, t_tokens := ?t\<rparr>"
      "s_qlen ?s' = s_qlen s" "s_backlog ?s' = s_backlog s"
    using same by (auto simp: set_tokens_def rest_same_def)
  moreover have "tsf_rep K c ?s' (xs @ nw) ys"
    using rep1 p(1,2) by (rule tsf_rep_cong) (use fr t av in \<open>simp add: sch_frame_def\<close>)
  moreover have "sch_frame (skb # xs @ ys) s ?s'"
    using fr by (auto simp: sch_frame_def heap_frame_def set_tokens_def)
  ultimately show ?thesis using nw t fits by (intro exI [of _ nw] exI [of _ ret] exI [of _ ?s']) (simp add: new_post_def)
qed

lemma enqueue_new_wait:
  assumes K: "inner_fifo K c" and rep: "tsf_rep K c s xs ys" and new: "skb \<notin> set (xs @ ys)"
    and ok: "pkt_ok K (t_rate (s_priv s)) (s_heap s) skb"
    and av: "unat toks \<le> unat (t_buffer (s_priv s))"
    and fits: "unat toks < unat (l2t K (t_rate (s_priv s)) (pkt_len (s_heap s) skb))"
  shows "\<exists>kept ret s'. enqueue_new K skb (pkt_len (s_heap s) skb) now toks toks2 pre s = Inr (ret, s') \<and>
    new_post K c (unat (l2t K (t_rate (s_priv s)) (pkt_len (s_heap s) skb))) now (unat toks) s skb xs ys [] kept ret s'"
proof -
  let ?len = "pkt_len (s_heap s) skb"
  let ?t = "toks - l2t K (t_rate (s_priv s)) ?len"
  from ok have "unat (l2t K (t_rate (s_priv s)) ?len) < 2 ^ 63" by (simp add: pkt_ok_def)
  with tsf_rep_lt [OF rep av] fits have neg: "\<not> 0 \<le> sint ?t" by (simp add: sint_diff_nonneg)
  from tsf_inner_enqueue_rep [OF K rep new ok] obtain r s1 kept where e: "tsf_inner_enqueue K skb s = (r, s1)"
    and rep1: "tsf_rep K c s1 xs (ys @ kept)" and kept: "kept = (if r = NET_XMIT_SUCCESS then [skb] else [])"
    and fr: "sch_frame (skb # ys) s s1" and same: "rest_same s s1" by blast
  obtain s' where s': "enqueue_new K skb ?len now toks toks2 pre s = Inr (NET_XMIT_SUCCESS, s')" "s_heap s' = s_heap s1"
      "s_priv s' = (s_priv s1)\<lparr>t_watchdog := Some (if pre \<noteq> None then now - toks2 else now - ?t)\<rparr>"
      "s_qlen s' = s_qlen s1 + 1" "s_backlog s' = s_backlog s1 + ?len"
      "s_dest s' = s_dest s1" "s_clock s' = s_clock s1" "s_to_free s' = s_to_free s1" "s_tree_lock s' = s_tree_lock s1"
    using neg e by (auto simp: enqueue_new_def Let_def qdisc_watchdog_schedule_ns_def)
  have "tsf_rep K c s' xs (ys @ kept)" using rep1 by (simp add: tsf_rep_def s' bucket_def)
  moreover have "sch_frame (skb # xs @ ys) s s'" using fr s' by (auto simp: sch_frame_def heap_frame_def)
  ultimately show ?thesis using s' same fits kept
    by (intro exI [of _ kept] exI [of _ NET_XMIT_SUCCESS] exI [of _ s']) (simp add: new_post_def rest_same_def)
qed

section \<open>The whole of enqueue\<close>

definition next_dest :: "('r, 'q) kernel \<Rightarrow> skb \<Rightarrow> ('r, 'q) sch_state \<Rightarrow> string" where
  "next_dest K skb s = (case ip_daddr K skb of None \<Rightarrow> s_dest s | Some a \<Rightarrow> snprintf16 (pI4 K a))"

text \<open>A packet the limiter paces: it goes to the limited host and is not segmented.\<close>

definition paced :: "('r, 'q) kernel \<Rightarrow> skb \<Rightarrow> ('r, 'q) sch_state \<Rightarrow> bool" where
  "paced K skb s \<longleftrightarrow> next_dest K skb s = DEIP \<and>
     \<not> (pkt_len (s_heap s) skb > k_mtu (t_kfifo (s_priv s)) \<and> skb_is_gso K skb \<and>
        skb_gso_validate_mac_len K skb (k_mtu (t_kfifo (s_priv s))))"

definition new_ok :: "('r, 'q) kernel \<Rightarrow> ('r, 'q) sch_state \<Rightarrow> skb list \<Rightarrow> skb \<Rightarrow> bool" where
  "new_ok K s zs skb \<longleftrightarrow> skb \<notin> set zs \<and> pkt_ok K (t_rate (s_priv s)) (s_heap s) skb \<and> nxt (s_heap s) skb = None"

lemma enqueue_new_post:
  assumes K: "inner_fifo K c" and rep: "tsf_rep K c s xs ys" and new: "new_ok K s (xs @ ys) skb"
    and av: "unat toks \<le> unat (t_buffer (s_priv s))"
  shows "\<exists>new kept ret s'. enqueue_new K skb (pkt_len (s_heap s) skb) now toks toks2 pre s = Inr (ret, s') \<and>
    new_post K c (unat (l2t K (t_rate (s_priv s)) (pkt_len (s_heap s) skb))) now (unat toks) s skb xs ys new kept ret s'"
proof (cases "unat (l2t K (t_rate (s_priv s)) (pkt_len (s_heap s) skb)) \<le> unat toks")
  case True
  with enqueue_new_ring [OF rep _ _ _ av] new show ?thesis by (simp add: new_ok_def) metis
next
  case False
  with enqueue_new_wait [OF K rep _ _ av] new show ?thesis by (simp add: new_ok_def not_le) metis
qed

text \<open>The state the loop starts in.\<close>

definition paced_start :: "('r, 'q) sch_state \<Rightarrow> ('r, 'q) sch_state" where
  "paced_start s = s\<lparr>s_dest := DEIP, s_clock := s_clock s + 1\<rparr>"

lemma paced_start_simps [simp]:
  "s_heap (paced_start s) = s_heap s" "s_priv (paced_start s) = s_priv s"
  "s_qlen (paced_start s) = s_qlen s" "s_backlog (paced_start s) = s_backlog s"
  "s_to_free (paced_start s) = s_to_free s"
  by (simp_all add: paced_start_def)

lemma tsf_enqueue_paced:
  assumes "paced K skb s" and now: "now = ktime K (s_clock s)" and toks: "toks = refill_u64 (s_priv s) now"
    and pre: "pre = q_peek K (t_qdisc (s_priv s)) (t_qdisc (s_priv s))"
    and toks2: "toks2 = (case pre of None \<Rightarrow> toks
                | Some p \<Rightarrow> toks - l2t K (t_rate (s_priv s)) (pkt_len (s_heap s) p))"
  shows "tsf_enqueue K skb s =
        (case drain_loop K now toks toks2 pre (paced_start s) of
           None \<Rightarrow> Inl Diverges
         | Some (Inl e) \<Rightarrow> Inl e
         | Some (Inr (Inl ret, s2)) \<Rightarrow> Inr (ret, s2)
         | Some (Inr (Inr (toks', toks2', pre'), s2)) \<Rightarrow>
             enqueue_new K skb (pkt_len (s_heap s) skb) now toks' toks2' pre' s2)"
proof -
  have d: "(case ip_daddr K skb of None \<Rightarrow> s | Some a \<Rightarrow> s\<lparr>s_dest := snprintf16 (pI4 K a)\<rparr>) = s\<lparr>s_dest := DEIP\<rparr>"
    using assms(1) by (auto simp: paced_def next_dest_def split: option.splits)
  have k: "ktime_get_ns K (s\<lparr>s_dest := DEIP\<rparr>) = (ktime K (s_clock s), paced_start s)"
    by (simp add: ktime_get_ns_def paced_start_def)
  have f: "s_heap (s\<lparr>s_dest := DEIP\<rparr>) = s_heap s" "s_priv (s\<lparr>s_dest := DEIP\<rparr>) = s_priv s"
    "s_dest (s\<lparr>s_dest := DEIP\<rparr>) = DEIP"
    by simp_all
  have c: "\<not> (pkt_len (s_heap s) skb > k_mtu (t_kfifo (s_priv s)) \<and> skb_is_gso K skb \<and>
        skb_gso_validate_mac_len K skb (k_mtu (t_kfifo (s_priv s))))"
    using assms(1) by (simp add: paced_def)
  show ?thesis
    unfolding toks2 pre toks now
    by (simp only: f tsf_enqueue_def d Let_def k prod.case if_not_P [OF c] not_True_eq_False if_False simp_thms
        paced_start_simps)
qed

lemma tsf_rep_state:
  "tsf_rep K c s xs ys \<Longrightarrow> s_heap s1 = s_heap s \<Longrightarrow> s_priv s1 = s_priv s \<Longrightarrow> tsf_rep K c s1 xs ys"
  by (simp add: tsf_rep_def)

lemma tsf_enqueue_empty:
  assumes K: "inner_fifo K c" and rep: "tsf_rep K c s xs []" and paced: "paced K skb s"
  shows "tsf_enqueue K skb s = Inl NullDeref"
proof -
  have c: "c (t_qdisc (s_priv s)) = []" using rep by (simp add: tsf_rep_def)
  have pk: "q_peek K (t_qdisc (s_priv s)) (t_qdisc (s_priv s)) = None"
    using inner_fifoD(1) [OF K] c by simp
  let ?now = "ktime K (s_clock s)"
  let ?toks = "refill_u64 (s_priv s) ?now"
  from rep have b: "bucket (s_priv s)" by (simp add: tsf_rep_def)
  then have "unat ?toks \<le> unat (t_buffer (s_priv s))" by (simp add: refill_u64_unat)
  from tsf_rep_lt [OF rep this] have pos: "0 \<le> sint ?toks" by (simp add: sint_nonneg_iff)
  obtain r h q' where d: "q_dequeue_peeked K (s_heap s) (t_qdisc (s_priv s)) = (r, h, q')" by (rule prod_cases3)
  from inner_fifoD(2) [OF K d] have "r = None" by (simp add: c)
  then have "drain_loop K ?now ?toks ?toks None (paced_start s) = Some (Inl NullDeref)"
    using pos d by (subst drain_loop.simps) (simp add: tsf_kfifo_enqueue_def kfifo_enqueue_def)
  with tsf_enqueue_paced [OF paced refl refl refl refl] show ?thesis by (simp add: pk)
qed

lemma tsf_enqueue_moves:
  assumes K: "inner_fifo K c" and rep: "tsf_rep K c s xs (y # ys)" and paced: "paced K skb s"
    and new: "new_ok K s (xs @ y # ys) skb"
  defines "now \<equiv> ktime K (s_clock s)"
  defines "toks \<equiv> refill_u64 (s_priv s) now"
  shows "\<exists>moved rest out s2. y # ys = moved @ rest \<and>
    drain_post K c (t_rate (s_priv s)) (pkt_len (s_heap s)) now toks (paced_start s) xs moved rest out s2 \<and>
    (case out of
       Inl ret \<Rightarrow> tsf_enqueue K skb s = Inr (ret, s2)
     | Inr (toks', toks2', pre') \<Rightarrow> (\<exists>new kept ret s'. tsf_enqueue K skb s = Inr (ret, s') \<and>
         new_post K c (unat (l2t K (t_rate (s_priv s)) (pkt_len (s_heap s) skb))) now (unat toks') s2 skb
           (xs @ moved) rest new kept ret s'))"
proof -
  let ?rate = "t_rate (s_priv s)" and ?len = "pkt_len (s_heap s)"
  have c: "c (t_qdisc (s_priv s)) = y # ys" using rep by (simp add: tsf_rep_def)
  have pk: "q_peek K (t_qdisc (s_priv s)) (t_qdisc (s_priv s)) = Some y"
    using inner_fifoD(1) [OF K] c by simp
  from rep have b: "bucket (s_priv s)" by (simp add: tsf_rep_def)
  then have av: "unat toks \<le> unat (t_buffer (s_priv s))" by (simp add: refill_u64_unat toks_def)
  have rep1: "tsf_rep K c (paced_start s) xs (y # ys)" using rep by (rule tsf_rep_state) simp_all
  have av1: "unat toks \<le> unat (t_buffer (s_priv (paced_start s)))" using av by simp
  from drain_loop_post [OF K rep1 av1 refl refl, where now = now, unfolded paced_start_simps]
  obtain moved rest out s2 where
    l: "drain_loop K now toks (toks - l2t K ?rate (?len y)) (Some y) (paced_start s) = Some (Inr (out, s2))"
    and split: "y # ys = moved @ rest"
    and post: "drain_post K c ?rate ?len now toks (paced_start s) xs moved rest out s2"
    by blast
  have t: "tsf_enqueue K skb s = (case out of Inl ret \<Rightarrow> Inr (ret, s2)
      | Inr (toks', toks2', pre') \<Rightarrow> enqueue_new K skb (?len skb) now toks' toks2' pre' s2)"
    using tsf_enqueue_paced [OF paced refl refl refl refl] l
    by (simp add: pk now_def toks_def split: sum.splits)
  show ?thesis
  proof (cases out)
    case (Inl ret)
    show ?thesis
      by (rule exI [of _ moved], rule exI [of _ rest], rule exI [of _ out], rule exI [of _ s2])
        (use t split post Inl in simp)
  next
    case (Inr v)
    then obtain toks' toks2' pre' where out: "out = Inr (toks', toks2', pre')" by (cases v) auto
    from post have rep2: "tsf_rep K c s2 (xs @ moved) rest" and fr: "sch_frame (xs @ moved @ rest) (paced_start s) s2"
      and tk: "unat toks' \<le> unat toks" by (simp_all add: drain_post_def out)
    from fr have f: "t_rate (s_priv s2) = ?rate" "pkt_len (s_heap s2) = ?len"
      "t_buffer (s_priv s2) = t_buffer (s_priv s)"
      by (simp_all add: sch_frame_def heap_frame_def)
    have "nxt (s_heap s2) skb = nxt (s_heap s) skb"
      using fr new split by (simp add: sch_frame_def heap_frame_def new_ok_def)
    then have "new_ok K s2 ((xs @ moved) @ rest) skb"
      using new split f by (simp add: new_ok_def pkt_ok_def)
    from enqueue_new_post [OF K rep2 this, of toks' now toks2' pre']
    have "\<exists>new kept ret s'. tsf_enqueue K skb s = Inr (ret, s') \<and>
       new_post K c (unat (l2t K ?rate (?len skb))) now (unat toks') s2 skb (xs @ moved) rest new kept ret s'"
      using t tk av by (simp add: out f)
    then show ?thesis
      by (intro exI [of _ moved] exI [of _ rest] exI [of _ out] exI [of _ s2])
        (use split post in \<open>simp add: out\<close>)
  qed
qed

section \<open>The account of a call\<close>

lemma airtime_append [simp]: "airtime f r len (xs @ ys) = airtime f r len xs + airtime f r len ys"
  by (simp add: airtime_def)

text \<open>
  The packets \<open>ps\<close> are paid for: their cost is covered by \<open>avail\<close> tokens; either the bucket was updated
  at time \<open>now\<close> and holds at most the rest, or nothing was bought and it is untouched.
\<close>

definition spends :: "nat \<Rightarrow> (skb list \<Rightarrow> nat) \<Rightarrow> skb list \<Rightarrow> u64 \<Rightarrow> ('r, 'q) tsf_sched_data
    \<Rightarrow> ('r, 'q) tsf_sched_data \<Rightarrow> bool" where
  "spends avail cost ps now q q' \<longleftrightarrow> cost ps \<le> avail \<and>
     (t_t_c q' = now \<and> unat (t_tokens q') + cost ps \<le> avail \<or>
      ps = [] \<and> t_t_c q' = t_t_c q \<and> t_tokens q' = t_tokens q)"

lemma drain_post_spends:
  assumes "drain_post K c rate len now toks s xs moved rest out s'"
  shows "spends (unat toks) (airtime (l2t K) rate len) moved now (s_priv s) (s_priv s')"
  using assms by (cases "moved = []") (simp_all add: drain_post_def spends_def)

lemma new_post_spends:
  assumes "spends avail (airtime f rate len) moved now q (s_priv s)"
    and "new_post K c (unat (f rate (len skb))) now (avail - airtime f rate len moved) s skb xs ys new kept ret s'"
  shows "spends avail (airtime f rate len) (moved @ new) now q (s_priv s')"
  using assms by (auto simp: spends_def new_post_def split: if_splits)

text \<open>What a call with packets waiting does to queues and bucket.\<close>

lemma tsf_enqueue_step:
  assumes K: "inner_fifo K c" and rep: "tsf_rep K c s xs (y # ys)" and paced: "paced K skb s"
    and new: "new_ok K s (xs @ y # ys) skb"
  defines "now \<equiv> ktime K (s_clock s)"
  shows "\<exists>ret s' moved rest new waiting.
    tsf_enqueue K skb s = Inr (ret, s') \<and> y # ys = moved @ rest \<and> (new = [] \<or> new = [skb]) \<and>
    tsf_rep K c s' (xs @ moved @ new) waiting \<and>
    (waiting = rest \<or> new = [] \<and> waiting = rest @ [skb] \<or> ret = NET_XMIT_DROP \<and> new = [] \<and> waiting = tl rest) \<and>
    sch_frame (skb # xs @ y # ys) (paced_start s) s' \<and>
    spends (unat (refill_u64 (s_priv s) now)) (airtime (l2t K) (t_rate (s_priv s)) (pkt_len (s_heap s)))
      (moved @ new) now (s_priv s) (s_priv s')"
proof -
  let ?A = "airtime (l2t K) (t_rate (s_priv s)) (pkt_len (s_heap s))"
  let ?toks = "refill_u64 (s_priv s) now"
  from tsf_enqueue_moves [OF K rep paced new] obtain moved rest out s2 where
    split: "y # ys = moved @ rest"
    and post: "drain_post K c (t_rate (s_priv s)) (pkt_len (s_heap s)) now ?toks (paced_start s) xs moved rest out s2"
    and e: "case out of Inl ret \<Rightarrow> tsf_enqueue K skb s = Inr (ret, s2)
     | Inr (toks', toks2', pre') \<Rightarrow> (\<exists>new kept ret s'. tsf_enqueue K skb s = Inr (ret, s') \<and>
         new_post K c (unat (l2t K (t_rate (s_priv s)) (pkt_len (s_heap s) skb))) now (unat toks') s2 skb
           (xs @ moved) rest new kept ret s')" unfolding now_def by blast
  note sp = drain_post_spends [OF post, unfolded paced_start_simps]
  have fr: "sch_frame (xs @ moved @ rest) (paced_start s) s2" using post by (simp add: drain_post_def)
  show ?thesis
  proof (cases out)
    case (Inl ret)
    have "tsf_rep K c s2 (xs @ moved @ []) (tl rest)" and "ret = NET_XMIT_DROP"
      using post by (simp_all add: drain_post_def Inl)
    moreover have "sch_frame (skb # xs @ y # ys) (paced_start s) s2"
      using fr unfolding split by (auto simp: sch_frame_def heap_frame_def)
    moreover have "spends (unat ?toks) ?A (moved @ []) now (s_priv s) (s_priv s2)" using sp by simp
    ultimately show ?thesis using e split
      by (intro exI [of _ ret] exI [of _ s2] exI [of _ moved] exI [of _ rest] exI [of _ "[]"] exI [of _ "tl rest"])
        (simp add: Inl)
  next
    case (Inr v)
    obtain toks' toks2' pre' where out: "out = Inr (toks', toks2', pre')" using Inr by (cases v) auto
    have tk: "unat toks' = unat ?toks - ?A moved" using post by (simp add: drain_post_def out)
    from e obtain new kept ret s' where t: "tsf_enqueue K skb s = Inr (ret, s')"
      and np: "new_post K c (unat (l2t K (t_rate (s_priv s)) (pkt_len (s_heap s) skb))) now (unat ?toks - ?A moved) s2 skb
           (xs @ moved) rest new kept ret s'" unfolding tk [symmetric] by (auto simp: out)
    have rep': "tsf_rep K c s' (xs @ moved @ new) (rest @ kept)" and fr': "sch_frame (skb # (xs @ moved) @ rest) s2 s'"
      using np by (simp_all add: new_post_def)
    have nk: "new = [] \<and> kept = [skb] \<or> kept = [] \<and> (new = [] \<or> new = [skb])"
      using np by (auto simp: new_post_def split: if_splits)
    have "sch_frame (skb # xs @ y # ys) (paced_start s) s'"
      using fr fr' by (rule sch_frame_trans) (auto simp: split)
    moreover have "new = [] \<or> new = [skb]"
      and "rest @ kept = rest \<or> new = [] \<and> rest @ kept = rest @ [skb] \<or> ret = NET_XMIT_DROP \<and> new = [] \<and> rest @ kept = tl rest"
      using nk by auto
    moreover note new_post_spends [OF sp np]
    ultimately show ?thesis using t split rep' by blast
  qed
qed

end
