(* ===== verification/Tsf_Reader.thy ===== *)
theory Tsf_Reader
  imports Tsf_Bucket
begin

text \<open>
  The reader's side of the discipline: the busy wait of \<open>tsf_delay\<close> ends when the clock advances, and
  taking from the ring gives out its oldest packet or uses up the sleep of the reader's node; of the
  state it changes the ring, the watchdog and the clock, and nothing else.
\<close>

text \<open>What the busy wait needs of the clock: short sleeps end.\<close>

definition clock_advances :: "('r, 'q) kernel \<Rightarrow> bool" where
  "clock_advances K \<longleftrightarrow>
     (\<forall>i (d :: u64). unat d \<le> 1000000 \<longrightarrow> (\<exists>n. sint d \<le> sint (ktime K (Suc i + n) - ktime K i)))"

lemma delay_loop_ends:
  assumes "sint d \<le> sint (ktime K (s_clock s + n) - now)"
  shows "\<exists>m. delay_loop K now d s = Some (s\<lparr>s_clock := m\<rparr>) \<and> s_clock s \<le> m"
  using assms
proof (induction n arbitrary: s)
  case 0
  then show ?case by (subst delay_loop.simps) (auto simp: ktime_get_ns_def)
next
  case (Suc n)
  from Suc.IH [of "s\<lparr>s_clock := s_clock s + 1\<rparr>"] Suc.prems show ?case
    by (subst delay_loop.simps) (auto simp: ktime_get_ns_def intro: Suc_leD)
qed

lemma tsf_delay_ends:
  assumes "clock_advances K" and "unat d < 2 ^ 63"
  obtains m w where "tsf_delay K d s = Inr (s\<lparr>s_clock := m, s_priv := (s_priv s)\<lparr>t_watchdog := w\<rparr>\<rparr>)"
    and "s_clock s \<le> m"
    and "w = (if 1000000 < unat d then Some (ktime K (s_clock s) + d) else t_watchdog (s_priv s))"
proof (cases "1000000 < unat d")
  case True
  then have "sint d > 1000000" unfolding sint_small [OF assms(2)] by linarith
  then have "tsf_delay K d s = Inr (s\<lparr>s_clock := s_clock s + 1,
      s_priv := (s_priv s)\<lparr>t_watchdog := Some (ktime K (s_clock s) + d)\<rparr>\<rparr>)"
    by (simp add: tsf_delay_def ktime_get_ns_def qdisc_watchdog_schedule_ns_def upd_priv_def)
  then show ?thesis by (rule that) (use True in simp_all)
next
  case False
  then have "\<not> sint d > 1000000" unfolding sint_small [OF assms(2)] by linarith
  moreover from False assms(1) obtain n where "sint d \<le> sint (ktime K (Suc (s_clock s) + n) - ktime K (s_clock s))"
    unfolding clock_advances_def by (metis not_le)
  with delay_loop_ends [of d K "s\<lparr>s_clock := s_clock s + 1\<rparr>" n "ktime K (s_clock s)"] obtain m where
    "delay_loop K (ktime K (s_clock s)) d (s\<lparr>s_clock := s_clock s + 1\<rparr>) = Some (s\<lparr>s_clock := s_clock s + 1\<rparr>\<lparr>s_clock := m\<rparr>)"
    and "s_clock s + 1 \<le> m"
    by auto
  moreover from this(1) calculation have
    "tsf_delay K d s = Inr (s\<lparr>s_clock := m, s_priv := (s_priv s)\<lparr>t_watchdog := t_watchdog (s_priv s)\<rparr>\<rparr>)"
    by (simp add: tsf_delay_def ktime_get_ns_def)
  ultimately show ?thesis by (intro that [of "t_watchdog (s_priv s)" m]) (use False in simp_all)
qed

lemma dequeue_idle_awake:
  assumes "kf_rep h (t_kfifo (s_priv s)) r d ps" and "n_sleep_time (k_nodes (t_kfifo (s_priv s)) ! r) = 0"
  shows "dequeue_idle K s = Inr (None, s)"
  using deref_pread [OF assms(1)] assms(2) by (simp add: dequeue_idle_def Let_def)

lemma dequeue_idle_sleeps:
  assumes K: "clock_advances K" and rep: "kf_rep (s_heap s) (t_kfifo (s_priv s)) r d ps" and empty: "ps ! 0 = []"
    and sleep: "n_sleep_time (k_nodes (t_kfifo (s_priv s)) ! r) \<noteq> 0"
  shows "\<exists>k' m w. dequeue_idle K s = Inr (None, s\<lparr>s_clock := m, s_priv := (s_priv s)\<lparr>t_kfifo := k', t_watchdog := w\<rparr>\<rparr>) \<and>
    s_clock s \<le> m \<and> kf_rep (s_heap s) k' r d ps \<and> \<not> reader_sleeps k' \<and> k_rate k' = k_rate (t_kfifo (s_priv s))"
proof -
  let ?k = "t_kfifo (s_priv s)"
  let ?nd = "k_nodes ?k ! r"
  from kfifo_finish_node_rep [OF rep empty] obtain k' where
    fin: "kfifo_finish_node (k_pread ?k) ?k = Inr k'" and rep': "kf_rep (s_heap s) k' r d ps"
    and awake: "\<not> reader_sleeps k'" and rate: "k_rate k' = k_rate ?k" by blast
  have der: "deref ?k (k_pread ?k) = Inr ?nd" by (rule deref_pread [OF rep])
  have lock: "spin_lock ?k = Inr (?k\<lparr>k_lock := True\<rparr>)" using kf_unlocked [OF rep] by (simp add: spin_lock_def)
  have fin': "kfifo_finish_node (k_pread ?k) (?k\<lparr>k_lock := True\<rparr>) = Inr (k'\<lparr>k_lock := True\<rparr>)"
    using fin kf_pread [OF rep] kf_r [OF rep] by (auto simp: kfifo_finish_node_def deref_def upd_node_def)
  have unlock: "spin_unlock (k'\<lparr>k_lock := True\<rparr>) = k'"
    using kf_unlocked [OF rep'] by (simp add: spin_unlock_def)
  have "0 < length (k_nodes ?k)" using kf_N [OF rep] by linarith
  from kf_time [OF rep this] have "node_time ?nd" using kf_r [OF rep] by simp
  then have lt: "unat (n_sleep_time ?nd) < 2 ^ 63" by (simp add: node_time_def)
  have pkt: "n_pkt ?nd = 0" using empty kf_pkt_zero_pread [OF rep] by simp
  let ?s = "upd_priv (\<lambda>q. q\<lparr>t_kfifo := k'\<rparr>) s"
  obtain m w where dl: "tsf_delay K (n_sleep_time ?nd) ?s = Inr (?s\<lparr>s_clock := m, s_priv := (s_priv ?s)\<lparr>t_watchdog := w\<rparr>\<rparr>)"
    and m: "s_clock ?s \<le> m"
    using tsf_delay_ends [OF K lt] by blast
  have "dequeue_idle K s = Inr (None, ?s\<lparr>s_clock := m, s_priv := (s_priv ?s)\<lparr>t_watchdog := w\<rparr>\<rparr>)"
    using der pkt sleep lock fin' dl by (simp add: dequeue_idle_def Let_def unlock word_neq_0_conv)
  also have "?s\<lparr>s_clock := m, s_priv := (s_priv ?s)\<lparr>t_watchdog := w\<rparr>\<rparr> =
      s\<lparr>s_clock := m, s_priv := (s_priv s)\<lparr>t_kfifo := k', t_watchdog := w\<rparr>\<rparr>"
    by (simp add: upd_priv_def)
  finally show ?thesis using rep' awake rate m
    by (intro exI [of _ k'] exI [of _ m] exI [of _ w]) simp
qed

text \<open>The part of \<open>tsf_dequeue\<close> that takes from the ring.\<close>

definition ring_take :: "('r, 'q) kernel \<Rightarrow> ('r, 'q) sch_state \<Rightarrow> fault + skb option \<times> ('r, 'q) sch_state" where
  "ring_take K s = bindE (kfifo_dequeue (s_heap s) (t_kfifo (s_priv s))) (\<lambda>(res, k).
     (let s1 = upd_priv (\<lambda>q. q\<lparr>t_kfifo := k\<rparr>) s in
      if res = None then dequeue_idle K s1 else Inr (res, s1)))"

lemma tsf_dequeue_split:
  "tsf_dequeue K s =
     (case q_peek K (t_qdisc (s_priv s)) (t_test_qdisc (s_priv s)) of
        None \<Rightarrow> ring_take K s
      | Some skb \<Rightarrow>
          (case ip_saddr K skb of
             None \<Rightarrow> Inl NullDeref
           | Some a \<Rightarrow>
               if snprintf16 (pI4 K a) \<noteq> DEIP then
                 (case q_dequeue_peeked K (s_heap s) (t_test_qdisc (s_priv s)) of (res, h, q') \<Rightarrow>
                    Inr (res, upd_priv (\<lambda>q. q\<lparr>t_test_qdisc := q'\<rparr>) (s\<lparr>s_heap := h\<rparr>)))
               else ring_take K s))"
  unfolding tsf_dequeue_def ring_take_def Let_def ..

lemma kfifo_dequeue_waiting:
  assumes "kf_rep h k r d ps" and "waiting k r ps"
  shows "kfifo_dequeue h k = Inr (None, k)"
  using assms(2) kf_pkt_zero_pread [OF assms(1)]
  by (simp add: kfifo_dequeue_def deref_pread [OF assms(1)] waiting_def word_neq_0_conv)

lemma ring_take_step:
  assumes holds: "kf_holds (s_heap s) (t_kfifo (s_priv s)) xs" and K: "clock_advances K"
  shows "\<exists>res k' m w. ring_take K s = Inr (res, s\<lparr>s_clock := m, s_priv := (s_priv s)\<lparr>t_kfifo := k', t_watchdog := w\<rparr>\<rparr>) \<and>
    s_clock s \<le> m \<and> k_rate k' = k_rate (t_kfifo (s_priv s)) \<and>
    (res = None \<and> kf_holds (s_heap s) k' xs \<and>
       (xs \<noteq> [] \<longrightarrow> reader_sleeps (t_kfifo (s_priv s)) \<and> \<not> reader_sleeps k') \<or>
     (\<exists>x ys. xs = x # ys \<and> res = Some x \<and> kf_holds (s_heap s) k' ys))" (is "?P xs")
proof -
  let ?k = "t_kfifo (s_priv s)"
  have st: "upd_priv (\<lambda>q. q\<lparr>t_kfifo := k1\<rparr>) s =
      s\<lparr>s_clock := s_clock s, s_priv := (s_priv s)\<lparr>t_kfifo := k1, t_watchdog := t_watchdog (s_priv s)\<rparr>\<rparr>" for k1
    by (simp add: upd_priv_def)
  from holds obtain r d ps where rep: "kf_rep (s_heap s) ?k r d ps" and xs: "xs = concat ps"
    by (auto simp: kf_holds_def)
  from kfifo_dequeue_rep [OF rep] obtain res k1 r1 d1 ps1 where
    deq: "kfifo_dequeue (s_heap s) ?k = Inr (res, k1)" and rep1: "kf_rep (s_heap s) k1 r1 d1 ps1"
    and rate: "k_rate k1 = k_rate ?k"
    and res: "if waiting ?k r ps \<or> concat ps = [] then res = None \<and> concat ps1 = concat ps
      else res = Some (hd (concat ps)) \<and> concat ps1 = tl (concat ps)" by blast
  let ?s = "upd_priv (\<lambda>q. q\<lparr>t_kfifo := k1\<rparr>) s"
  have t: "ring_take K s = (if res = None then dequeue_idle K ?s else Inr (res, ?s))"
    by (cases res) (simp_all add: ring_take_def deq Let_def)
  have idle: "\<exists>k' m w. dequeue_idle K ?s = Inr (None, s\<lparr>s_clock := m, s_priv := (s_priv s)\<lparr>t_kfifo := k', t_watchdog := w\<rparr>\<rparr>) \<and>
      s_clock s \<le> m \<and> kf_rep (s_heap s) k' r2 d2 ps2 \<and> \<not> reader_sleeps k' \<and> k_rate k' = k_rate ?k"
    if "kf_rep (s_heap s) k1 r2 d2 ps2" "waiting k1 r2 ps2" for r2 d2 ps2
    using dequeue_idle_sleeps [OF K, of ?s r2 d2 ps2] that rate by (auto simp: waiting_def upd_priv_def)
  show ?thesis
  proof (cases "waiting ?k r ps")
    case True
    then have k1: "k1 = ?k" and "res = None" using kfifo_dequeue_waiting [OF rep True] deq by simp_all
    from idle [unfolded k1, OF rep True] obtain k' m w where
      "ring_take K s = Inr (None, s\<lparr>s_clock := m, s_priv := (s_priv s)\<lparr>t_kfifo := k', t_watchdog := w\<rparr>\<rparr>)"
      "s_clock s \<le> m" "kf_rep (s_heap s) k' r d ps" "\<not> reader_sleeps k'" "k_rate k' = k_rate ?k"
      using t \<open>res = None\<close> k1 by auto
    moreover from True have "reader_sleeps ?k" by (simp add: reader_sleeps_iff [OF rep])
    ultimately show ?thesis unfolding xs by blast
  next
    case awake: False
    show ?thesis
    proof (cases "xs = []")
      case False
      with awake res have "res = Some (hd xs)" and c: "concat ps1 = tl xs" unfolding xs by simp_all
      then have "ring_take K s = Inr (Some (hd xs), ?s)" by (simp add: t)
      moreover have "xs = hd xs # tl xs" using False by simp
      ultimately show ?thesis using kf_holdsI [OF rep1 c] rate unfolding st by blast
    next
      case True
      with res have rn: "res = None" and c: "concat ps1 = xs" unfolding xs by (simp_all del: concat_eq_Nil_conv)
      with True have e: "ps1 ! 0 = []" using kf_length [OF rep1] kf_N [OF rep1] by (cases ps1) auto
      show ?thesis
      proof (cases "waiting k1 r1 ps1")
        case True
        from idle [OF rep1 True] obtain k' m w where
          "ring_take K s = Inr (None, s\<lparr>s_clock := m, s_priv := (s_priv s)\<lparr>t_kfifo := k', t_watchdog := w\<rparr>\<rparr>)"
          "s_clock s \<le> m" "k_rate k' = k_rate ?k" "kf_holds (s_heap s) k' xs"
          using t rn c by (auto dest: kf_holdsI)
        with \<open>xs = []\<close> show ?thesis by blast
      next
        case False
        have "dequeue_idle K ?s = Inr (None, ?s)"
          by (rule dequeue_idle_awake) (use rep1 e False in \<open>auto simp: waiting_def\<close>)
        with rn have "ring_take K s = Inr (None, ?s)" by (simp add: t)
        with \<open>xs = []\<close> kf_holdsI [OF rep1 c] rate show ?thesis unfolding st by blast
      qed
    qed
  qed
qed

end
