(* ===== verification/Tsf_Props.thy ===== *)
theory Tsf_Props
  imports Tsf_Reader
begin

text \<open>
  What the operations of the queueing discipline promise, and where they break: the refill is the ideal
  token bucket, every enqueue conforms to it, dequeue gives out the ring's oldest packet or puts the
  reader to sleep, a change of parameters takes effect as a whole; an empty inner queue faults, a small
  packet overtakes, a full ring loses two packets, a failed allocation leaves the tree locked and a dump
  cannot be read back. The witnesses run on \<open>ex_kernel\<close>, a kernel whose inner queues are lists.
\<close>

section \<open>A concrete kernel\<close>

text \<open>
  The inner queues are lists, every packet goes to or comes from the limited host unless its number
  is 50 or more, and every reading of the clock is one second after the one before.
\<close>

definition ex_kernel :: "(unit, skb list) kernel" where
  "ex_kernel = \<lparr>l2t = ex_l2t, ktime = (\<lambda>n. 1000000000 * of_nat (Suc n)),
     q_peek = (\<lambda>_ q. case q of [] \<Rightarrow> None | x # _ \<Rightarrow> Some x),
     q_enqueue = (\<lambda>skb h q. (NET_XMIT_SUCCESS, h, q @ [skb])),
     q_dequeue_peeked = (\<lambda>h q. case q of [] \<Rightarrow> (None, h, []) | x # xs \<Rightarrow> (Some x, set_nxt x None h, xs)),
     net_xmit_drop_count = (\<lambda>r. r = NET_XMIT_DROP),
     ip_daddr = (\<lambda>p. Some (if p < 50 then 1 else 2)), ip_saddr = (\<lambda>p. Some (if p < 50 then 1 else 2)),
     pI4 = (\<lambda>a. if a = 1 then DEIP else ''10.0.0.1''),
     skb_is_gso = (\<lambda>_. False), skb_gso_validate_mac_len = (\<lambda>_ _. False),
     skb_gso_segment = (\<lambda>_ h. (None, h))\<rparr>"

definition ex_priv :: "u64 \<Rightarrow> u64 \<Rightarrow> skb list \<Rightarrow> (unit, skb list) tsf_sched_data" where
  "ex_priv buffer tokens ys = \<lparr>t_ttime = 4, t_tlen = 4000, t_tokens = tokens, t_t_c = 1000000000, t_kfifo = ex_ring,
     t_rate = (), t_max_size = 0, t_buffer = buffer, t_limit = 4000, t_qdisc = ys, t_test_qdisc = [],
     t_watchdog = None\<rparr>"

definition ex_state :: "u64 \<Rightarrow> u64 \<Rightarrow> skb list \<Rightarrow> (unit, skb list) sch_state" where
  "ex_state buffer tokens ys = \<lparr>s_heap = ex_heap, s_priv = ex_priv buffer tokens ys, s_qlen = 1, s_backlog = 100,
     s_drops = 0, s_overlimits = 0, s_dest = '''', s_to_free = [], s_consumed = [], s_tree_lock = False, s_clock = 0,
     s_reduced = [], s_put = []\<rparr>"

lemma ex_inner: "inner_fifo ex_kernel (\<lambda>q. q)"
  unfolding inner_fifo_def ex_kernel_def
  by (auto simp: heap_frame_def set_nxt_def split: list.splits)

lemma ex_rep:
  assumes "distinct ys" and "buffer = 2000000" and "tokens = 0 \<or> tokens = 1000000"
  shows "tsf_rep ex_kernel (\<lambda>q. q) (ex_state buffer tokens ys) [] ys"
  using assms ex_ring_holds
  by (auto simp: tsf_rep_def ex_state_def ex_priv_def bucket_def pkt_ok_def ex_kernel_def ex_l2t_def ex_heap_def
      ex_ring_eq blank_ring_def)

lemma ex_paced: "skb < 50 \<Longrightarrow> paced ex_kernel skb (ex_state buffer tokens ys)"
  by (simp add: paced_def next_dest_def ex_kernel_def snprintf16_def DEIP_def)

lemma ex_new: "skb \<notin> set zs \<Longrightarrow> new_ok ex_kernel (ex_state buffer tokens ys) zs skb"
  by (simp add: new_ok_def pkt_ok_def ex_kernel_def ex_state_def ex_priv_def ex_heap_def ex_l2t_def)

section \<open>Enqueue\<close>

text \<open>
  C12. The refill is the ideal token bucket. With the bucket in range, whatever the clock says, the
  tokens \<open>tsf_enqueue\<close> starts from are the stored tokens plus the nanoseconds since the check point,
  capped at the bucket's depth; no intermediate value wraps.
\<close>

theorem tsf_refill_ideal:
  assumes "bucket q"
  shows "unat (refill_u64 q now) = min (unat (t_buffer q)) (unat (t_tokens q) + unat (now - t_t_c q)) \<and>
    sint (refill_u64 q now) = int (unat (refill_u64 q now))"
proof -
  have "unat (refill_u64 q now) \<le> unat (t_buffer q)" by (simp add: refill_u64_unat [OF assms])
  with assms have "unat (refill_u64 q now) < 2 ^ 63" by (simp add: bucket_def)
  then show ?thesis using refill_u64_unat [OF assms] sint_small by blast
qed

theorem tsf_refill_ideal_witness:
  "unat (refill_u64 (ex_priv 2000000 5 []) 1000000100) = 105"
  using tsf_refill_ideal [of "ex_priv 2000000 5 []" 1000000100] by (simp add: bucket_def ex_priv_def)

text \<open>
  C6. Every call conforms to the token bucket. With packets waiting, a call of \<open>tsf_enqueue\<close> with a
  paced packet ends without a fault and keeps the invariant: a first part of the waiting packets and
  perhaps the new one move to the ring, in that order, and their air time is covered by the tokens
  refilled up to now; what is left, after the clock has become the check point, is at most the
  difference; a call that moves nothing leaves the bucket alone or only takes from it.
\<close>

theorem tsf_enqueue_conforms:
  assumes "inner_fifo K c" and "tsf_rep K c s xs (y # ys)" and "paced K skb s"
    and "new_ok K s (xs @ y # ys) skb"
  shows "\<exists>ret s' moved rest new waiting.
    tsf_enqueue K skb s = Inr (ret, s') \<and> y # ys = moved @ rest \<and> (new = [] \<or> new = [skb]) \<and>
    tsf_rep K c s' (xs @ moved @ new) waiting \<and>
    (waiting = rest \<or> waiting = rest @ [skb] \<or> ret = NET_XMIT_DROP \<and> new = [] \<and> waiting = tl rest) \<and>
    (let now = ktime K (s_clock s);
         avail = min (unat (t_buffer (s_priv s))) (unat (t_tokens (s_priv s)) + unat (now - t_t_c (s_priv s)));
         need = airtime (l2t K) (t_rate (s_priv s)) (pkt_len (s_heap s)) (moved @ new)
     in need \<le> avail \<and>
        (t_t_c (s_priv s') = now \<and> unat (t_tokens (s_priv s')) + need \<le> avail \<or>
         moved @ new = [] \<and> t_t_c (s_priv s') = t_t_c (s_priv s) \<and> t_tokens (s_priv s') = t_tokens (s_priv s)))"
proof -
  let ?now = "ktime K (s_clock s)"
  from assms(2) have "bucket (s_priv s)" by (simp add: tsf_rep_def)
  note av = refill_u64_unat [OF this, of ?now]
  from tsf_enqueue_step [OF assms] obtain ret s' moved rest new waiting where
    "tsf_enqueue K skb s = Inr (ret, s')" "y # ys = moved @ rest" "new = [] \<or> new = [skb]"
    "tsf_rep K c s' (xs @ moved @ new) waiting"
    "waiting = rest \<or> waiting = rest @ [skb] \<or> ret = NET_XMIT_DROP \<and> new = [] \<and> waiting = tl rest"
    and sp: "spends (unat (refill_u64 (s_priv s) ?now)) (airtime (l2t K) (t_rate (s_priv s)) (pkt_len (s_heap s)))
      (moved @ new) ?now (s_priv s) (s_priv s')" by blast
  with sp [unfolded spends_def av] show ?thesis unfolding Let_def by blast
qed

theorem tsf_enqueue_conforms_witness:
  "\<exists>ret s' moved rest. tsf_enqueue ex_kernel 7 (ex_state 2000000 0 [5]) = Inr (ret, s') \<and> [5] = moved @ rest"
proof -
  have "tsf_rep ex_kernel (\<lambda>q. q) (ex_state 2000000 0 [5]) [] [5]" by (rule ex_rep) simp_all
  moreover have "paced ex_kernel 7 (ex_state 2000000 0 [5])" by (rule ex_paced) simp
  moreover have "new_ok ex_kernel (ex_state 2000000 0 [5]) ([] @ [5]) 7" by (rule ex_new) simp
  ultimately show ?thesis using tsf_enqueue_conforms [OF ex_inner] by blast
qed

text \<open>
  A paced packet that meets an empty inner queue makes the code follow a null pointer. The loop
  \<open>while (toks2 >= 0)\<close> is entered with no waiting packet and passes the null result of
  \<open>qdisc_dequeue_peeked\<close> to \<open>kfifo_enqueue\<close>, whose first statement reads through it. With the bucket
  in range, \<open>tsf_enqueue\<close> of a paced packet faults exactly when the inner queue is empty.
\<close>

theorem tsf_enqueue_faults_iff:
  assumes "inner_fifo K c" and "tsf_rep K c s xs ys" and "paced K skb s" and "new_ok K s (xs @ ys) skb"
  shows "(tsf_enqueue K skb s = Inl NullDeref \<longleftrightarrow> ys = []) \<and>
    ((\<exists>ret s'. tsf_enqueue K skb s = Inr (ret, s')) \<longleftrightarrow> ys \<noteq> [])"
proof (cases ys)
  case Nil
  with assms(2) have "tsf_rep K c s xs []" by simp
  from tsf_enqueue_empty [OF assms(1) this assms(3)] show ?thesis by (simp add: Nil)
next
  case (Cons y zs)
  from assms(2,4) have "tsf_rep K c s xs (y # zs)" and "new_ok K s (xs @ y # zs) skb" by (simp_all add: Cons)
  from tsf_enqueue_moves [OF assms(1) this(1) assms(3) this(2)]
  have "\<exists>ret s'. tsf_enqueue K skb s = Inr (ret, s')"
    by (elim exE conjE) (auto split: sum.splits)
  then show ?thesis by (auto simp: Cons)
qed

theorem tsf_enqueue_faults_iff_witness:
  "tsf_enqueue ex_kernel 7 (ex_state 2000000 0 []) = Inl NullDeref"
proof -
  have "tsf_rep ex_kernel (\<lambda>q. q) (ex_state 2000000 0 []) [] []" by (rule ex_rep) simp_all
  moreover have "paced ex_kernel 7 (ex_state 2000000 0 [])" by (rule ex_paced) simp
  moreover have "new_ok ex_kernel (ex_state 2000000 0 []) ([] @ []) 7" by (rule ex_new) simp
  ultimately show ?thesis using tsf_enqueue_faults_iff [OF ex_inner] by blast
qed

text \<open>
  C14. A small packet overtakes the packets that wait. When the tokens do not pay for the first waiting
  packet but do pay for the new one, the new packet is offered to the ring at once (the code tests
  \<open>toks\<close> and not \<open>toks2\<close>), and the packets that were waiting go on waiting. It enters the ring ahead of
  them exactly when its bytes fit and there is a node for it; otherwise it is dropped. In both cases the
  tokens have been paid.
\<close>

theorem tsf_enqueue_overtakes:
  assumes "inner_fifo K c" and "tsf_rep K c s (concat ps) (y # ys)" and "paced K skb s"
    and "new_ok K s (concat ps @ y # ys) skb" and "kf_rep (s_heap s) (t_kfifo (s_priv s)) r d ps"
    and "avail = unat (refill_u64 (s_priv s) (ktime K (s_clock s)))"
    and "need = unat (l2t K (t_rate (s_priv s)) (pkt_len (s_heap s) skb))"
    and "avail < unat (l2t K (t_rate (s_priv s)) (pkt_len (s_heap s) y))" and "need \<le> avail"
    and "room = (unat (k_slen (t_kfifo (s_priv s))) + unat (pkt_len (s_heap s) skb) \<le> unat (k_total_len (t_kfifo (s_priv s))) \<and>
      \<not> (d = 0 \<and> ps ! 0 \<noteq> []) \<and>
      (need \<le> write_left (t_kfifo (s_priv s)) \<or> d + (need div 1000000 + 1) < length ps))"
  shows "\<exists>s'. tsf_enqueue K skb s = Inr (if room then NET_XMIT_SUCCESS else NET_XMIT_DROP, s') \<and>
    tsf_rep K c s' (if room then concat ps @ [skb] else concat ps) (y # ys) \<and>
    unat (t_tokens (s_priv s')) = avail - need"
proof -
  let ?now = "ktime K (s_clock s)" and ?rate = "t_rate (s_priv s)" and ?len = "pkt_len (s_heap s)"
  let ?k = "t_kfifo (s_priv s)" and ?s1 = "paced_start s"
  let ?toks = "refill_u64 (s_priv s) ?now"
  let ?t2 = "?toks - l2t K ?rate (?len y)"
  from assms(2) have b: "bucket (s_priv s)" and cq: "c (t_qdisc (s_priv s)) = y # ys"
    and kr: "k_rate ?k = ?rate" by (simp_all add: tsf_rep_def)
  have rep1: "tsf_rep K c ?s1 (concat ps) (y # ys)" using assms(2) by (rule tsf_rep_state) simp_all
  have av: "unat ?toks \<le> unat (t_buffer (s_priv ?s1))" using b by (simp add: refill_u64_unat)
  have new: "skb \<notin> set (concat ps @ y # ys)" "pkt_ok K ?rate (s_heap s) skb" "nxt (s_heap s) skb = None"
    using assms(4) by (simp_all add: new_ok_def)
  have pk: "q_peek K (t_qdisc (s_priv s)) (t_qdisc (s_priv s)) = Some y" using inner_fifoD(1) [OF assms(1)] cq by simp
  have "drain_loop K ?now ?toks ?t2 (Some y) ?s1 = Some (Inr (Inr (?toks, ?t2, Some y), ?s1))"
    by (rule drain_loop_stop [THEN conjunct1, OF rep1 av]) (use assms(6,8) in simp_all)
  with tsf_enqueue_paced [OF assms(3) refl refl refl refl, unfolded pk option.case]
  have e: "tsf_enqueue K skb s = enqueue_new K skb (?len skb) ?now ?toks ?t2 (Some y) ?s1" by simp
  from enqueue_new_ring [OF rep1 _ _ _ av, of skb ?now ?t2 "Some y"] new assms(6,7,9) obtain nw ret s' where
    n: "enqueue_new K skb (?len skb) ?now ?toks ?t2 (Some y) ?s1 = Inr (ret, s')"
    and post: "new_post K c need ?now avail ?s1 skb (concat ps) (y # ys) nw [] ret s'" by auto
  then have out: "nw = [skb] \<and> ret = NET_XMIT_SUCCESS \<or> nw = [] \<and> ret = NET_XMIT_DROP"
    and rep': "tsf_rep K c s' (concat ps @ nw) (y # ys)" and tk: "unat (t_tokens (s_priv s')) = avail - need"
    using assms(9) by (auto simp: new_post_def)
  have ok: "kf_ok (l2t K) (s_heap s) ?k (concat ps) skb" using new kr by (simp add: kf_ok_def pkt_ok_def)
  have ne: "NET_XMIT_DROP \<noteq> NET_XMIT_SUCCESS" by simp
  have "0 \<le> sint (?toks - l2t K ?rate (?len skb))"
    using tsf_rep_lt [OF rep1 av] new(2) assms(6,7,9) by (simp add: sint_diff_nonneg pkt_ok_def)
  then have "ret = NET_XMIT_SUCCESS \<longleftrightarrow> (\<exists>h' k'. kfifo_enqueue (l2t K) (Some skb) (s_heap s) ?k = Inr (NET_XMIT_SUCCESS, h', k'))"
    using n by (auto simp: enqueue_new_def tsf_kfifo_enqueue_def Let_def bindE_def split: sum.splits if_splits prod.splits)
  also have "\<dots> \<longleftrightarrow> room" unfolding kfifo_takes_iff [OF assms(5) ok] assms(10) by (simp add: kr assms(7) Let_def)
  finally have "ret = (if room then NET_XMIT_SUCCESS else NET_XMIT_DROP)" and "nw = (if room then [skb] else [])"
    using out ne by auto
  with e n rep' tk show ?thesis by auto
qed

theorem tsf_enqueue_overtakes_witness:
  "\<exists>s'. tsf_enqueue ex_kernel 7 ((ex_state 2000000 1000000 [5])\<lparr>s_heap := ex_heap\<lparr>pkt_len := (\<lambda>_. 100)(5 := 1000)\<rparr>\<rparr>) =
    Inr (NET_XMIT_SUCCESS, s') \<and> tsf_rep ex_kernel (\<lambda>q. q) s' [7] [5]"
proof -
  let ?s = "(ex_state 2000000 1000000 [5])\<lparr>s_heap := ex_heap\<lparr>pkt_len := (\<lambda>_. 100)(5 := 1000)\<rparr>\<rparr>"
  let ?ps = "[[], [], [], []] :: skb list list"
  have rep: "tsf_rep ex_kernel (\<lambda>q. q) ?s (concat ?ps) [5]"
    using ex_ring_holds by (simp add: tsf_rep_def ex_state_def ex_priv_def bucket_def pkt_ok_def ex_kernel_def
        ex_l2t_def ex_ring_eq blank_ring_def)
  have paced: "paced ex_kernel 7 ?s"
    by (simp add: paced_def next_dest_def ex_kernel_def snprintf16_def DEIP_def)
  have new: "new_ok ex_kernel ?s (concat ?ps @ [5]) 7"
    by (simp add: new_ok_def pkt_ok_def ex_kernel_def ex_state_def ex_priv_def ex_heap_def ex_l2t_def)
  have ring: "kf_rep (s_heap ?s) (t_kfifo (s_priv ?s)) 0 0 ?ps"
    using ex_ring_rep(1) by (simp add: ex_state_def ex_priv_def)
  have "unat (refill_u64 (s_priv ?s) (ktime ex_kernel (s_clock ?s))) = 1000000"
    by (subst refill_u64_unat) (simp_all add: bucket_def ex_state_def ex_priv_def ex_kernel_def)
  moreover have "unat (l2t ex_kernel (t_rate (s_priv ?s)) (pkt_len (s_heap ?s) 5)) = 8000000"
    "unat (l2t ex_kernel (t_rate (s_priv ?s)) (pkt_len (s_heap ?s) 7)) = 800000"
    by (simp_all add: ex_kernel_def ex_l2t_def)
  moreover have "unat (k_slen (t_kfifo (s_priv ?s))) + unat (pkt_len (s_heap ?s) 7) \<le> unat (k_total_len (t_kfifo (s_priv ?s)))"
    "write_left (t_kfifo (s_priv ?s)) = 1000000"
    using ex_ring_rep by (simp_all add: ex_state_def ex_priv_def ex_ring_eq blank_ring_def)
  ultimately show ?thesis
    using tsf_enqueue_overtakes [OF ex_inner rep paced new ring refl refl _ _ refl] by (simp, blast)
qed

text \<open>
  C15. A full ring loses two packets for one call. When the tokens pay for the first waiting packet
  but its bytes no longer fit into the ring, that packet has already left the inner queue: the call
  returns \<open>NET_XMIT_DROP\<close> and afterwards neither it nor the new packet is in the ring, in the inner
  queue or on the list of packets to free.
\<close>

theorem tsf_enqueue_loses_two:
  assumes "inner_fifo K c" and "tsf_rep K c s xs (y # ys)" and "paced K skb s"
    and "unat (l2t K (t_rate (s_priv s)) (pkt_len (s_heap s) y)) \<le> unat (refill_u64 (s_priv s) (ktime K (s_clock s)))"
    and "ucast (pkt_len (s_heap s) y) + k_slen (t_kfifo (s_priv s)) > k_total_len (t_kfifo (s_priv s))"
  shows "\<exists>s'. tsf_enqueue K skb s = Inr (NET_XMIT_DROP, s') \<and> tsf_rep K c s' xs ys \<and> s_to_free s' = s_to_free s"
proof -
  let ?now = "ktime K (s_clock s)"
  let ?toks = "refill_u64 (s_priv s) ?now" and ?need = "l2t K (t_rate (s_priv s)) (pkt_len (s_heap s) y)"
  from assms(2) have cq: "c (t_qdisc (s_priv s)) = y # ys" and b: "bucket (s_priv s)" by (simp_all add: tsf_rep_def)
  have pk: "q_peek K (t_qdisc (s_priv s)) (t_qdisc (s_priv s)) = Some y"
    using inner_fifoD(1) [OF assms(1)] cq by simp
  have rep1: "tsf_rep K c (paced_start s) xs (y # ys)" using assms(2) by (rule tsf_rep_state) simp_all
  from assms(1) rep1 show ?thesis
  proof (cases rule: drain_turn)
    case (1 h q' s2 ret)
    have "pkt_len h = pkt_len (s_heap s)"
      using inner_fifoD(2) [OF assms(1) 1(1)] by (simp add: heap_frame_def)
    with 1(2) assms(5) have ret: "ret = NET_XMIT_DROP" and tf: "s_to_free s2 = s_to_free s"
      by (auto simp: tsf_kfifo_enqueue_def kfifo_enqueue_def Let_def)
    have lt: "unat ?toks < 2 ^ 63" using assms(2) by (rule tsf_rep_lt) (simp add: refill_u64_unat [OF b])
    moreover have "unat ?need < 2 ^ 63" using assms(2) by (simp add: tsf_rep_def pkt_ok_def)
    ultimately have "0 \<le> sint (?toks - ?need)" using assms(4) by (simp add: sint_diff_nonneg)
    then have "drain_loop K ?now ?toks (?toks - ?need) (Some y) (paced_start s) = Some (Inr (Inl NET_XMIT_DROP, count_drop K NET_XMIT_DROP s2))"
      using 1(1,2) ret by (subst drain_loop.simps) simp
    moreover note tsf_enqueue_paced [OF assms(3) refl refl refl refl, unfolded pk option.case]
    ultimately show ?thesis using 1(3) ret tf by (auto intro: tsf_rep_count_drop)
  qed
qed

theorem tsf_enqueue_loses_two_witness:
  "\<exists>s'. tsf_enqueue ex_kernel 7 ((ex_state 100000000 100000000 [5])\<lparr>s_heap := ex_heap\<lparr>pkt_len := (\<lambda>_. 100)(5 := 5000)\<rparr>\<rparr>) =
     Inr (NET_XMIT_DROP, s') \<and> tsf_rep ex_kernel (\<lambda>q. q) s' [] [] \<and> s_to_free s' = []"
proof -
  let ?s = "(ex_state 100000000 100000000 [5])\<lparr>s_heap := ex_heap\<lparr>pkt_len := (\<lambda>_. 100)(5 := 5000)\<rparr>\<rparr>"
  have rep: "tsf_rep ex_kernel (\<lambda>q. q) ?s [] [5]"
    using ex_ring_holds by (simp add: tsf_rep_def ex_state_def ex_priv_def bucket_def pkt_ok_def ex_kernel_def
        ex_l2t_def ex_ring_eq blank_ring_def)
  moreover have "paced ex_kernel 7 ?s"
    by (simp add: paced_def next_dest_def ex_kernel_def snprintf16_def DEIP_def)
  moreover have "unat (refill_u64 (s_priv ?s) (ktime ex_kernel (s_clock ?s))) = 100000000"
    by (subst refill_u64_unat) (simp_all add: bucket_def ex_state_def ex_priv_def ex_kernel_def)
  then have "unat (l2t ex_kernel (t_rate (s_priv ?s)) (pkt_len (s_heap ?s) 5)) \<le>
      unat (refill_u64 (s_priv ?s) (ktime ex_kernel (s_clock ?s)))"
    by (simp add: ex_kernel_def ex_l2t_def)
  moreover have "ucast (pkt_len (s_heap ?s) 5) + k_slen (t_kfifo (s_priv ?s)) > k_total_len (t_kfifo (s_priv ?s))"
    by (simp add: ex_state_def ex_priv_def ex_ring_eq blank_ring_def)
  moreover have "s_to_free ?s = []" by (simp add: ex_state_def)
  ultimately show ?thesis using tsf_enqueue_loses_two [OF ex_inner rep] by metis
qed

text \<open>
  Other traffic is not touched. A packet for any other host goes to the test queue: the ring, the
  tokens, the inner queue, the clock and the counters stay as they were, and the result is the test
  queue's.
\<close>

theorem tsf_enqueue_other_host:
  assumes "next_dest K skb s \<noteq> DEIP" and "q_enqueue K skb (s_heap s) (t_test_qdisc (s_priv s)) = (ret, h, q')"
  shows "\<exists>s'. tsf_enqueue K skb s = Inr (ret, s') \<and> s_priv s' = (s_priv s)\<lparr>t_test_qdisc := q'\<rparr> \<and>
    s_heap s' = h \<and> s_qlen s' = s_qlen s \<and> s_backlog s' = s_backlog s \<and> s_clock s' = s_clock s"
proof -
  obtain s0 where s0: "(case ip_daddr K skb of None \<Rightarrow> s | Some a \<Rightarrow> s\<lparr>s_dest := snprintf16 (pI4 K a)\<rparr>) = s0"
    and f: "s_dest s0 = next_dest K skb s" "s_priv s0 = s_priv s" "s_heap s0 = s_heap s"
      "s_qlen s0 = s_qlen s" "s_backlog s0 = s_backlog s" "s_clock s0 = s_clock s"
    by (cases "ip_daddr K skb") (auto simp: next_dest_def)
  show ?thesis
    using assms by (auto simp: tsf_enqueue_def s0 f Let_def)
qed

theorem tsf_enqueue_other_host_witness:
  "\<exists>s'. tsf_enqueue ex_kernel 60 (ex_state 2000000 0 [5]) = Inr (NET_XMIT_SUCCESS, s') \<and>
     s_priv s' = (ex_priv 2000000 0 [5])\<lparr>t_test_qdisc := [60]\<rparr>"
proof -
  have "next_dest ex_kernel 60 (ex_state 2000000 0 [5]) \<noteq> DEIP"
    by (simp add: next_dest_def ex_kernel_def snprintf16_def DEIP_def)
  moreover have "q_enqueue ex_kernel 60 (s_heap (ex_state 2000000 0 [5])) (t_test_qdisc (s_priv (ex_state 2000000 0 [5]))) =
      (NET_XMIT_SUCCESS, ex_heap, [60])"
    by (simp add: ex_kernel_def ex_state_def ex_priv_def)
  moreover have "s_priv (ex_state 2000000 0 [5]) = ex_priv 2000000 0 [5]" by (simp add: ex_state_def)
  ultimately show ?thesis using tsf_enqueue_other_host by metis
qed

section \<open>Dequeue\<close>

lemma ex_clock: "clock_advances ex_kernel"
  unfolding clock_advances_def
proof (intro allI impI)
  fix i and d :: u64
  assume d: "unat d \<le> 1000000"
  have "ktime ex_kernel (Suc i + 0) - ktime ex_kernel i = 1000000000"
    by (simp add: ex_kernel_def algebra_simps)
  then have "sint (ktime ex_kernel (Suc i + 0) - ktime ex_kernel i) = 1000000000" by simp
  moreover have "sint d = int (unat d)" using d by (intro sint_small) simp
  ultimately have "sint d \<le> sint (ktime ex_kernel (Suc i + 0) - ktime ex_kernel i)" using d by linarith
  then show "\<exists>n. sint d \<le> sint (ktime ex_kernel (Suc i + n) - ktime ex_kernel i)" by (rule exI)
qed

text \<open>
  C7. Dequeue takes the oldest packet of the ring or puts the reader to sleep. With no test packet
  waiting and a clock that advances, \<open>tsf_dequeue\<close> returns without a fault: it gives out the oldest
  packet of the ring, or nothing, the contents unchanged and the sleep of the reader's node used up (a
  sleep over one millisecond on the watchdog, a shorter one in the busy loop, which ends), so that no
  two calls in a row come back empty from a ring that holds packets. The discipline's packet and byte
  counters are never decreased by it.
\<close>

theorem tsf_dequeue_contract:
  assumes "kf_holds (s_heap s) (t_kfifo (s_priv s)) xs" and "clock_advances K"
    and "q_peek K (t_qdisc (s_priv s)) (t_test_qdisc (s_priv s)) = None"
  shows "\<exists>res s'. tsf_dequeue K s = Inr (res, s') \<and>
    (res = None \<and> kf_holds (s_heap s') (t_kfifo (s_priv s')) xs \<and>
       (xs \<noteq> [] \<longrightarrow> reader_sleeps (t_kfifo (s_priv s)) \<and> \<not> reader_sleeps (t_kfifo (s_priv s'))) \<or>
     (\<exists>x ys. xs = x # ys \<and> res = Some x \<and> kf_holds (s_heap s') (t_kfifo (s_priv s')) ys)) \<and>
    s_qlen s' = s_qlen s \<and> s_backlog s' = s_backlog s \<and> t_tokens (s_priv s') = t_tokens (s_priv s)"
proof -
  from ring_take_step [OF assms(1,2)] obtain res k' m w where
    "ring_take K s = Inr (res, s\<lparr>s_clock := m, s_priv := (s_priv s)\<lparr>t_kfifo := k', t_watchdog := w\<rparr>\<rparr>)"
    and "res = None \<and> kf_holds (s_heap s) k' xs \<and>
       (xs \<noteq> [] \<longrightarrow> reader_sleeps (t_kfifo (s_priv s)) \<and> \<not> reader_sleeps k') \<or>
     (\<exists>x ys. xs = x # ys \<and> res = Some x \<and> kf_holds (s_heap s) k' ys)" by blast
  then show ?thesis
    by (intro exI [of _ res] exI [of _ "s\<lparr>s_clock := m, s_priv := (s_priv s)\<lparr>t_kfifo := k', t_watchdog := w\<rparr>\<rparr>"])
      (simp add: tsf_dequeue_split assms(3))
qed

theorem tsf_dequeue_contract_witness:
  "\<exists>s'. tsf_dequeue ex_kernel ((ex_state 2000000 0 [])\<lparr>s_priv := (ex_priv 2000000 0 [])\<lparr>t_kfifo := ex_ring7\<rparr>\<rparr>) = Inr (Some 7, s') \<and>
     kf_holds (s_heap s') (t_kfifo (s_priv s')) []"
proof -
  let ?s = "(ex_state 2000000 0 [])\<lparr>s_priv := (ex_priv 2000000 0 [])\<lparr>t_kfifo := ex_ring7\<rparr>\<rparr>"
  have h: "kf_holds (s_heap ?s) (t_kfifo (s_priv ?s)) [7]" using ex_ring7_holds by (simp add: ex_state_def)
  note ex_clock
  moreover have "q_peek ex_kernel (t_qdisc (s_priv ?s)) (t_test_qdisc (s_priv ?s)) = None"
    by (simp add: ex_kernel_def ex_priv_def)
  moreover have "\<not> reader_sleeps ex_ring7"
    using reader_sleeps_iff [OF ex_ring7_rep] by (simp add: waiting_def)
  then have "\<not> reader_sleeps (t_kfifo (s_priv ?s))" by simp
  ultimately show ?thesis using tsf_dequeue_contract [OF h] by fastforce
qed

section \<open>Changing the parameters\<close>

text \<open>The table \<open>tb\<close> the kernel's parser fills from a list of attributes.\<close>

fun nla_table :: "'s tsf_attr list \<Rightarrow> 's tsf_tb" where
  "nla_table [] = \<lparr>tb_parms = None, tb_time = None, tb_rate64 = None\<rparr>"
| "nla_table (TCA_TSF_PARMS p # as) = (nla_table as)\<lparr>tb_parms := Some p\<rparr>"
| "nla_table (TCA_TSF_TIME t # as) = (nla_table as)\<lparr>tb_time := Some t\<rparr>"
| "nla_table (TCA_TSF_RATE64 r # as) = (nla_table as)\<lparr>tb_rate64 := Some r\<rparr>"

definition ex_control :: "int + skb list \<Rightarrow> (unit tsf_attr list, unit, unit, skb list) control" where
  "ex_control child = \<lparr>nla_parse_nested = (\<lambda>as. Inr (nla_table as)), psched_ratecfg_precompute = (\<lambda>_ _. ()),
     HZ = 250, dev_mtu = 1500, fifo_create_dflt = (\<lambda>_ _. child), kmalloc_nodes = ex_mem, noop_qdisc = [],
     qdisc_tree_flush_backlog = (\<lambda>q (n, b, d). (n - of_nat (length q), b - 100 * of_nat (length q), d + of_nat (length q)))\<rparr>"

definition ex_attrs :: "unit tsf_attr list" where
  "ex_attrs = [TCA_TSF_PARMS \<lparr>o_rate = (), o_time = 0\<rparr>, TCA_TSF_TIME 4000, TCA_TSF_RATE64 1000000]"

lemma link_nodes_rate:
  assumes "2 \<le> length ns" and "\<forall>nd \<in> set ns. n_rate nd = r \<and> n_tlen nd = t"
  shows "\<forall>nd \<in> set (link_nodes (length ns) ns). n_rate nd = r \<and> n_tlen nd = t"
proof -
  define P where "P nd \<longleftrightarrow> n_rate nd = r \<and> n_tlen nd = t" for nd :: knode
  define Q where "Q ms \<longleftrightarrow> length ms = length ns \<and> (\<forall>nd \<in> set ms. P nd)" for ms
  have nx: "P (nd\<lparr>n_next := a\<rparr>) = P nd" and pv: "P (nd\<lparr>n_prev := a\<rparr>) = P nd" for nd a by (simp_all add: P_def)
  have upd: "Q (ms[i := x])" if "Q ms" "P x" for ms i x
    using that set_update_subset_insert [of ms i x] by (auto simp: Q_def)
  have nxt: "Q (ms[i := (ms ! i)\<lparr>n_next := a\<rparr>])" and prev: "Q (ms[i := (ms ! i)\<lparr>n_prev := a\<rparr>])"
    if "Q ms" "i < length ns" for ms i a
    using that by (auto intro!: upd simp: nx pv) (simp_all add: Q_def)
  have "Q (link_step i ms)" if "Q ms" "i < length ns" for ms i
    using that by (auto intro!: upd simp: link_step_def nx pv) (simp add: Q_def)
  then have fold: "Q (fold link_step is ms)" if "Q ms" "\<forall>i \<in> set is. i < length ns" for "is" ms
    using that by (induction "is" arbitrary: ms) simp_all
  have "Q ns" using assms(2) by (simp add: Q_def P_def)
  then have "Q (fold link_step [1 ..< length ns - 1] ns)" by (rule fold) auto
  then have "Q (link_nodes (length ns) ns)"
    using assms(1) unfolding link_nodes_def Let_def by (intro nxt prev) linarith+
  then show ?thesis by (simp add: Q_def P_def)
qed

lemma kfifo_init_params:
  assumes "kmalloc_ok mem" and "mem (unat time) = Some block" and "2 \<le> unat time" and "k_slen k = 0"
  shows "\<exists>k'. kfifo_init mem k time rate = (0, k') \<and> kf_holds h k' [] \<and> k_rate k' = k_rate k \<and> k_mtu k' = k_mtu k \<and>
    k_total_time k' = time \<and> k_total_len k' = ucast (time * rate div 1000) \<and> length (k_nodes k') = unat time \<and>
    (\<forall>nd \<in> set (k_nodes k'). n_rate nd = rate \<and> n_tlen nd = rate div 1000)"
proof -
  from kfifo_init_rep [OF assms, where rate = rate] obtain k' where init: "kfifo_init mem k time rate = (0, k')"
    and rep: "kf_rep h k' 0 0 (replicate (unat time) [])" and k': "k_rate k' = k_rate k"
      "k_total_len k' = ucast (time * rate div 1000)" by metis
  have ns: "k_mtu k' = k_mtu k" "k_total_time k' = time" "k_nodes k' = link_nodes (unat time) (map (init_node rate) block)"
    using init assms(2,3) by (auto simp: kfifo_init_def Let_def)
  have "length block = unat time" using assms(1,2) by (simp add: kmalloc_ok_def)
  then have "\<forall>nd \<in> set (k_nodes k'). n_rate nd = rate \<and> n_tlen nd = rate div 1000"
    using link_nodes_rate [of "map (init_node rate) block" rate "rate div 1000"] assms(3) by (auto simp: ns init_node_def)
  moreover have "kf_holds h k' []" using rep by (rule kf_holdsI) simp
  moreover have "length (k_nodes k') = unat time" using kf_length [OF rep] by simp
  ultimately show ?thesis using init k' ns(1,2) by blast
qed

text \<open>
  C17. A change takes effect as a whole. When all three attributes are present, the two inner queues
  and the ring's block can be created, the ring gets at least two milliseconds and its byte count is
  zero, \<open>tsf_change\<close> returns 0 with the tree lock released. Afterwards the discipline and the ring have
  the rate computed from the rate attribute and the 64-bit rate, the time is in milliseconds, the byte
  limit is rate times time, the bucket and the two new queues are as large as one scheduler tick of the
  rate; the ring's packet size limit is the device's, at most 65535; the ring is empty, with a node
  for each millisecond that carries the rate and the bytes of a millisecond. The tokens, the check point
  and the watchdog are kept; the two old queues have been flushed and put, the test queue first.
\<close>

theorem tsf_change_installs:
  assumes "nla_parse_nested C opt = Inr \<lparr>tb_parms = Some qopt, tb_time = Some time, tb_rate64 = Some rate64\<rparr>"
    and "\<not> s_tree_lock s" and "rate64 * (time div 1000) div 1000 > 0"
    and "fifo_create_dflt C 0 (ucast (rate64 div HZ C)) = Inr q1"
    and "fifo_create_dflt C 1 (ucast (rate64 div HZ C)) = Inr q2"
    and "kmalloc_ok (kmalloc_nodes C)" and "kmalloc_nodes C (unat (ucast (time div 1000) :: u32)) = Some block"
    and "2 \<le> unat (ucast (time div 1000) :: u32)" and "k_slen (t_kfifo (s_priv s)) = 0"
    and "rate = psched_ratecfg_precompute C (o_rate qopt) rate64"
  shows "\<exists>s' k. tsf_change C opt s = Inr (0, s') \<and>
    s' = (flush_child C (t_qdisc (s_priv s)) (flush_child C (t_test_qdisc (s_priv s)) s))
      \<lparr>s_priv := (s_priv s)\<lparr>t_ttime := time div 1000, t_tlen := rate64 * (time div 1000) div 1000,
         t_buffer := rate64 div HZ C, t_limit := ucast (rate64 div HZ C), t_rate := rate,
         t_kfifo := k, t_test_qdisc := q1, t_qdisc := q2\<rparr>\<rparr> \<and> \<not> s_tree_lock s' \<and>
    kf_holds h k [] \<and> k_rate k = rate \<and> k_mtu k = min (dev_mtu C) IP_MAX_MTU \<and>
    k_total_time k = ucast (time div 1000) \<and>
    k_total_len k = ucast (ucast (time div 1000) * ucast rate64 div (1000 :: u32)) \<and>
    length (k_nodes k) = unat (ucast (time div 1000) :: u32) \<and>
    (\<forall>nd \<in> set (k_nodes k). n_rate nd = ucast rate64 \<and> n_tlen nd = ucast rate64 div 1000)"
proof -
  let ?s1 = "upd_priv (set_params C qopt time rate64) (s\<lparr>s_tree_lock := True\<rparr>)"
  let ?k = "(t_kfifo (s_priv s))\<lparr>k_rate := rate, k_mtu := min (dev_mtu C) IP_MAX_MTU\<rparr>"
  let ?t = "ucast (time div 1000) :: u32"
  have "k_slen ?k = 0" using assms(9) by simp
  from kfifo_init_params [OF assms(6-8) this, where rate = "ucast rate64" and h = h] obtain k where
    init: "kfifo_init (kmalloc_nodes C) ?k ?t (ucast rate64) = (0, k)"
    and k: "kf_holds h k []" "k_rate k = rate" "k_mtu k = min (dev_mtu C) IP_MAX_MTU" "k_total_time k = ?t"
      "k_total_len k = ucast (?t * ucast rate64 div 1000)" "length (k_nodes k) = unat ?t"
      "\<forall>nd \<in> set (k_nodes k). n_rate nd = ucast rate64 \<and> n_tlen nd = ucast rate64 div 1000" by auto
  have p: "set_params C qopt time rate64 (s_priv s) = (s_priv s)\<lparr>t_ttime := time div 1000, t_tlen := rate64 * (time div 1000) div 1000,
      t_buffer := rate64 div HZ C, t_limit := ucast (rate64 div HZ C), t_rate := rate, t_kfifo := ?k\<rparr>"
    by (simp add: set_params_def Let_def assms(10))
  obtain n1 b1 d1 where f1: "qdisc_tree_flush_backlog C (t_test_qdisc (s_priv s)) (s_qlen s, s_backlog s, s_drops s) = (n1, b1, d1)"
    by (rule prod_cases3)
  obtain n2 b2 d2 where f2: "qdisc_tree_flush_backlog C (t_qdisc (s_priv s)) (n1, b1, d1) = (n2, b2, d2)"
    by (rule prod_cases3)
  define s3 where "s3 = ?s1\<lparr>s_priv := (s_priv ?s1)\<lparr>t_test_qdisc := q1, t_qdisc := q2\<rparr>, s_qlen := n2, s_backlog := b2,
    s_drops := d2, s_put := t_qdisc (s_priv s) # t_test_qdisc (s_priv s) # s_put s\<rparr>"
  have r1: "replace_child C 0 t_test_qdisc (\<lambda>c q. q\<lparr>t_test_qdisc := c\<rparr>) ?s1 =
      Inr (?s1\<lparr>s_priv := (s_priv ?s1)\<lparr>t_test_qdisc := q1\<rparr>, s_qlen := n1, s_backlog := b1,
        s_drops := d1, s_put := t_test_qdisc (s_priv s) # s_put s\<rparr>)" (is "_ = Inr ?s2")
    using assms(3,4) p f1 by (simp add: replace_child_def flush_child_def)
  have r2: "replace_child C 1 t_qdisc (\<lambda>c q. q\<lparr>t_qdisc := c\<rparr>) ?s2 = Inr s3"
    using assms(3,5) p f2 by (simp add: replace_child_def flush_child_def s3_def)
  have k3: "t_kfifo (s_priv s3) = ?k" "t_ttime (s_priv s3) = time div 1000" by (simp_all add: s3_def p)
  define s' where "s' = sch_tree_unlock (upd_priv (\<lambda>q. q\<lparr>t_kfifo := k\<rparr>) s3)"
  have "tsf_change C opt s = Inr (0, s')"
    using assms(1,2) r1 r2 init by (simp add: tsf_change_def sch_tree_lock_def Let_def k3 s'_def)
  moreover have "s' = (flush_child C (t_qdisc (s_priv s)) (flush_child C (t_test_qdisc (s_priv s)) s))
      \<lparr>s_priv := (s_priv s)\<lparr>t_ttime := time div 1000, t_tlen := rate64 * (time div 1000) div 1000,
         t_buffer := rate64 div HZ C, t_limit := ucast (rate64 div HZ C), t_rate := rate,
         t_kfifo := k, t_test_qdisc := q1, t_qdisc := q2\<rparr>\<rparr>"
    using assms(2) f1 f2 by (simp add: s'_def s3_def p flush_child_def sch_tree_unlock_def)
  moreover have "\<not> s_tree_lock s'" by (simp add: s'_def sch_tree_unlock_def)
  ultimately show ?thesis using k by (intro exI [of _ s'] exI [of _ k]) simp
qed

text \<open>A control whose rates are the 64-bit rates, and a limiter of another rate with a waiting packet.\<close>

definition rate_control :: "(unit tsf_attr list, unit, u64, skb list) control" where
  "rate_control = \<lparr>nla_parse_nested = (\<lambda>as. Inr (nla_table as)), psched_ratecfg_precompute = (\<lambda>_ r. r),
     HZ = 250, dev_mtu = 1500, fifo_create_dflt = (\<lambda>_ _. Inr []), kmalloc_nodes = ex_mem, noop_qdisc = [],
     qdisc_tree_flush_backlog = (\<lambda>q (n, b, d). (n - of_nat (length q), b - 100 * of_nat (length q), d + of_nat (length q)))\<rparr>"

definition rate_state :: "(u64, skb list) sch_state" where
  "rate_state = \<lparr>s_heap = ex_heap, s_priv = \<lparr>t_ttime = 0, t_tlen = 0, t_tokens = 7, t_t_c = 9,
       t_kfifo = \<lparr>k_total_time = 0, k_total_len = 0, k_pbase = None, k_pread = None, k_pwrite = None,
         k_gain = 0, k_slen = 0, k_stime = 0, k_mtu = 0, k_rate = 1, k_lock = False, k_nodes = []\<rparr>,
       t_rate = 1, t_max_size = 0, t_buffer = 0, t_limit = 0, t_qdisc = [5], t_test_qdisc = [], t_watchdog = None\<rparr>,
     s_qlen = 1, s_backlog = 100, s_drops = 0, s_overlimits = 0, s_dest = '''', s_to_free = [], s_consumed = [],
     s_tree_lock = False, s_clock = 0, s_reduced = [], s_put = []\<rparr>"

theorem tsf_change_installs_witness:
  "\<exists>s'. tsf_change rate_control ex_attrs rate_state = Inr (0, s') \<and> t_rate (s_priv s') = 1000000 \<and>
     t_ttime (s_priv s') = 4 \<and> t_tlen (s_priv s') = 4000 \<and> t_buffer (s_priv s') = 4000 \<and> t_tokens (s_priv s') = 7 \<and>
     k_rate (t_kfifo (s_priv s')) = 1000000 \<and> k_mtu (t_kfifo (s_priv s')) = 1500 \<and>
     length (k_nodes (t_kfifo (s_priv s'))) = 4 \<and> s_qlen s' = 0 \<and> s_put s' = [[5], []]"
proof -
  have a: "nla_parse_nested rate_control ex_attrs =
      Inr \<lparr>tb_parms = Some \<lparr>o_rate = (), o_time = 0\<rparr>, tb_time = Some 4000, tb_rate64 = Some 1000000\<rparr>"
    by (simp add: rate_control_def ex_attrs_def)
  have b: "\<not> s_tree_lock rate_state" "1000000 * (4000 div 1000) div 1000 > (0 :: u64)"
    by (simp_all add: rate_state_def)
  have c: "fifo_create_dflt rate_control 0 (ucast (1000000 div HZ rate_control)) = Inr []"
    "fifo_create_dflt rate_control 1 (ucast (1000000 div HZ rate_control)) = Inr []"
    "kmalloc_ok (kmalloc_nodes rate_control)"
    "kmalloc_nodes rate_control (unat (ucast ((4000 :: u64) div 1000) :: u32)) = Some (replicate 4 blank_node)"
    by (simp_all add: rate_control_def ex_kmalloc) (simp add: ex_mem_def)
  have d: "2 \<le> unat (ucast ((4000 :: u64) div 1000) :: u32)" "k_slen (t_kfifo (s_priv rate_state)) = 0"
    by (simp_all add: rate_state_def)
  have e: "(1000000 :: u64) = psched_ratecfg_precompute rate_control (o_rate \<lparr>o_rate = (), o_time = (0 :: u64)\<rparr>) 1000000"
    by (simp add: rate_control_def)
  obtain s' k where "tsf_change rate_control ex_attrs rate_state = Inr (0, s')"
    and s': "s' = (flush_child rate_control (t_qdisc (s_priv rate_state)) (flush_child rate_control (t_test_qdisc (s_priv rate_state)) rate_state))
      \<lparr>s_priv := (s_priv rate_state)\<lparr>t_ttime := 4000 div 1000, t_tlen := 1000000 * (4000 div 1000) div 1000,
         t_buffer := 1000000 div HZ rate_control, t_limit := ucast (1000000 div HZ rate_control), t_rate := 1000000,
         t_kfifo := k, t_test_qdisc := [], t_qdisc := []\<rparr>\<rparr>"
    and "k_rate k = 1000000" "k_mtu k = min (dev_mtu rate_control) IP_MAX_MTU" "length (k_nodes k) = unat (ucast ((4000 :: u64) div 1000) :: u32)"
    using tsf_change_installs [OF a b c d e, where h = ex_heap] by blast
  then show ?thesis by (simp add: rate_control_def rate_state_def flush_child_def IP_MAX_MTU_def)
qed

text \<open>
  A missing attribute is refused before anything changes: without \<open>TCA_TSF_PARMS\<close>,
  \<open>TCA_TSF_TIME\<close> or \<open>TCA_TSF_RATE64\<close> the result is \<open>-EINVAL\<close> and the state, the tree lock included, is
  as it was; so it is when the attributes do not parse, with the parser's error.
\<close>

theorem tsf_change_rejects:
  assumes "nla_parse_nested C opt = Inl err \<or>
    nla_parse_nested C opt = Inr tb \<and> err = - EINVAL \<and> (tb_parms tb = None \<or> tb_time tb = None \<or> tb_rate64 tb = None)"
  shows "tsf_change C opt s = Inr (err, s)"
  using assms by (auto simp: tsf_change_def split: option.splits)

theorem tsf_change_rejects_witness:
  "tsf_change (ex_control (Inr [])) [TCA_TSF_TIME 4000] (ex_state 0 0 [5]) = Inr (-22, ex_state 0 0 [5])"
  using tsf_change_rejects [of "ex_control (Inr [])" "[TCA_TSF_TIME 4000]" "-22" "nla_table [TCA_TSF_TIME 4000]"]
  by (simp add: ex_control_def EINVAL_def)

text \<open>
  C18. A failed allocation leaves the tree locked. When the second inner queue cannot be created,
  \<open>tsf_change\<close> takes the \<open>goto done\<close> that jumps over \<open>sch_tree_unlock\<close>: it returns the error with the
  lock held and the first queue already replaced, and every later valid change waits for the lock for
  ever. The same holds when the first queue cannot be created.
\<close>

theorem tsf_change_keeps_lock:
  assumes "nla_parse_nested C opt = Inr \<lparr>tb_parms = Some qopt, tb_time = Some time, tb_rate64 = Some rate64\<rparr>"
    and "\<not> s_tree_lock s" and "rate64 * (time div 1000) div 1000 > 0"
    and "fifo_create_dflt C 0 (ucast (rate64 div HZ C)) = Inl err \<or>
      fifo_create_dflt C 0 (ucast (rate64 div HZ C)) = Inr q1 \<and> fifo_create_dflt C 1 (ucast (rate64 div HZ C)) = Inl err"
  shows "\<exists>s'. tsf_change C opt s = Inr (err, s') \<and> s_tree_lock s' \<and> tsf_change C opt s' = Inl Deadlock"
proof -
  let ?s1 = "upd_priv (set_params C qopt time rate64) (s\<lparr>s_tree_lock := True\<rparr>)"
  have p: "t_tlen (s_priv ?s1) > 0" "t_limit (s_priv ?s1) = ucast (rate64 div HZ C)"
    using assms(3) by (simp_all add: set_params_def Let_def)
  obtain s' where "tsf_change C opt s = Inr (err, s')" and "s_tree_lock s'"
    using assms(1,2,4) p by (auto simp: tsf_change_def sch_tree_lock_def replace_child_def Let_def)
  moreover have "tsf_change C opt s' = Inl Deadlock"
    using assms(1) \<open>s_tree_lock s'\<close> by (simp add: tsf_change_def sch_tree_lock_def)
  ultimately show ?thesis by blast
qed

theorem tsf_change_keeps_lock_witness:
  "\<exists>s'. tsf_change (ex_control (Inl (-12))) ex_attrs (ex_state 0 0 [5]) = Inr (-12, s') \<and> s_tree_lock s' \<and>
     tsf_change (ex_control (Inl (-12))) ex_attrs s' = Inl Deadlock"
  using tsf_change_keeps_lock [of "ex_control (Inl (-12))" ex_attrs "\<lparr>o_rate = (), o_time = 0\<rparr>" 4000 1000000
      "ex_state 0 0 [5]" "-12" "[]"]
  by (simp add: ex_control_def ex_attrs_def ex_state_def)

text \<open>
  What \<open>tsf_dump\<close> writes cannot be read back. The dump never contains \<open>TCA_TSF_TIME\<close>, so handing
  it to \<open>tsf_change\<close> is refused with \<open>-EINVAL\<close>, whatever the parameters were.
\<close>

theorem tsf_dump_not_accepted:
  assumes "tsf_dump nest fits getrate rate_bytes_ps q = Some as" and "nla_parse_nested C opt = Inr (nla_table as)"
  shows "tsf_change C opt s = Inr (- EINVAL, s)"
  using assms by (auto simp: tsf_dump_def tsf_change_def Let_def split: if_splits)

theorem tsf_dump_not_accepted_witness:
  "\<exists>as. tsf_dump True (\<lambda>_ _. True) (\<lambda>_. ()) (\<lambda>_. 2 ^ 33) (ex_priv 0 0 []) = Some as \<and>
     tsf_change (ex_control (Inr [])) as (ex_state 0 0 []) = Inr (-22, ex_state 0 0 [])"
proof -
  obtain as where d: "tsf_dump True (\<lambda>_ _. True) (\<lambda>_. ()) (\<lambda>_. 2 ^ 33) (ex_priv 0 0 []) = Some as"
    by (auto simp: tsf_dump_def Let_def)
  with tsf_dump_not_accepted [OF d, of "ex_control (Inr [])" as] show ?thesis
    by (auto simp: ex_control_def EINVAL_def)
qed

end
