(* ===== verification/Tsf_Run.thy ===== *)
theory Tsf_Run
  imports Tsf_Props "HOL-Library.Multiset" "HOL-Library.Sublist"
begin

text \<open>
  Whole runs of the discipline. Any sequence of \<open>tsf_enqueue\<close> and \<open>tsf_dequeue\<close>, for packets to the
  limited host and to others, is followed by \<open>tsf_run\<close> up to its first fault. \<open>run_inv\<close> is the state of
  the three queues, \<open>accounts\<close> what a part of a run does: it composes, every call satisfies it, and so
  does the run.
\<close>

section \<open>Runs\<close>

datatype tsf_call = Send skb | Take

definition given :: "'a option \<Rightarrow> 'a list" where
  "given res = (case res of None \<Rightarrow> [] | Some x \<Rightarrow> [x])"

fun tsf_run :: "('r, 'q) kernel \<Rightarrow> tsf_call list \<Rightarrow> ('r, 'q) sch_state
    \<Rightarrow> skb list \<times> fault option \<times> ('r, 'q) sch_state" where
  "tsf_run K [] s = ([], None, s)"
| "tsf_run K (Send p # cs) s =
     (case tsf_enqueue K p s of Inl e \<Rightarrow> ([], Some e, s) | Inr (_, s') \<Rightarrow> tsf_run K cs s')"
| "tsf_run K (Take # cs) s =
     (case tsf_dequeue K s of
        Inl e \<Rightarrow> ([], Some e, s)
      | Inr (res, s') \<Rightarrow> (case tsf_run K cs s' of (outs, r) \<Rightarrow> (given res @ outs, r)))"

fun sends :: "tsf_call list \<Rightarrow> skb list" where
  "sends [] = []"
| "sends (Send p # cs) = p # sends cs"
| "sends (Take # cs) = sends cs"

text \<open>The packets the code recognises as going to the limited host.\<close>

definition limited :: "('r, 'q) kernel \<Rightarrow> skb \<Rightarrow> bool" where
  "limited K p = (case ip_daddr K p of None \<Rightarrow> False | Some a \<Rightarrow> snprintf16 (pI4 K a) = DEIP)"

text \<open>
  The two inner queues have the same operations (\<open>tsf_change\<close> creates both with
  \<open>fifo_create_dflt\<close> of \<open>bfifo_qdisc_ops\<close>).
\<close>

definition same_ops :: "('r, 'q) kernel \<Rightarrow> bool" where
  "same_ops K \<longleftrightarrow> (\<forall>q q'. q_peek K q q' = q_peek K q' q')"

text \<open>The time from the \<open>i\<close>-th to the \<open>j\<close>-th reading of the clock, also when its 64 bits wrap.\<close>

definition elapsed :: "('r, 'q) kernel \<Rightarrow> nat \<Rightarrow> nat \<Rightarrow> nat" where
  "elapsed K i j = sum_list (map (\<lambda>k. unat (ktime K (Suc k) - ktime K k)) [i..<j])"

text \<open>The tokens a call would start from if it came now.\<close>

definition level :: "('r, 'q) kernel \<Rightarrow> ('r, 'q) sch_state \<Rightarrow> nat" where
  "level K s = unat (refill_u64 (s_priv s) (ktime K (s_clock s)))"

text \<open>
  The ring holds \<open>xs\<close>, the inner queue \<open>ys\<close>, the test queue \<open>zs\<close>; \<open>todo\<close> are the packets still to be
  sent: with addresses, not to be segmented, unlinked.
\<close>

definition fresh :: "('r, 'q) kernel \<Rightarrow> ('r, 'q) sch_state \<Rightarrow> skb \<Rightarrow> bool" where
  "fresh K s p \<longleftrightarrow> ip_daddr K p \<noteq> None \<and> ip_saddr K p \<noteq> None \<and> \<not> skb_is_gso K p \<and>
     pkt_ok K (t_rate (s_priv s)) (s_heap s) p \<and> nxt (s_heap s) p = None"

definition run_inv :: "('r, 'q) kernel \<Rightarrow> ('q \<Rightarrow> skb list) \<Rightarrow> ('r, 'q) sch_state
    \<Rightarrow> skb list \<Rightarrow> skb list \<Rightarrow> skb list \<Rightarrow> skb list \<Rightarrow> bool" where
  "run_inv K c s xs ys zs todo \<longleftrightarrow>
     tsf_rep K c s xs ys \<and> c (t_test_qdisc (s_priv s)) = zs \<and> distinct (xs @ ys @ zs @ todo) \<and>
     (\<forall>p \<in> set (xs @ ys). limited K p) \<and> (\<forall>p \<in> set zs. \<not> limited K p \<and> ip_saddr K p \<noteq> None) \<and>
     (\<forall>p \<in> set todo. fresh K s p)"

definition accounts :: "('r, 'q) kernel \<Rightarrow> skb list \<Rightarrow> skb list \<Rightarrow> ('r, 'q) sch_state
    \<Rightarrow> skb list \<Rightarrow> skb list \<Rightarrow> skb list \<Rightarrow> ('r, 'q) sch_state \<Rightarrow> skb list \<Rightarrow> skb list \<Rightarrow> skb list \<Rightarrow> bool" where
  "accounts K sent outs s xs ys zs s' xs' ys' zs' \<longleftrightarrow>
     s_clock s \<le> s_clock s' \<and> t_rate (s_priv s') = t_rate (s_priv s) \<and> pkt_len (s_heap s') = pkt_len (s_heap s) \<and>
     (\<exists>entered kept.
        xs @ entered = filter (limited K) outs @ xs' \<and>
        zs @ kept = filter (\<lambda>p. \<not> limited K p) outs @ zs' \<and>
        mset entered + mset ys' \<subseteq># mset ys + mset (filter (limited K) sent) \<and>
        subseq kept (filter (\<lambda>p. \<not> limited K p) sent) \<and>
        airtime (l2t K) (t_rate (s_priv s)) (pkt_len (s_heap s)) entered + level K s' \<le>
          level K s + elapsed K (s_clock s) (s_clock s'))"

section \<open>Parts of a run compose\<close>

lemma elapsed_add:
  assumes "i \<le> j" and "j \<le> k"
  shows "elapsed K i k = elapsed K i j + elapsed K j k"
proof -
  have "[i..<k] = [i..<j] @ [j..<k]" using upt_add_eq_append [of i j "k - j"] assms by simp
  then show ?thesis by (simp add: elapsed_def)
qed

lemma elapsed_Suc [simp]: "elapsed K i (Suc i) = unat (ktime K (Suc i) - ktime K i)" "elapsed K i i = 0"
  by (simp_all add: elapsed_def)

lemma unat_add_le: "unat (a + b) \<le> unat a + unat (b :: 'a::len word)"
  by (simp add: unat_word_ariths)

lemma unat_diff_triangle: "unat (a - c) \<le> unat (a - b) + unat (b - c :: 'a::len word)"
  using unat_add_le [of "a - b" "b - c"] by simp

lemma elapsed_ge: "i \<le> j \<Longrightarrow> unat (ktime K j - ktime K i) \<le> elapsed K i j"
proof (induction j rule: dec_induct)
  case (step j)
  then show ?case
    using unat_diff_triangle [of "ktime K (Suc j)" "ktime K i" "ktime K j"] by (simp add: elapsed_add [of i j "Suc j"])
qed simp

lemma accounts_refl: "accounts K [] [] s xs ys zs s xs ys zs"
  by (simp add: accounts_def)

lemma accounts_trans:
  assumes "accounts K sent1 outs1 s xs ys zs s1 xs1 ys1 zs1" and "accounts K sent2 outs2 s1 xs1 ys1 zs1 s2 xs2 ys2 zs2"
  shows "accounts K (sent1 @ sent2) (outs1 @ outs2) s xs ys zs s2 xs2 ys2 zs2"
proof -
  let ?A = "airtime (l2t K) (t_rate (s_priv s)) (pkt_len (s_heap s))"
  from assms(1) obtain e1 k1 where 1: "xs @ e1 = filter (limited K) outs1 @ xs1"
      "zs @ k1 = filter (\<lambda>p. \<not> limited K p) outs1 @ zs1" "subseq k1 (filter (\<lambda>p. \<not> limited K p) sent1)"
    and m1: "mset e1 + mset ys1 \<subseteq># mset ys + mset (filter (limited K) sent1)"
    and t1: "?A e1 + level K s1 \<le> level K s + elapsed K (s_clock s) (s_clock s1)" unfolding accounts_def by blast
  from assms(1) have f: "t_rate (s_priv s1) = t_rate (s_priv s)" "pkt_len (s_heap s1) = pkt_len (s_heap s)"
      "s_clock s \<le> s_clock s1" unfolding accounts_def by simp_all
  from assms(2) obtain e2 k2 where 2: "xs1 @ e2 = filter (limited K) outs2 @ xs2"
      "zs1 @ k2 = filter (\<lambda>p. \<not> limited K p) outs2 @ zs2" "subseq k2 (filter (\<lambda>p. \<not> limited K p) sent2)"
    and m2: "mset e2 + mset ys2 \<subseteq># mset ys1 + mset (filter (limited K) sent2)"
    and t2: "?A e2 + level K s2 \<le> level K s1 + elapsed K (s_clock s1) (s_clock s2)" unfolding accounts_def f by blast
  from assms(2) have g: "t_rate (s_priv s2) = t_rate (s_priv s)" "pkt_len (s_heap s2) = pkt_len (s_heap s)"
      "s_clock s1 \<le> s_clock s2" unfolding accounts_def f by simp_all
  have a1: "xs @ e1 @ e2 = filter (limited K) (outs1 @ outs2) @ xs2" using 1(1) 2(1) by (metis append.assoc filter_append)
  have a2: "zs @ k1 @ k2 = filter (\<lambda>p. \<not> limited K p) (outs1 @ outs2) @ zs2" using 1(2) 2(2) by (metis append.assoc filter_append)
  have a3: "subseq (k1 @ k2) (filter (\<lambda>p. \<not> limited K p) (sent1 @ sent2))"
    using 1(3) 2(3) by (simp add: list_emb_append_mono)
  have a4: "mset (e1 @ e2) + mset ys2 \<subseteq># mset ys + mset (filter (limited K) (sent1 @ sent2))"
  proof -
    have "mset (e1 @ e2) + mset ys2 \<subseteq># mset e1 + (mset ys1 + mset (filter (limited K) sent2))"
      using m2 by (simp add: add.assoc)
    also have "\<dots> \<subseteq># mset ys + mset (filter (limited K) sent1) + mset (filter (limited K) sent2)"
      using m1 unfolding add.assoc [symmetric] by simp
    finally show ?thesis by (simp add: add.assoc)
  qed
  have a5: "?A (e1 @ e2) + level K s2 \<le> level K s + elapsed K (s_clock s) (s_clock s2)"
    using t1 t2 elapsed_add [OF f(3) g(3), of K] by simp
  have "s_clock s \<le> s_clock s2" using f(3) g(3) by simp
  with g(1,2) a1 a2 a3 a4 a5 show ?thesis unfolding accounts_def by blast
qed

section \<open>The bucket over time\<close>

lemma level_eq:
  "bucket (s_priv s) \<Longrightarrow>
     level K s = min (unat (t_buffer (s_priv s))) (unat (t_tokens (s_priv s)) + unat (ktime K (s_clock s) - t_t_c (s_priv s)))"
  by (simp add: level_def refill_u64_unat)

lemma level_idle:
  assumes "bucket (s_priv s)" and "t_buffer (s_priv s') = t_buffer (s_priv s)"
    and "t_tokens (s_priv s') = t_tokens (s_priv s)" and "t_t_c (s_priv s') = t_t_c (s_priv s)" and "s_clock s \<le> s_clock s'"
  shows "level K s' \<le> level K s + elapsed K (s_clock s) (s_clock s')"
proof -
  have "bucket (s_priv s')" using assms(1-3) by (simp add: bucket_def)
  with assms elapsed_ge [OF assms(5), of K]
      unat_diff_triangle [of "ktime K (s_clock s')" "t_t_c (s_priv s)" "ktime K (s_clock s)"]
  show ?thesis by (simp add: level_eq min_def)
qed

lemma level_spends:
  assumes "bucket (s_priv s)" and "bucket (s_priv s')" and "t_buffer (s_priv s') = t_buffer (s_priv s)"
    and "spends (level K s) A ps (ktime K (s_clock s)) (s_priv s) (s_priv s')" and "s_clock s \<le> s_clock s'" and "A [] = 0"
  shows "A ps + level K s' \<le> level K s + elapsed K (s_clock s) (s_clock s')"
  using assms(4) unfolding spends_def
proof (elim conjE disjE)
  assume "t_t_c (s_priv s') = ktime K (s_clock s)" "unat (t_tokens (s_priv s')) + A ps \<le> level K s"
  with level_eq [OF assms(2)] elapsed_ge [OF assms(5), of K] show ?thesis by (simp add: min_def)
next
  assume "ps = []" "t_t_c (s_priv s') = t_t_c (s_priv s)" "t_tokens (s_priv s') = t_tokens (s_priv s)"
  with level_idle [OF assms(1,3) _ _ assms(5)] assms(6) show ?thesis by simp
qed

section \<open>Every call satisfies its account\<close>

lemma limited_paced:
  "limited K p \<Longrightarrow> \<not> skb_is_gso K p \<Longrightarrow> paced K p s"
  by (auto simp: limited_def paced_def next_dest_def split: option.splits)

lemma run_invD:
  assumes "run_inv K c s xs ys zs todo"
  shows "tsf_rep K c s xs ys" and "bucket (s_priv s)" and "kf_holds (s_heap s) (t_kfifo (s_priv s)) xs"
    and "c (t_qdisc (s_priv s)) = ys" and "c (t_test_qdisc (s_priv s)) = zs" and "distinct (xs @ ys @ zs @ todo)"
  using assms by (simp_all add: run_inv_def tsf_rep_def)

text \<open>A packet not in use stays as it is.\<close>

lemma fresh_frame:
  assumes "fresh K s p" and "heap_frame (s_heap s) (s_heap s') ws" and "p \<notin> set ws"
    and "t_rate (s_priv s') = t_rate (s_priv s)"
  shows "fresh K s' p"
  using assms by (simp add: fresh_def heap_frame_def pkt_ok_def)

lemma send_limited:
  assumes K: "inner_fifo K c" and inv: "run_inv K c s xs ys zs (p # todo)" and lim: "limited K p" and ne: "ys \<noteq> []"
  shows "\<exists>ret s' xs' ys'. tsf_enqueue K p s = Inr (ret, s') \<and> run_inv K c s' xs' ys' zs todo \<and>
    accounts K [p] [] s xs ys zs s' xs' ys' zs"
proof -
  from ne obtain y ys0 where ys: "ys = y # ys0" by (cases ys) auto
  note D = run_invD [OF inv]
  from inv have fp: "fresh K s p" and ft: "\<forall>q \<in> set todo. fresh K s q" by (simp_all add: run_inv_def)
  from fp have "paced K p s" using lim by (simp add: fresh_def limited_paced)
  moreover have "new_ok K s (xs @ y # ys0) p" using fp D(6) by (auto simp: new_ok_def fresh_def ys)
  ultimately obtain ret s' moved rest new waiting where e: "tsf_enqueue K p s = Inr (ret, s')"
    and split: "ys = moved @ rest" and nw: "new = [] \<or> new = [p]" and rep': "tsf_rep K c s' (xs @ moved @ new) waiting"
    and wt: "waiting = rest \<or> new = [] \<and> waiting = rest @ [p] \<or> ret = NET_XMIT_DROP \<and> new = [] \<and> waiting = tl rest"
    and fr: "sch_frame (p # xs @ ys) (paced_start s) s'"
    and sp: "spends (level K s) (airtime (l2t K) (t_rate (s_priv s)) (pkt_len (s_heap s))) (moved @ new)
      (ktime K (s_clock s)) (s_priv s) (s_priv s')"
    using tsf_enqueue_step [OF K D(1) [unfolded ys]] unfolding level_def ys by blast
  have f: "t_rate (s_priv s') = t_rate (s_priv s)" "pkt_len (s_heap s') = pkt_len (s_heap s)"
    "t_buffer (s_priv s') = t_buffer (s_priv s)" "t_test_qdisc (s_priv s') = t_test_qdisc (s_priv s)"
    "s_clock s' = Suc (s_clock s)" and hf: "heap_frame (s_heap s) (s_heap s') (p # xs @ ys)"
    using fr by (simp_all add: sch_frame_def heap_frame_def paced_start_def)
  have m: "mset (moved @ new) + mset waiting \<subseteq># mset ys + mset [p]"
    using nw wt by (cases rest) (auto simp: split)
  then have sub: "set (moved @ new @ waiting) \<subseteq> insert p (set ys)"
    using set_mset_mono [OF m] by (auto simp: )
  have dist: "distinct ((xs @ moved @ new) @ waiting)" using rep' by (simp add: tsf_rep_def)
  have "distinct ((xs @ moved @ new) @ waiting @ zs @ todo)" using dist D(6) sub by auto
  moreover have "\<forall>q \<in> set ((xs @ moved @ new) @ waiting). limited K q"
    using inv lim sub by (auto simp: run_inv_def)
  moreover have "\<forall>q \<in> set todo. fresh K s' q"
    using ft fresh_frame [OF _ hf _ f(1)] D(6) by (simp add: disjoint_iff) metis
  ultimately have "run_inv K c s' (xs @ moved @ new) waiting zs todo"
    using inv rep' by (simp add: run_inv_def f)
  moreover have "bucket (s_priv s')" using rep' by (simp add: tsf_rep_def)
  from level_spends [OF D(2) this f(3) sp] have
    "airtime (l2t K) (t_rate (s_priv s)) (pkt_len (s_heap s)) (moved @ new) + level K s' \<le>
      level K s + elapsed K (s_clock s) (s_clock s')" by (simp add: f)
  with m lim have "accounts K [p] [] s xs ys zs s' (xs @ moved @ new) waiting zs"
    unfolding accounts_def by (intro conjI exI [of _ "moved @ new"] exI [of _ "[]"]) (simp_all add: f)
  ultimately show ?thesis using e by blast
qed

lemma send_other:
  assumes K: "inner_fifo K c" and inv: "run_inv K c s xs ys zs (p # todo)" and other: "\<not> limited K p"
  shows "\<exists>ret s' zs'. tsf_enqueue K p s = Inr (ret, s') \<and> run_inv K c s' xs ys zs' todo \<and>
    accounts K [p] [] s xs ys zs s' xs ys zs'"
proof -
  note D = run_invD [OF inv]
  from inv have fp: "fresh K s p" and ft: "\<forall>q \<in> set todo. fresh K s q" by (simp_all add: run_inv_def)
  from fp obtain a where a: "ip_daddr K p = Some a" by (auto simp: fresh_def)
  with other have nd: "snprintf16 (pI4 K a) \<noteq> DEIP" by (simp add: limited_def)
  obtain ret h q' where e: "q_enqueue K p (s_heap s) (t_test_qdisc (s_priv s)) = (ret, h, q')" by (rule prod_cases3)
  from inner_fifoD(3) [OF K e] D(5) obtain kept where cq: "c q' = zs @ kept" and kept: "kept = [] \<or> kept = [p]"
    and hf: "heap_frame (s_heap s) h (p # zs)" by (auto split: if_splits)
  obtain s' where s': "tsf_enqueue K p s = Inr (ret, s')" "s_priv s' = (s_priv s)\<lparr>t_test_qdisc := q'\<rparr>"
      "s_heap s' = h" "s_clock s' = s_clock s"
    using e nd by (cases "ret = NET_XMIT_SUCCESS") (auto simp: tsf_enqueue_def a Let_def)
  have len: "pkt_len h = pkt_len (s_heap s)" using hf by (simp add: heap_frame_def)
  have b: "bucket (s_priv s')" using D(2) by (simp add: s' bucket_def)
  have "kf_holds h (t_kfifo (s_priv s)) xs" using D(3) hf by (rule kf_holds_frame) (use D(6) in auto)
  then have "tsf_rep K c s' xs ys" using D(1) b by (simp add: tsf_rep_def s' len pkt_ok_def)
  moreover have "\<forall>q \<in> set todo. fresh K s' q"
    using ft fresh_frame [of K s _ s' "p # zs"] hf D(6) by (simp add: s' disjoint_iff) metis
  ultimately have "run_inv K c s' xs ys (zs @ kept) todo"
    using inv kept other fp D(6) cq by (auto simp: run_inv_def s' fresh_def)
  moreover have "level K s' \<le> level K s + elapsed K (s_clock s) (s_clock s')"
    using D(2) by (rule level_idle) (simp_all add: s')
  then have "accounts K [p] [] s xs ys zs s' xs ys (zs @ kept)"
    unfolding accounts_def using kept other
    by (intro conjI exI [of _ "[]"] exI [of _ kept]) (auto simp: s' len)
  ultimately show ?thesis using s'(1) by blast
qed

lemma take_ring:
  assumes K: "clock_advances K" and inv: "run_inv K c s xs ys zs todo"
  shows "\<exists>res s' xs'. ring_take K s = Inr (res, s') \<and> run_inv K c s' xs' ys zs todo \<and>
    accounts K [] (given res) s xs ys zs s' xs' ys zs \<and> xs = given res @ xs' \<and>
    (res = None \<and> xs \<noteq> [] \<longrightarrow> reader_sleeps (t_kfifo (s_priv s)) \<and> \<not> reader_sleeps (t_kfifo (s_priv s')))"
proof -
  note D = run_invD [OF inv]
  from ring_take_step [OF D(3) K] obtain res k' m w where
    e: "ring_take K s = Inr (res, s\<lparr>s_clock := m, s_priv := (s_priv s)\<lparr>t_kfifo := k', t_watchdog := w\<rparr>\<rparr>)" (is "_ = Inr (res, ?s)")
    and m: "s_clock s \<le> m" and rate: "k_rate k' = k_rate (t_kfifo (s_priv s))"
    and res: "res = None \<and> kf_holds (s_heap s) k' xs \<or> (\<exists>x ys. xs = x # ys \<and> res = Some x \<and> kf_holds (s_heap s) k' ys)"
    and sleep: "res = None \<and> xs \<noteq> [] \<longrightarrow> reader_sleeps (t_kfifo (s_priv s)) \<and> \<not> reader_sleeps k'"
    by blast
  then obtain xs' where xs: "xs = given res @ xs'" and holds: "kf_holds (s_heap s) k' xs'" by (auto simp: given_def)
  have "run_inv K c ?s xs' ys zs todo"
    using inv holds rate unfolding xs by (auto simp: run_inv_def tsf_rep_def bucket_def fresh_def)
  moreover have "level K ?s \<le> level K s + elapsed K (s_clock s) (s_clock ?s)"
    using D(2) by (rule level_idle) (simp_all add: m)
  moreover have "\<forall>p \<in> set (given res). limited K p" using inv unfolding xs by (auto simp: run_inv_def)
  then have "filter (limited K) (given res) = given res" "filter (\<lambda>p. \<not> limited K p) (given res) = []" by auto
  ultimately have "accounts K [] (given res) s xs ys zs ?s xs' ys zs"
    unfolding accounts_def by (intro conjI exI [of _ "[]"]) (simp_all add: m xs)
  moreover have "res = None \<and> xs \<noteq> [] \<longrightarrow> reader_sleeps (t_kfifo (s_priv s)) \<and> \<not> reader_sleeps (t_kfifo (s_priv ?s))"
    using sleep by simp
  ultimately show ?thesis using e \<open>run_inv K c ?s xs' ys zs todo\<close> xs by blast
qed

text \<open>The test \<open>tsf_dequeue\<close> applies to the first packet of the test queue.\<close>

definition from_limited :: "('r, 'q) kernel \<Rightarrow> skb \<Rightarrow> bool" where
  "from_limited K p = (case ip_saddr K p of None \<Rightarrow> False | Some a \<Rightarrow> snprintf16 (pI4 K a) = DEIP)"

lemma take_which:
  assumes K: "inner_fifo K c" "same_ops K" and inv: "run_inv K c s xs ys zs todo" and zs: "zs = [] \<or> from_limited K (hd zs)"
  shows "tsf_dequeue K s = ring_take K s"
proof -
  have "q_peek K (t_qdisc (s_priv s)) (t_test_qdisc (s_priv s)) = (case zs of [] \<Rightarrow> None | z # _ \<Rightarrow> Some z)"
    using K(2) inner_fifoD(1) [OF K(1)] run_invD(5) [OF inv] by (metis same_ops_def)
  with zs show ?thesis by (cases zs) (auto simp: tsf_dequeue_split from_limited_def split: option.splits)
qed

lemma take_test:
  assumes K: "inner_fifo K c" "same_ops K" and inv: "run_inv K c s xs ys (z # zs) todo" and z: "\<not> from_limited K z"
  shows "\<exists>s'. tsf_dequeue K s = Inr (Some z, s') \<and> run_inv K c s' xs ys zs todo \<and>
    accounts K [] [z] s xs ys (z # zs) s' xs ys zs"
proof -
  note D = run_invD [OF inv]
  have pk: "q_peek K (t_qdisc (s_priv s)) (t_test_qdisc (s_priv s)) = Some z"
    using K(2) inner_fifoD(1) [OF K(1)] D(5) by (metis same_ops_def list.simps(5))
  from inv obtain a where a: "ip_saddr K z = Some a" by (auto simp: run_inv_def)
  obtain r h q' where e: "q_dequeue_peeked K (s_heap s) (t_test_qdisc (s_priv s)) = (r, h, q')" by (rule prod_cases3)
  from inner_fifoD(2) [OF K(1) e] D(5) have r: "r = Some z" "c q' = zs" and hf: "heap_frame (s_heap s) h (z # zs)" by simp_all
  let ?s = "upd_priv (\<lambda>q. q\<lparr>t_test_qdisc := q'\<rparr>) (s\<lparr>s_heap := h\<rparr>)"
  have len: "pkt_len h = pkt_len (s_heap s)" using hf by (simp add: heap_frame_def)
  have "kf_holds h (t_kfifo (s_priv s)) xs" using D(3) hf by (rule kf_holds_frame) (use D(6) in auto)
  then have "tsf_rep K c ?s xs ys" using D(1) by (simp add: tsf_rep_def len pkt_ok_def bucket_def)
  moreover have "\<forall>q \<in> set todo. fresh K ?s q"
    using inv fresh_frame [of K s _ ?s "z # zs"] hf D(6) by (simp add: run_inv_def disjoint_iff) metis
  ultimately have "run_inv K c ?s xs ys zs todo" using inv r D(6) by (auto simp: run_inv_def)
  moreover have "level K ?s \<le> level K s + elapsed K (s_clock s) (s_clock ?s)"
    using D(2) by (rule level_idle) simp_all
  moreover have "\<not> limited K z" using inv by (simp add: run_inv_def)
  ultimately show ?thesis using z
    by (intro exI [of _ ?s]) (simp add: tsf_dequeue_split pk a from_limited_def e r accounts_def len)
qed

lemma take_step:
  assumes K: "inner_fifo K c" "same_ops K" "clock_advances K" and inv: "run_inv K c s xs ys zs todo"
  shows "\<exists>res s' xs' zs'. tsf_dequeue K s = Inr (res, s') \<and> run_inv K c s' xs' ys zs' todo \<and>
    accounts K [] (given res) s xs ys zs s' xs' ys zs'"
proof -
  show ?thesis
  proof (cases "zs = [] \<or> from_limited K (hd zs)")
    case True
    with take_ring [OF K(3) inv] show ?thesis by (metis take_which [OF K(1,2) inv True])
  next
    case False
    then obtain z zs' where zs: "zs = z # zs'" "\<not> from_limited K z" by (cases zs) auto
    from take_test [OF K(1,2) inv [unfolded zs(1)] zs(2)] obtain s' where "tsf_dequeue K s = Inr (Some z, s')"
      "run_inv K c s' xs ys zs' todo" "accounts K [] (given (Some z)) s xs ys zs s' xs ys zs'"
      unfolding zs(1) by (auto simp: given_def)
    then show ?thesis by blast
  qed
qed

text \<open>Any send that returns.\<close>

lemma send_step:
  assumes K: "inner_fifo K c" and inv: "run_inv K c s xs ys zs (p # todo)" and e: "tsf_enqueue K p s = Inr (ret, s')"
  shows "\<exists>xs' ys' zs'. run_inv K c s' xs' ys' zs' todo \<and> accounts K [p] [] s xs ys zs s' xs' ys' zs'"
proof (cases "limited K p")
  case False
  from send_other [OF K inv False] e show ?thesis by auto
next
  case True
  have "fresh K s p" using inv by (simp add: run_inv_def)
  then have "paced K p s" using True by (simp add: fresh_def limited_paced)
  then have "ys \<noteq> []" using tsf_enqueue_empty [OF K] run_invD(1) [OF inv] e by fastforce
  from send_limited [OF K inv True this] e show ?thesis by auto
qed

section \<open>The account of a run\<close>

lemma tsf_run_accounts:
  assumes K: "inner_fifo K c" "same_ops K" "clock_advances K" and "run_inv K c s xs ys zs (sends cs)"
    and "tsf_run K cs s = (outs, f, s')"
  shows "\<exists>sent todo xs' ys' zs'. sends cs = sent @ todo \<and> run_inv K c s' xs' ys' zs' todo \<and>
    accounts K sent outs s xs ys zs s' xs' ys' zs' \<and>
    (f = None \<and> todo = [] \<or> f = Some NullDeref \<and> ys' = [] \<and> todo \<noteq> [] \<and> limited K (hd todo))"
  using assms(4,5)
proof (induction cs arbitrary: s xs ys zs outs)
  case Nil
  then show ?case using accounts_refl by fastforce
next
  case (Cons call cs)
  have step: ?case
    if "run_inv K c s1 xs1 ys1 zs1 (sends cs)" "accounts K sent1 outs1 s xs ys zs s1 xs1 ys1 zs1"
      "tsf_run K cs s1 = (outs2, f, s')" "outs = outs1 @ outs2" "sends (call # cs) = sent1 @ sends cs"
    for s1 xs1 ys1 zs1 sent1 outs1 outs2
    using Cons.IH [OF that(1,3)] accounts_trans [OF that(2)] that(4,5) by (metis append.assoc)
  show ?case
  proof (cases call)
    case (Send p)
    with Cons.prems have inv: "run_inv K c s xs ys zs (p # sends cs)" by simp
    have send: ?thesis
      if "tsf_enqueue K p s = Inr (ret, s1)" "run_inv K c s1 xs1 ys1 zs1 (sends cs)"
        "accounts K [p] [] s xs ys zs s1 xs1 ys1 zs1" for ret s1 xs1 ys1 zs1
      by (rule step [OF that(2,3)]) (use that(1) Cons.prems(2) Send in auto)
    show ?thesis
    proof (cases "limited K p")
      case False
      from send_other [OF K(1) inv False] show ?thesis using send by blast
    next
      case True
      show ?thesis
      proof (cases "ys = []")
        case False
        from send_limited [OF K(1) inv True this] show ?thesis using send by blast
      next
        case nil: True
        have "fresh K s p" using inv by (simp add: run_inv_def)
        then have "paced K p s" using True by (simp add: fresh_def limited_paced)
        then have "tsf_enqueue K p s = Inl NullDeref"
          using tsf_enqueue_empty [OF K(1)] run_invD(1) [OF inv] nil by blast
        with Cons.prems(2) Send have "outs = []" "f = Some NullDeref" "s' = s" by auto
        with inv True nil accounts_refl show ?thesis
          by (intro exI [of _ "[]"] exI [of _ "p # sends cs"] exI [of _ xs] exI [of _ "[]"] exI [of _ zs])
            (simp add: Send)
      qed
    qed
  next
    case Take
    with Cons.prems have inv: "run_inv K c s xs ys zs (sends cs)" by simp
    from take_step [OF K inv] obtain res s1 xs1 zs1 where d: "tsf_dequeue K s = Inr (res, s1)"
      and "run_inv K c s1 xs1 ys zs1 (sends cs)" "accounts K [] (given res) s xs ys zs s1 xs1 ys zs1" by blast
    moreover obtain outs2 where "tsf_run K cs s1 = (outs2, f, s')" "outs = given res @ outs2"
      using Cons.prems(2) unfolding Take tsf_run.simps d by (auto split: prod.splits)
    ultimately show ?thesis using step Take by simp
  qed
qed

text \<open>
  C4. The limiter limits. Over every sequence of calls that enqueue and dequeue, for packets to the limited host and
  to others that have both addresses and need no segmentation (\<open>Tsf_Segment\<close> is about those that do), sent from
  any state whose queues and bucket are in order: the packets that go out to the limited host leave
  in the order in which they entered the ring, and what enters the ring between two moments has an air
  time of at most the level of the bucket, which is at most its depth, plus the time that has passed;
  so the air time of what goes out is bounded by what the ring held, the depth and the time. No packet is
  duplicated; other hosts' packets keep their order and cost nothing. A run ends early in one way only:
  the null pointer met by a packet to the limited host when the inner queue is empty.
\<close>

theorem tsf_run_conforms:
  assumes "inner_fifo K c" and "same_ops K" and "clock_advances K" and "run_inv K c s xs ys zs (sends cs)"
    and "tsf_run K cs s = (outs, f, s')"
  shows "\<exists>xs' entered kept zs'. kf_holds (s_heap s') (t_kfifo (s_priv s')) xs' \<and> c (t_test_qdisc (s_priv s')) = zs' \<and>
    xs @ entered = filter (limited K) outs @ xs' \<and> zs @ kept = filter (\<lambda>p. \<not> limited K p) outs @ zs' \<and>
    mset entered + mset (c (t_qdisc (s_priv s'))) \<subseteq># mset ys + mset (filter (limited K) (sends cs)) \<and>
    subseq kept (filter (\<lambda>p. \<not> limited K p) (sends cs)) \<and>
    (let cost = airtime (l2t K) (t_rate (s_priv s)) (pkt_len (s_heap s)); time = elapsed K (s_clock s) (s_clock s')
     in cost entered + level K s' \<le> level K s + time \<and> level K s \<le> unat (t_buffer (s_priv s)) \<and>
        cost (filter (limited K) outs) \<le> cost xs + unat (t_buffer (s_priv s)) + time) \<and>
    (f = None \<or> f = Some NullDeref \<and> c (t_qdisc (s_priv s')) = [])"
proof -
  let ?A = "airtime (l2t K) (t_rate (s_priv s)) (pkt_len (s_heap s))"
  from tsf_run_accounts [OF assms] obtain sent todo xs' ys' zs' where
    sends: "sends cs = sent @ todo" and inv: "run_inv K c s' xs' ys' zs' todo"
    and acc: "accounts K sent outs s xs ys zs s' xs' ys' zs'"
    and f: "f = None \<and> todo = [] \<or> f = Some NullDeref \<and> ys' = [] \<and> todo \<noteq> [] \<and> limited K (hd todo)" by blast
  note D = run_invD [OF inv]
  from acc obtain entered kept where
    1: "xs @ entered = filter (limited K) outs @ xs'" "zs @ kept = filter (\<lambda>p. \<not> limited K p) outs @ zs'"
    and m: "mset entered + mset ys' \<subseteq># mset ys + mset (filter (limited K) sent)"
    and sub: "subseq kept (filter (\<lambda>p. \<not> limited K p) sent)"
    and t: "?A entered + level K s' \<le> level K s + elapsed K (s_clock s) (s_clock s')" unfolding accounts_def by blast
  have m': "mset entered + mset ys' \<subseteq># mset ys + mset (filter (limited K) (sends cs))"
    by (rule subset_mset.order_trans [OF m]) (simp add: sends)
  have sub': "subseq kept (filter (\<lambda>p. \<not> limited K p) (sends cs))"
    using list_emb_append2 [OF sub, of "filter (\<lambda>p. \<not> limited K p) todo"] sub by (simp add: sends list_emb_prefix)
  have b: "level K s \<le> unat (t_buffer (s_priv s))" using run_invD(2) [OF assms(4)] by (simp add: level_eq)
  have "?A xs + ?A entered = ?A (filter (limited K) outs) + ?A xs'" using 1(1) by (metis airtime_append)
  with t b have out: "?A (filter (limited K) outs) \<le> ?A xs + unat (t_buffer (s_priv s)) + elapsed K (s_clock s) (s_clock s')"
    by linarith
  have f': "f = None \<or> f = Some NullDeref \<and> c (t_qdisc (s_priv s')) = []" using f D(4) by blast
  show ?thesis unfolding Let_def
    by (intro exI [of _ xs'] exI [of _ entered] exI [of _ kept] exI [of _ zs'] conjI D(3,5) 1 m' [folded D(4)] sub' t b out f')
qed

theorem tsf_run_conforms_witness:
  "\<exists>outs f s'. tsf_run ex_kernel [Send 7, Take, Send 60, Take] (ex_state 2000000 0 [5]) = (outs, f, s') \<and>
     airtime ex_l2t () (\<lambda>_. 100) (filter (limited ex_kernel) outs) \<le> 2000000 + elapsed ex_kernel 0 (s_clock s')"
proof -
  let ?s = "ex_state 2000000 0 [5]"
  obtain outs f s' where r: "tsf_run ex_kernel [Send 7, Take, Send 60, Take] ?s = (outs, f, s')" by (rule prod_cases3)
  have ops: "same_ops ex_kernel" by (simp add: same_ops_def ex_kernel_def)
  have "tsf_rep ex_kernel (\<lambda>q. q) ?s [] [5]" by (rule ex_rep) simp_all
  then have inv: "run_inv ex_kernel (\<lambda>q. q) ?s [] [5] [] (sends [Send 7, Take, Send 60, Take])"
    by (simp add: run_inv_def fresh_def pkt_ok_def limited_def ex_kernel_def ex_state_def ex_priv_def ex_heap_def ex_l2t_def
        snprintf16_def DEIP_def)
  from tsf_run_conforms [OF ex_inner ops ex_clock inv r]
  have "airtime (l2t ex_kernel) (t_rate (s_priv ?s)) (pkt_len (s_heap ?s)) (filter (limited ex_kernel) outs) \<le>
      airtime (l2t ex_kernel) (t_rate (s_priv ?s)) (pkt_len (s_heap ?s)) [] + unat (t_buffer (s_priv ?s)) +
        elapsed ex_kernel (s_clock ?s) (s_clock s')"
    unfolding Let_def by blast
  then have "airtime ex_l2t () (\<lambda>_. 100) (filter (limited ex_kernel) outs) \<le> 2000000 + elapsed ex_kernel 0 (s_clock s')"
    by (simp add: ex_state_def ex_priv_def ex_kernel_def ex_heap_def)
  with r show ?thesis by blast
qed

end
