(* ===== verification/Tsf_Segment.thy ===== *)
theory Tsf_Segment
  imports Tsf_Run
begin

text \<open>
  Segmentation: a packet that is too big is replaced by the chain of its segments, each of which reads the
  clock, is charged to the bucket and goes to the ring, or waits in the inner queue. The loop follows
  links the kernel built, so the theorems are about a chain that ends (\<open>linked\<close>).
\<close>

section \<open>One segment\<close>

text \<open>What is true of the packets a ring holds depends on their links and lengths only.\<close>

lemma kf_holds_agree:
  assumes "kf_holds h k xs" and agree: "\<And>x. x \<in> set xs \<Longrightarrow> nxt h' x = nxt h x \<and> pkt_len h' x = pkt_len h x"
  shows "kf_holds h' k xs"
proof -
  from assms(1) obtain r d ps where rep: "kf_rep h k r d ps" and xs: "xs = concat ps"
    by (auto simp: kf_holds_def)
  have "node_rep h' nd (ps ! j)" if "node_rep h nd (ps ! j)" and "j < length ps" for nd j
  proof -
    have sub: "set (ps ! j) \<subseteq> set xs" using that(2) unfolding xs by (simp add: UN_upper)
    then have "kunit_rep h' (n_kunit nd) (ps ! j)"
      using that(1) kunit_rep_frame [of "ps ! j" h' h] agree by (auto simp: node_rep_def)
    moreover have m: "map (pkt_len h') (ps ! j) = map (pkt_len h) (ps ! j)" using sub agree by auto
    ultimately show ?thesis using that(1) by (simp only: node_rep_def m)
  qed
  moreover have "map (\<lambda>s. unat (pkt_len h' s)) xs = map (\<lambda>s. unat (pkt_len h s)) xs" using agree by simp
  then have "held_bytes h' xs = held_bytes h xs" by (simp only: held_bytes_def)
  moreover have "\<forall>s \<in> set (concat ps). pkt_len h' s = pkt_len h s" using agree xs by blast
  ultimately have "kf_rep h' k r d ps"
    using rep unfolding kf_rep_def Let_def xs by auto
  then show ?thesis unfolding xs by (rule kf_holdsI) simp
qed

text \<open>As long as the clock has not run 292 years past the check point, the signed refill is the unsigned one.\<close>

lemma refill_s64_eq:
  assumes b: "bucket q" and near: "unat (now - t_t_c q) < 2 ^ 63"
  shows "refill_s64 q now = refill_u64 q now"
proof -
  have "unat (t_buffer q) < 2 ^ 63" using b by (simp add: bucket_def)
  then have "sint (now - t_t_c q) < sint (t_buffer q) \<longleftrightarrow> now - t_t_c q < t_buffer q"
    using near by (simp add: sint_small del: uint_nat) (simp add: word_less_nat_alt flip: word_less_def)
  then show ?thesis by (auto simp: refill_s64_def refill_u64_def min_def not_less)
qed

text \<open>A segment the loop may meet.\<close>

definition seg_ok :: "('r, 'q) kernel \<Rightarrow> ('r, 'q) sch_state \<Rightarrow> skb \<Rightarrow> bool" where
  "seg_ok K s p \<longleftrightarrow> data_len (s_heap s) p \<noteq> 0 \<and> unat (l2t K (t_rate (s_priv s)) (data_len (s_heap s) p)) < 2 ^ 50"

text \<open>What a part of the loop leaves alone; \<open>zs\<close> are the packets whose links and lengths it may write.\<close>

definition seg_frame :: "skb list \<Rightarrow> ('r, 'q) sch_state \<Rightarrow> ('r, 'q) sch_state \<Rightarrow> bool" where
  "seg_frame zs s s' \<longleftrightarrow> data_len (s_heap s') = data_len (s_heap s) \<and>
     (\<forall>x. x \<notin> set zs \<longrightarrow> nxt (s_heap s') x = nxt (s_heap s) x \<and> pkt_len (s_heap s') x = pkt_len (s_heap s) x) \<and>
     t_rate (s_priv s') = t_rate (s_priv s) \<and> t_buffer (s_priv s') = t_buffer (s_priv s) \<and>
     s_qlen s' = s_qlen s \<and> s_reduced s' = s_reduced s \<and> s_consumed s' = s_consumed s \<and> s_to_free s' = s_to_free s \<and>
     t_test_qdisc (s_priv s') = t_test_qdisc (s_priv s) \<and> s_tree_lock s' = s_tree_lock s"

lemma seg_frame_trans:
  "seg_frame xs s1 s2 \<Longrightarrow> seg_frame ys s2 s3 \<Longrightarrow> set xs \<union> set ys \<subseteq> set zs \<Longrightarrow> seg_frame zs s1 s3"
proof -
  assume a: "seg_frame xs s1 s2" and b: "seg_frame ys s2 s3" and sub: "set xs \<union> set ys \<subseteq> set zs"
  have "nxt (s_heap s3) x = nxt (s_heap s1) x \<and> pkt_len (s_heap s3) x = pkt_len (s_heap s1) x" if "x \<notin> set zs" for x
  proof -
    from that sub have "x \<notin> set xs" "x \<notin> set ys" by blast+
    with a b show ?thesis by (simp add: seg_frame_def)
  qed
  with a b show ?thesis by (simp add: seg_frame_def)
qed

lemma count_drop_rest [simp]:
  "s_reduced (count_drop K ret s) = s_reduced s" "s_consumed (count_drop K ret s) = s_consumed s"
  by (simp_all add: count_drop_def)

lemma seg_frame_cong:
  assumes "seg_frame zs s s1" and "s_heap s' = s_heap s1" and "t_rate (s_priv s') = t_rate (s_priv s1)"
    and "t_buffer (s_priv s') = t_buffer (s_priv s1)" and "s_qlen s' = s_qlen s1" and "s_reduced s' = s_reduced s1"
    and "s_consumed s' = s_consumed s1" and "s_to_free s' = s_to_free s1"
    and "t_test_qdisc (s_priv s') = t_test_qdisc (s_priv s1)" and "s_tree_lock s' = s_tree_lock s1"
  shows "seg_frame zs s s'"
  using assms by (simp add: seg_frame_def)

lemma sch_frame_seg:
  "sch_frame xs s s' \<Longrightarrow> rest_same s s' \<Longrightarrow> set xs \<subseteq> set zs \<Longrightarrow> seg_frame zs s s'"
  by (auto simp: sch_frame_def rest_same_def seg_frame_def heap_frame_def)

text \<open>The state after the segment was unlinked, measured and the clock read.\<close>

definition seg_start :: "skb \<Rightarrow> ('r, 'q) sch_state \<Rightarrow> ('r, 'q) sch_state" where
  "seg_start p s = s\<lparr>s_heap := (set_nxt p None (s_heap s))\<lparr>pkt_len := (pkt_len (s_heap s))(p := data_len (s_heap s) p)\<rparr>,
     s_clock := s_clock s + 1\<rparr>"

lemma seg_start_simps [simp]:
  "s_priv (seg_start p s) = s_priv s" "s_clock (seg_start p s) = Suc (s_clock s)"
  "nxt (s_heap (seg_start p s)) = (nxt (s_heap s))(p := None)" "data_len (s_heap (seg_start p s)) = data_len (s_heap s)"
  "pkt_len (s_heap (seg_start p s)) = (pkt_len (s_heap s))(p := data_len (s_heap s) p)"
  by (simp_all add: seg_start_def)

lemma seg_start_frame: "seg_frame [p] s (seg_start p s)"
  by (simp add: seg_frame_def seg_start_def)

lemma seg_start_rep:
  assumes "tsf_rep K c s xs ys" and "p \<notin> set (xs @ ys)"
  shows "tsf_rep K c (seg_start p s) xs ys"
proof -
  have "kf_holds (s_heap (seg_start p s)) (t_kfifo (s_priv s)) xs"
    by (rule kf_holds_agree [of "s_heap s"]) (use assms in \<open>auto simp: tsf_rep_def\<close>)
  moreover have "\<forall>q \<in> set ys. pkt_ok K (t_rate (s_priv s)) (s_heap (seg_start p s)) q"
    using assms by (auto simp: tsf_rep_def pkt_ok_def)
  ultimately show ?thesis using assms(1) by (simp add: tsf_rep_def)
qed

lemma segment_step_unfold:
  assumes "bucket (s_priv s)" and "unat (ktime K (s_clock s) - t_t_c (s_priv s)) < 2 ^ 63"
  shows "segment_step K p s =
    (let toks = refill_u64 (s_priv s) (ktime K (s_clock s)) - l2t K (t_rate (s_priv s)) (data_len (s_heap s) p) in
     bindE (if sint toks \<ge> 0
            then bindE (tsf_kfifo_enqueue K (Some p) (seg_start p s))
                   (\<lambda>(ret, s3). Inr (ret, set_tokens (ktime K (s_clock s)) toks s3))
            else Inr (tsf_inner_enqueue K p (seg_start p s)))
       (\<lambda>(ret, s3). Inr (ret, if ret \<noteq> NET_XMIT_SUCCESS then count_drop K ret s3 else s3)))"
proof -
  have "(s\<lparr>s_heap := (set_nxt p None (s_heap s))\<lparr>pkt_len := (pkt_len (set_nxt p None (s_heap s)))
      (p := data_len (set_nxt p None (s_heap s)) p)\<rparr>\<rparr>)\<lparr>s_clock := s_clock s + 1\<rparr> = seg_start p s"
    by (simp add: seg_start_def)
  then show ?thesis
    by (simp add: segment_step_def ktime_get_ns_def refill_s64_eq [OF assms] Let_def)
qed

text \<open>One turn: the segment goes to the ring, paid for, or to the inner queue, or is dropped.\<close>

definition seg_turn :: "('r, 'q) kernel \<Rightarrow> ('q \<Rightarrow> skb list) \<Rightarrow> skb \<Rightarrow> skb list \<Rightarrow> skb list \<Rightarrow> ('r, 'q) sch_state
    \<Rightarrow> int \<Rightarrow> ('r, 'q) sch_state \<Rightarrow> skb list \<Rightarrow> skb list \<Rightarrow> bool" where
  "seg_turn K c p xs ys s ret s' ent kept \<longleftrightarrow>
     tsf_rep K c s' (xs @ ent) (ys @ kept) \<and> ent @ kept = (if ret = NET_XMIT_SUCCESS then [p] else []) \<and>
     seg_frame (p # xs @ ys) s s' \<and> s_clock s' = Suc (s_clock s) \<and>
     spends (level K s) (airtime (l2t K) (t_rate (s_priv s)) (data_len (s_heap s))) ent (ktime K (s_clock s))
       (s_priv s) (s_priv s')"

lemma segment_step_turn:
  assumes K: "inner_fifo K c" and rep: "tsf_rep K c s xs ys" and new: "p \<notin> set (xs @ ys)" and ok: "seg_ok K s p"
    and near: "unat (ktime K (s_clock s) - t_t_c (s_priv s)) < 2 ^ 63"
  shows "\<exists>ret s' ent kept. segment_step K p s = Inr (ret, s') \<and> seg_turn K c p xs ys s ret s' ent kept"
proof -
  let ?now = "ktime K (s_clock s)" and ?s = "seg_start p s" and ?cost = "l2t K (t_rate (s_priv s)) (data_len (s_heap s) p)"
  let ?t = "refill_u64 (s_priv s) ?now - ?cost"
  from rep have b: "bucket (s_priv s)" by (simp add: tsf_rep_def)
  have rep0: "tsf_rep K c ?s xs ys" using rep new by (rule seg_start_rep)
  have ok0: "pkt_ok K (t_rate (s_priv ?s)) (s_heap ?s) p" using ok by (simp add: pkt_ok_def seg_ok_def)
  have lv: "unat (refill_u64 (s_priv s) ?now) = level K s" by (simp add: level_def)
  have le: "level K s \<le> unat (t_buffer (s_priv s))" using b by (simp add: level_eq)
  have lt: "unat (refill_u64 (s_priv s) ?now) < 2 ^ 63" "unat ?cost < 2 ^ 63"
    using b le ok unfolding lv by (simp_all add: bucket_def seg_ok_def)
  note unf = segment_step_unfold [OF b near, of p]
  show ?thesis
  proof (cases "unat ?cost \<le> level K s")
    case True
    then have pos: "0 \<le> sint ?t" and t: "unat ?t = level K s - unat ?cost"
      using sint_diff_nonneg [OF lt] unat_minus_le [of ?cost "refill_u64 (s_priv s) ?now"] unfolding lv by simp_all
    from tsf_kfifo_enqueue_rep [OF rep0 new ok0] obtain ret s1 ent where
      e: "tsf_kfifo_enqueue K (Some p) ?s = Inr (ret, s1)" and rep1: "tsf_rep K c s1 (xs @ ent) ys"
      and ent: "ent = [p] \<and> ret = NET_XMIT_SUCCESS \<or> ent = [] \<and> ret = NET_XMIT_DROP"
      and fr: "sch_frame xs ?s s1" and same: "rest_same ?s s1" by auto
    let ?s2 = "set_tokens ?now ?t s1"
    let ?s' = "if ret \<noteq> NET_XMIT_SUCCESS then count_drop K ret ?s2 else ?s2"
    have "segment_step K p s = Inr (ret, ?s')" unfolding unf Let_def using pos e by simp
    moreover have p: "s_heap ?s' = s_heap s1" "s_priv ?s' = (s_priv s1)\<lparr>t_t_c := ?now, t_tokens := ?t\<rparr>"
        "s_clock ?s' = Suc (s_clock s)"
      using fr by (auto simp: set_tokens_def sch_frame_def)
    moreover have "tsf_rep K c ?s' (xs @ ent) (ys @ [])"
      using rep1 p(1,2) unfolding append_Nil2
      by (rule tsf_rep_cong) (use fr t le in \<open>simp add: sch_frame_def\<close>)
    moreover have "seg_frame (p # xs @ ys) s ?s'"
      by (rule seg_frame_cong [OF seg_frame_trans [OF seg_start_frame sch_frame_seg [OF fr same subset_refl]]])
        (auto simp: set_tokens_def)
    moreover have "spends (level K s) (airtime (l2t K) (t_rate (s_priv s)) (data_len (s_heap s))) ent ?now (s_priv s) (s_priv ?s')"
      unfolding p(2) using ent t True by (auto simp: spends_def)
    moreover have "ent @ [] = (if ret = NET_XMIT_SUCCESS then [p] else [])" using ent by auto
    ultimately have "seg_turn K c p xs ys s ret ?s' ent []" unfolding seg_turn_def by blast
    with \<open>segment_step K p s = Inr (ret, ?s')\<close> show ?thesis by blast
  next
    case False
    then have "\<not> 0 \<le> sint ?t" using sint_diff_nonneg [OF lt] unfolding lv by simp
    moreover from tsf_inner_enqueue_rep [OF K rep0 new ok0] obtain ret s1 kept where
      "tsf_inner_enqueue K p ?s = (ret, s1)" and rep1: "tsf_rep K c s1 xs (ys @ kept)"
      and kept: "kept = (if ret = NET_XMIT_SUCCESS then [p] else [])"
      and fr: "sch_frame (p # ys) ?s s1" and same: "rest_same ?s s1" by blast
    ultimately have "segment_step K p s = Inr (ret, if ret \<noteq> NET_XMIT_SUCCESS then count_drop K ret s1 else s1)" (is "_ = Inr (_, ?s')")
      unfolding unf Let_def by simp
    moreover have p: "s_heap ?s' = s_heap s1" "s_priv ?s' = s_priv s1" "s_clock ?s' = Suc (s_clock s)"
      using fr by (auto simp: sch_frame_def)
    have "tsf_rep K c ?s' (xs @ []) (ys @ kept)" using tsf_rep_state [OF rep1 p(1,2)] by simp
    moreover have "seg_frame (p # xs @ ys) s ?s'"
      by (rule seg_frame_cong [OF seg_frame_trans [OF seg_start_frame sch_frame_seg [OF fr same subset_refl]]]) auto
    moreover have "spends (level K s) (airtime (l2t K) (t_rate (s_priv s)) (data_len (s_heap s))) [] ?now (s_priv s) (s_priv ?s')"
      using same unfolding p by (simp add: spends_def rest_same_def)
    ultimately have "seg_turn K c p xs ys s ret ?s' [] kept" using p(3) kept by (simp add: seg_turn_def)
    with \<open>segment_step K p s = Inr (ret, ?s')\<close> show ?thesis by blast
  qed
qed

section \<open>The chain\<close>

text \<open>During the next \<open>n\<close> readings the clock stays within 292 years of the check point and of itself.\<close>

definition clock_near :: "('r, 'q) kernel \<Rightarrow> nat \<Rightarrow> nat \<Rightarrow> u64 \<Rightarrow> bool" where
  "clock_near K i n tc \<longleftrightarrow> (\<forall>j < n. unat (ktime K (i + j) - tc) < 2 ^ 63 \<and>
     (\<forall>l < j. unat (ktime K (i + j) - ktime K (i + l)) < 2 ^ 63))"

lemma clock_near_step:
  assumes "clock_near K i (Suc n) tc"
  shows "unat (ktime K i - tc) < 2 ^ 63" and "clock_near K (Suc i) n tc" and "clock_near K (Suc i) n (ktime K i)"
proof -
  note D = assms [unfolded clock_near_def, rule_format]
  show "unat (ktime K i - tc) < 2 ^ 63" using D [of 0] by simp
  show "clock_near K (Suc i) n tc"
    unfolding clock_near_def
  proof (intro allI impI conjI)
    fix j assume "j < n"
    with D [of "Suc j"] show "unat (ktime K (Suc i + j) - tc) < 2 ^ 63" by simp
    fix l assume "l < j"
    with \<open>j < n\<close> D [of "Suc j"] have "unat (ktime K (i + Suc j) - ktime K (i + Suc l)) < 2 ^ 63" by blast
    then show "unat (ktime K (Suc i + j) - ktime K (Suc i + l)) < 2 ^ 63" by simp
  qed
  show "clock_near K (Suc i) n (ktime K i)"
    unfolding clock_near_def
  proof (intro allI impI conjI)
    fix j assume "j < n"
    with D [of "Suc j"] have "unat (ktime K (i + Suc j) - ktime K (i + 0)) < 2 ^ 63" by blast
    then show "unat (ktime K (Suc i + j) - ktime K i) < 2 ^ 63" by simp
    fix l assume "l < j"
    with \<open>j < n\<close> D [of "Suc j"] have "unat (ktime K (i + Suc j) - ktime K (i + Suc l)) < 2 ^ 63" by blast
    then show "unat (ktime K (Suc i + j) - ktime K (Suc i + l)) < 2 ^ 63" by simp
  qed
qed

definition first :: "skb list \<Rightarrow> skb option" where
  "first ps = (case ps of [] \<Rightarrow> None | p # _ \<Rightarrow> Some p)"

lemma linked_first: "linked n (p # ps) \<longleftrightarrow> n p = first ps \<and> linked n ps"
  by (cases ps) (simp_all add: first_def)

definition seg_result :: "('r, 'q) kernel \<Rightarrow> ('q \<Rightarrow> skb list) \<Rightarrow> skb list \<Rightarrow> skb list \<Rightarrow> skb list \<Rightarrow> ('r, 'q) sch_state
    \<Rightarrow> ('r, 'q) sch_state \<Rightarrow> skb list \<Rightarrow> skb list \<Rightarrow> bool" where
  "seg_result K c segs xs ys s s' ent kept \<longleftrightarrow>
     tsf_rep K c s' (xs @ ent) (ys @ kept) \<and> subseq ent segs \<and> subseq kept segs \<and>
     mset ent + mset kept \<subseteq># mset segs \<and> seg_frame (segs @ xs @ ys) s s' \<and> s_clock s' = s_clock s + length segs \<and>
     airtime (l2t K) (t_rate (s_priv s)) (data_len (s_heap s)) ent + level K s' \<le>
       level K s + elapsed K (s_clock s) (s_clock s')"

lemma seg_result_Cons:
  assumes rep: "tsf_rep K c s xs ys" and turn: "seg_turn K c p xs ys s ret s1 e1 k1"
    and rest: "seg_result K c segs (xs @ e1) (ys @ k1) s1 s' e2 k2"
  shows "seg_result K c (p # segs) xs ys s s' (e1 @ e2) (k1 @ k2)"
proof -
  let ?A = "airtime (l2t K) (t_rate (s_priv s)) (data_len (s_heap s))"
  from turn have rep1: "tsf_rep K c s1 (xs @ e1) (ys @ k1)" and ek: "e1 @ k1 = (if ret = NET_XMIT_SUCCESS then [p] else [])"
    and fr: "seg_frame (p # xs @ ys) s s1" and cl: "s_clock s1 = Suc (s_clock s)"
    and sp: "spends (level K s) ?A e1 (ktime K (s_clock s)) (s_priv s) (s_priv s1)" by (simp_all add: seg_turn_def)
  from fr have f: "t_rate (s_priv s1) = t_rate (s_priv s)" "t_buffer (s_priv s1) = t_buffer (s_priv s)"
    "data_len (s_heap s1) = data_len (s_heap s)" by (simp_all add: seg_frame_def)
  have b: "bucket (s_priv s)" "bucket (s_priv s1)" using rep rep1 by (simp_all add: tsf_rep_def)
  have l1: "?A e1 + level K s1 \<le> level K s + elapsed K (s_clock s) (s_clock s1)"
    by (rule level_spends [OF b f(2) sp]) (simp_all add: cl)
  have sets: "set (e1 @ k1) \<subseteq> {p}" using ek by auto
  have sub: "subseq e1 [p]" "subseq k1 [p]" "mset e1 + mset k1 \<subseteq># {#p#}"
    using ek by (auto simp: append_eq_Cons_conv split: if_splits)
  from rest have r: "tsf_rep K c s' ((xs @ e1) @ e2) ((ys @ k1) @ k2)" "subseq e2 segs" "subseq k2 segs"
      "mset e2 + mset k2 \<subseteq># mset segs" "s_clock s' = s_clock s1 + length segs"
      "?A e2 + level K s' \<le> level K s1 + elapsed K (s_clock s1) (s_clock s')"
    and fr2: "seg_frame (segs @ (xs @ e1) @ ys @ k1) s1 s'" unfolding seg_result_def f by blast+
  have "subseq (e1 @ e2) (p # segs)" "subseq (k1 @ k2) (p # segs)"
    using list_emb_append_mono [OF sub(1) r(2)] list_emb_append_mono [OF sub(2) r(3)] by simp_all
  moreover have "mset (e1 @ e2) + mset (k1 @ k2) \<subseteq># mset (p # segs)"
    using subset_mset.add_mono [OF sub(3) r(4)] by (simp add: ac_simps)
  moreover have "seg_frame ((p # segs) @ xs @ ys) s s'"
    using fr fr2 by (rule seg_frame_trans) (use sets in auto)
  moreover have "?A (e1 @ e2) + level K s' \<le> level K s + elapsed K (s_clock s) (s_clock s')"
    using l1 r(6) elapsed_add [of "s_clock s" "s_clock s1" "s_clock s'" K] by (simp add: cl r(5))
  ultimately show ?thesis using r(1,5) cl by (simp add: seg_result_def)
qed

lemma segment_loop_post:
  assumes K: "inner_fifo K c" and "tsf_rep K c s xs ys" and "linked (nxt (s_heap s)) segs" and "distinct (xs @ ys @ segs)"
    and "\<forall>p \<in> set segs. seg_ok K s p" and "clock_near K (s_clock s) (length segs) (t_t_c (s_priv s))"
  shows "\<exists>s' ent kept. segment_loop K (first segs) len n s =
      Some (Inr (len + sum_list (map (data_len (s_heap s)) segs), n + int (length (ent @ kept)), s')) \<and>
    seg_result K c segs xs ys s s' ent kept"
  using assms(2-6)
proof (induction segs arbitrary: len n s xs ys)
  case Nil
  then show ?case
    by (subst segment_loop.simps) (auto simp: first_def seg_result_def seg_frame_def intro!: exI [of _ "[]"])
next
  case (Cons p segs)
  from Cons.prems have rep: "tsf_rep K c s xs ys" and ok: "seg_ok K s p" and new: "p \<notin> set (xs @ ys)" by auto
  from Cons.prems(5) have near: "clock_near K (s_clock s) (Suc (length segs)) (t_t_c (s_priv s))" by simp
  note near = clock_near_step [OF near]
  from segment_step_turn [OF K rep new ok near(1)] obtain ret s1 e1 k1 where
    step: "segment_step K p s = Inr (ret, s1)" and turn: "seg_turn K c p xs ys s ret s1 e1 k1" by blast
  from turn have rep1: "tsf_rep K c s1 (xs @ e1) (ys @ k1)" and ek: "e1 @ k1 = (if ret = NET_XMIT_SUCCESS then [p] else [])"
    and fr: "seg_frame (p # xs @ ys) s s1" and cl: "s_clock s1 = Suc (s_clock s)"
    and tc: "t_t_c (s_priv s1) = ktime K (s_clock s) \<or> t_t_c (s_priv s1) = t_t_c (s_priv s)"
    by (auto simp: seg_turn_def spends_def)
  have sets: "set (e1 @ k1) \<subseteq> {p}" using ek by auto
  have "linked (nxt (s_heap s1)) segs"
  proof -
    have "nxt (s_heap s1) x = nxt (s_heap s) x" if "x \<in> set segs" for x
      using that fr Cons.prems(3) by (auto simp: seg_frame_def)
    from linked_frame [OF this] Cons.prems(2) show ?thesis by (simp add: linked_first)
  qed
  moreover have "distinct ((xs @ e1) @ (ys @ k1) @ segs)"
    using rep1 Cons.prems(3) sets by (auto simp: tsf_rep_def)
  moreover have "\<forall>q \<in> set segs. seg_ok K s1 q" using Cons.prems(4) fr by (simp add: seg_ok_def seg_frame_def)
  moreover have "clock_near K (s_clock s1) (length segs) (t_t_c (s_priv s1))"
    using tc near(2,3) by (auto simp: cl)
  ultimately obtain s' e2 k2 where
    l: "segment_loop K (first segs) (len + data_len (s_heap s) p) (if ret = NET_XMIT_SUCCESS then n + 1 else n) s1 =
      Some (Inr (len + data_len (s_heap s) p + sum_list (map (data_len (s_heap s1)) segs),
        (if ret = NET_XMIT_SUCCESS then n + 1 else n) + int (length (e2 @ k2)), s'))"
    and res: "seg_result K c segs (xs @ e1) (ys @ k1) s1 s' e2 k2"
    using Cons.IH [OF rep1] by blast
  have "segment_loop K (first (p # segs)) len n s = segment_loop K (first segs) (len + data_len (s_heap s) p)
      (if ret = NET_XMIT_SUCCESS then n + 1 else n) s1"
    using Cons.prems(2) step by (subst segment_loop.simps) (simp add: first_def [of "p # segs"] linked_first)
  moreover have "data_len (s_heap s1) = data_len (s_heap s)" using fr by (simp add: seg_frame_def)
  moreover have "(if ret = NET_XMIT_SUCCESS then n + 1 else n) + int (length (e2 @ k2)) = n + int (length ((e1 @ e2) @ k1 @ k2))"
    using arg_cong [OF ek, of length] by (simp split: if_splits)
  ultimately show ?case using l seg_result_Cons [OF rep turn res]
    by (intro exI [of _ s'] exI [of _ "e1 @ e2"] exI [of _ "k1 @ k2"]) (simp add: add.assoc)
qed

section \<open>Segmentation as a whole\<close>

text \<open>
  What the code relies on of \<open>skb_gso_segment\<close>: a chain \<open>segs\<close> that ends, of new packets with data,
  the queued packets left alone.
\<close>

definition gso_ok :: "('r, 'q) kernel \<Rightarrow> ('r, 'q) sch_state \<Rightarrow> skb list \<Rightarrow> skb \<Rightarrow> skb list \<Rightarrow> skb_heap \<Rightarrow> bool" where
  "gso_ok K s zs skb segs h \<longleftrightarrow>
     skb_gso_segment K skb (s_heap s) = (Some (first segs), h) \<and> segs \<noteq> [] \<and>
     linked (nxt h) segs \<and> distinct segs \<and> set segs \<inter> set zs = {} \<and>
     (\<forall>p \<in> set segs. data_len h p \<noteq> 0 \<and> unat (l2t K (t_rate (s_priv s)) (data_len h p)) < 2 ^ 50) \<and>
     (\<forall>x \<in> set zs. nxt h x = nxt (s_heap s) x \<and> pkt_len h x = pkt_len (s_heap s) x)"

definition too_big_gso :: "('r, 'q) kernel \<Rightarrow> ('r, 'q) sch_state \<Rightarrow> skb \<Rightarrow> bool" where
  "too_big_gso K s skb \<longleftrightarrow> pkt_len (s_heap s) skb > k_mtu (t_kfifo (s_priv s)) \<and> skb_is_gso K skb \<and>
     skb_gso_validate_mac_len K skb (k_mtu (t_kfifo (s_priv s)))"

lemma tsf_enqueue_segments:
  assumes "next_dest K skb s = DEIP" and "too_big_gso K s skb"
  shows "tsf_enqueue K skb s = tsf_segment K skb (s\<lparr>s_dest := DEIP\<rparr>)"
proof -
  have d: "(case ip_daddr K skb of None \<Rightarrow> s | Some a \<Rightarrow> s\<lparr>s_dest := snprintf16 (pI4 K a)\<rparr>) = s\<lparr>s_dest := DEIP\<rparr>"
    using assms(1) by (auto simp: next_dest_def split: option.splits)
  show ?thesis unfolding tsf_enqueue_def d Let_def using assms(2) by (simp add: too_big_gso_def)
qed

lemma level_cong: "s_priv s' = s_priv s \<Longrightarrow> s_clock s' = s_clock s \<Longrightarrow> level K s' = level K s"
  by (simp add: level_def)

lemma tsf_enqueue_segmented_post:
  assumes "inner_fifo K c" and "tsf_rep K c s xs ys" and "next_dest K skb s = DEIP" and "too_big_gso K s skb"
    and "gso_ok K s (xs @ ys) skb segs h" and "clock_near K (s_clock s) (length segs) (t_t_c (s_priv s))"
  shows "\<exists>ret s' ent kept. tsf_enqueue K skb s = Inr (ret, s') \<and> tsf_rep K c s' (xs @ ent) (ys @ kept) \<and>
    subseq ent segs \<and> subseq kept segs \<and> mset ent + mset kept \<subseteq># mset segs \<and>
    airtime (l2t K) (t_rate (s_priv s)) (data_len h) ent + level K s' \<le> level K s + elapsed K (s_clock s) (s_clock s') \<and>
    s_qlen s' = s_qlen s + of_nat (length (ent @ kept)) \<and> s_consumed s' = skb # s_consumed s \<and>
    s_reduced s' = s_reduced s @ (if length (ent @ kept) > 1
      then [(1 - int (length (ent @ kept)), pkt_len (s_heap s) skb - sum_list (map (data_len h) segs))] else []) \<and>
    ret = (if ent @ kept = [] then NET_XMIT_DROP else NET_XMIT_SUCCESS) \<and>
    t_test_qdisc (s_priv s') = t_test_qdisc (s_priv s) \<and> s_tree_lock s' = s_tree_lock s"
proof -
  note G = assms(5) [unfolded gso_ok_def]
  from G obtain p where p: "first segs = Some p" by (cases segs) (auto simp: first_def)
  let ?s = "s\<lparr>s_dest := DEIP, s_heap := h\<rparr>"
  have "kf_holds h (t_kfifo (s_priv s)) xs"
    by (rule kf_holds_agree [of "s_heap s"]) (use assms(2) G in \<open>auto simp: tsf_rep_def\<close>)
  then have "tsf_rep K c ?s xs ys" using assms(2) G by (auto simp: tsf_rep_def pkt_ok_def)
  moreover have "distinct (xs @ ys @ segs)" using assms(2) G by (auto simp: tsf_rep_def)
  moreover have "linked (nxt (s_heap ?s)) segs" "\<forall>q \<in> set segs. seg_ok K ?s q" using G by (simp_all add: seg_ok_def)
  ultimately obtain s1 ent kept where
    l: "segment_loop K (first segs) 0 0 ?s =
      Some (Inr (0 + sum_list (map (data_len (s_heap ?s)) segs), 0 + int (length (ent @ kept)), s1))"
    and res: "seg_result K c segs xs ys ?s s1 ent kept"
    using segment_loop_post [OF assms(1), of ?s xs ys segs 0 0] assms(6) by auto
  let ?n = "length (ent @ kept)"
  let ?s' = "s1\<lparr>s_qlen := s_qlen s1 + of_nat ?n, s_reduced := s_reduced s1 @ (if ?n > 1
      then [(1 - int ?n, pkt_len (s_heap s) skb - sum_list (map (data_len h) segs))] else []),
      s_consumed := skb # s_consumed s1\<rparr>"
  have pos: "\<not> 0 < int (length ent) + int (length kept) \<longleftrightarrow> ent = [] \<and> kept = []" by (cases ent) auto
  have e: "tsf_enqueue K skb s = Inr (if ent @ kept = [] then NET_XMIT_DROP else NET_XMIT_SUCCESS, ?s')"
    using G l p pos by (simp add: tsf_enqueue_segments [OF assms(3,4)] tsf_segment_def Let_def)
  from res have r: "tsf_rep K c s1 (xs @ ent) (ys @ kept)" "subseq ent segs" "subseq kept segs"
      "mset ent + mset kept \<subseteq># mset segs"
      "airtime (l2t K) (t_rate (s_priv s)) (data_len h) ent + level K s1 \<le> level K ?s + elapsed K (s_clock s) (s_clock s1)"
      "t_test_qdisc (s_priv s1) = t_test_qdisc (s_priv s)" "s_tree_lock s1 = s_tree_lock s" "s_qlen s1 = s_qlen s" "s_reduced s1 = s_reduced s" "s_consumed s1 = s_consumed s"
    unfolding seg_result_def seg_frame_def by (elim conjE, simp)+
  have lv: "level K ?s = level K s" "level K ?s' = level K s1" by (rule level_cong; simp)+
  have "tsf_rep K c ?s' (xs @ ent) (ys @ kept)" by (rule tsf_rep_state [OF r(1)]) simp_all
  with r lv show ?thesis
    by (intro exI [of _ "if ent @ kept = [] then NET_XMIT_DROP else NET_XMIT_SUCCESS"] exI [of _ ?s']
        exI [of _ ent] exI [of _ kept] conjI e) simp_all
qed

text \<open>
  C16. Segmentation keeps to the rate. A packet to the limited host that is too big is replaced by its
  segments: the call does not fault (also when the inner queue is empty), each segment goes to the end of
  the ring or of the inner queue or is dropped, none twice, both in the order of the chain; the air time of
  those sent to the ring is covered by the bucket's level and the time the call takes; the counter grows by
  the segments kept, the parents are told of the packets gained when there are two or more, the original is
  consumed, and the result says whether any segment was kept.
\<close>

theorem tsf_enqueue_segmented:
  assumes "inner_fifo K c" and "tsf_rep K c s xs ys" and "next_dest K skb s = DEIP" and "too_big_gso K s skb"
    and "gso_ok K s (xs @ ys) skb segs h" and "clock_near K (s_clock s) (length segs) (t_t_c (s_priv s))"
  shows "\<exists>ret s' ent kept. tsf_enqueue K skb s = Inr (ret, s') \<and> tsf_rep K c s' (xs @ ent) (ys @ kept) \<and>
    subseq ent segs \<and> subseq kept segs \<and> mset ent + mset kept \<subseteq># mset segs \<and>
    airtime (l2t K) (t_rate (s_priv s)) (data_len h) ent + level K s' \<le> level K s + elapsed K (s_clock s) (s_clock s') \<and>
    s_qlen s' = s_qlen s + of_nat (length (ent @ kept)) \<and> s_consumed s' = skb # s_consumed s \<and>
    s_reduced s' = s_reduced s @ (if length (ent @ kept) > 1
      then [(1 - int (length (ent @ kept)), pkt_len (s_heap s) skb - sum_list (map (data_len h) segs))] else []) \<and>
    ret = (if ent @ kept = [] then NET_XMIT_DROP else NET_XMIT_SUCCESS)"
  using tsf_enqueue_segmented_post [OF assms] by blast

text \<open>A kernel that splits every packet in two.\<close>

definition gso_kernel :: "(unit, skb list) kernel" where
  "gso_kernel = ex_kernel\<lparr>skb_is_gso := \<lambda>_. True, skb_gso_validate_mac_len := \<lambda>_ _. True,
     skb_gso_segment := \<lambda>_ h. (Some (Some 20), h\<lparr>nxt := (nxt h)(20 := Some 21)\<rparr>)\<rparr>"

theorem tsf_enqueue_segmented_witness:
  "\<exists>ret s' ent kept. tsf_enqueue gso_kernel 7 ((ex_state 2000000 1000000 [5])\<lparr>s_heap := ex_heap\<lparr>pkt_len := (\<lambda>_. 100)(7 := 2000)\<rparr>\<rparr>) =
     Inr (ret, s') \<and> tsf_rep gso_kernel (\<lambda>q. q) s' ent (5 # kept) \<and> subseq ent [20, 21]"
proof -
  let ?s = "(ex_state 2000000 1000000 [5])\<lparr>s_heap := ex_heap\<lparr>pkt_len := (\<lambda>_. 100)(7 := 2000)\<rparr>\<rparr>"
  let ?h = "(s_heap ?s)\<lparr>nxt := (nxt (s_heap ?s))(20 := Some 21)\<rparr>"
  have K: "inner_fifo gso_kernel (\<lambda>q. q)"
    unfolding inner_fifo_def gso_kernel_def ex_kernel_def
    by (auto simp: heap_frame_def set_nxt_def split: list.splits)
  have rep: "tsf_rep gso_kernel (\<lambda>q. q) ?s [] [5]"
    using ex_ring_holds by (simp add: tsf_rep_def ex_state_def ex_priv_def bucket_def pkt_ok_def gso_kernel_def ex_kernel_def
        ex_l2t_def ex_ring_eq blank_ring_def)
  have "next_dest gso_kernel 7 ?s = DEIP" "too_big_gso gso_kernel ?s 7"
    by (simp_all add: next_dest_def too_big_gso_def gso_kernel_def ex_kernel_def snprintf16_def DEIP_def
        ex_state_def ex_priv_def ex_ring_eq blank_ring_def)
  moreover have "gso_ok gso_kernel ?s ([] @ [5]) 7 [20, 21] ?h"
    by (simp add: gso_ok_def gso_kernel_def ex_kernel_def first_def ex_heap_def ex_l2t_def)
  moreover have "clock_near gso_kernel (s_clock ?s) (length [20, 21 :: skb]) (t_t_c (s_priv ?s))"
    unfolding clock_near_def
  proof (intro allI impI conjI)
    fix j l assume "j < length [20, 21 :: skb]"
    then have j: "j = 0 \<or> j = 1" by auto
    then show "unat (ktime gso_kernel (s_clock ?s + j) - t_t_c (s_priv ?s)) < 2 ^ 63"
      by (auto simp: gso_kernel_def ex_kernel_def ex_state_def ex_priv_def)
    assume "l < j"
    with j have "j = 1" "l = 0" by auto
    then show "unat (ktime gso_kernel (s_clock ?s + j) - ktime gso_kernel (s_clock ?s + l)) < 2 ^ 63"
      by (simp add: gso_kernel_def ex_kernel_def ex_state_def)
  qed
  ultimately obtain ret s' ent kept where "tsf_enqueue gso_kernel 7 ?s = Inr (ret, s')"
    "tsf_rep gso_kernel (\<lambda>q. q) s' ([] @ ent) ([5] @ kept)" "subseq ent [20, 21]"
    using tsf_enqueue_segmented [OF K rep] by blast
  then show ?thesis by auto
qed

end
