(* ===== verification/Tsf_Life.thy ===== *)
theory Tsf_Life
  imports Tsf_Segment
begin

text \<open>
  The discipline as the kernel uses it: the table \<open>tsf_qdisc_ops\<close> of its operations, and the states that
  any order of calls can reach from a successful \<open>init\<close>, the rest of the kernel acting in between.
\<close>

section \<open>The table of operations\<close>

record ('o, 's, 'r, 'q) Qdisc_ops =
  op_id :: string
  op_enqueue :: "skb \<Rightarrow> ('r, 'q) sch_state \<Rightarrow> fault + int \<times> ('r, 'q) sch_state"
  op_dequeue :: "('r, 'q) sch_state \<Rightarrow> fault + skb option \<times> ('r, 'q) sch_state"
  op_init :: "'o option \<Rightarrow> ('r, 'q) sch_state \<Rightarrow> fault + int \<times> ('r, 'q) sch_state"
  op_reset :: "('r, 'q) sch_state \<Rightarrow> ('r, 'q) sch_state"
  op_destroy :: "('r, 'q) sch_state \<Rightarrow> ('r, 'q) sch_state"
  op_change :: "'o \<Rightarrow> ('r, 'q) sch_state \<Rightarrow> fault + int \<times> ('r, 'q) sch_state"

text \<open>\<open>peek\<close> is the kernel's \<open>qdisc_peek_dequeued\<close>; \<open>dump\<close> writes to a message and changes no state.\<close>

definition tsf_qdisc_ops :: "('r, 'q) kernel \<Rightarrow> ('o, 's, 'r, 'q) control \<Rightarrow> ('o, 's, 'r, 'q) Qdisc_ops" where
  "tsf_qdisc_ops K C = \<lparr>op_id = ''tsf'', op_enqueue = tsf_enqueue K, op_dequeue = tsf_dequeue K,
     op_init = tsf_init C, op_reset = tsf_reset, op_destroy = tsf_destroy, op_change = tsf_change C\<rparr>"

section \<open>What the set-up relies on\<close>

text \<open>
  New queues are empty, the queue before the first change (\<open>noop_qdisc\<close>) holds nothing, error codes
  are negative, the allocator returns blocks of the size asked for, and a tick is at most a quarter
  of a second.
\<close>

definition ctl_ok :: "('o, 's, 'r, 'q) control \<Rightarrow> ('q \<Rightarrow> skb list) \<Rightarrow> bool" where
  "ctl_ok C c \<longleftrightarrow> (\<forall>n limit q. fifo_create_dflt C n limit = Inr q \<longrightarrow> c q = []) \<and> c (noop_qdisc C) = [] \<and>
     (\<forall>n limit e. fifo_create_dflt C n limit = Inl e \<longrightarrow> e < 0) \<and> (\<forall>opt e. nla_parse_nested C opt = Inl e \<longrightarrow> e < 0) \<and>
     kmalloc_ok (kmalloc_nodes C) \<and> 4 \<le> unat (HZ C)"

lemma tick_bound:
  fixes w h :: u64
  assumes "4 \<le> unat h"
  shows "unat (w div h) < 2 ^ 62"
proof -
  have "unat w div unat h \<le> unat w div 4" using assms by (intro div_le_mono2) simp_all
  moreover have "unat w < 2 ^ 64" using unsigned_less [of w] by simp
  ultimately show ?thesis by (simp add: unat_div)
qed

text \<open>The three attributes a change needs, and the changes whose queues cannot all be created.\<close>

definition full_opt :: "('o, 's, 'r, 'q) control \<Rightarrow> 'o \<Rightarrow> ('s tc_tsf_qopt \<times> u64 \<times> u64) option" where
  "full_opt C opt = (case nla_parse_nested C opt of Inl _ \<Rightarrow> None
    | Inr tb \<Rightarrow> (case (tb_parms tb, tb_time tb, tb_rate64 tb) of
        (Some qopt, Some time, Some rate64) \<Rightarrow> Some (qopt, time, rate64) | _ \<Rightarrow> None))"

definition alloc_fails :: "('o, 's, 'r, 'q) control \<Rightarrow> 'o \<Rightarrow> bool" where
  "alloc_fails C opt = (case full_opt C opt of None \<Rightarrow> False
    | Some (qopt, time, rate64) \<Rightarrow> rate64 * (time div 1000) div 1000 > 0 \<and>
        (isl (fifo_create_dflt C 0 (ucast (rate64 div HZ C))) \<or> isl (fifo_create_dflt C 1 (ucast (rate64 div HZ C)))))"

definition two_ms :: "('o, 's, 'r, 'q) control \<Rightarrow> 'o \<Rightarrow> bool" where
  "two_ms C opt = (case full_opt C opt of None \<Rightarrow> True
    | Some (qopt, time, rate64) \<Rightarrow> 2 \<le> unat (ucast (time div 1000) :: u32))"

lemma full_opt_None: "full_opt C opt = None \<Longrightarrow> \<exists>e. tsf_change C opt s = Inr (e, s) \<and> (ctl_ok C c \<longrightarrow> e < 0)"
  by (auto simp: full_opt_def tsf_change_def ctl_ok_def EINVAL_def split: sum.splits option.splits)

lemma full_opt_Some:
  "full_opt C opt = Some (qopt, time, rate64) \<longleftrightarrow>
    (\<exists>tb. nla_parse_nested C opt = Inr tb \<and> tb_parms tb = Some qopt \<and> tb_time tb = Some time \<and> tb_rate64 tb = Some rate64)"
  by (auto simp: full_opt_def split: sum.splits option.splits)

text \<open>What every stage of a change keeps of the state \<open>s\<close> it began in.\<close>

definition changed :: "('q \<Rightarrow> skb list) \<Rightarrow> ('r, 'q) sch_state \<Rightarrow> ('r, 'q) sch_state \<Rightarrow> bool" where
  "changed c s s' \<longleftrightarrow> s_heap s' = s_heap s \<and> k_rate (t_kfifo (s_priv s')) = t_rate (s_priv s') \<and> bucket (s_priv s') \<and>
     (c (t_qdisc (s_priv s')) = [] \<or> t_qdisc (s_priv s') = t_qdisc (s_priv s)) \<and>
     (c (t_test_qdisc (s_priv s')) = [] \<or> t_test_qdisc (s_priv s') = t_test_qdisc (s_priv s))"

lemma kf_holds_rate [simp]: "kf_holds h (k\<lparr>k_rate := r, k_mtu := m\<rparr>) xs = kf_holds h k xs"
  by (simp add: kf_holds_def kf_rep_def write_left_def)

lemma changed_params:
  assumes "ctl_ok C c" and "unat (t_tokens (s_priv s)) < 2 ^ 62"
    and s1_def: "s1 = upd_priv (set_params C qopt time rate64) (s\<lparr>s_tree_lock := True\<rparr>)"
  shows "changed c s s1" and "s_tree_lock s1" and "t_limit (s_priv s1) = ucast (rate64 div HZ C)"
    and "t_tlen (s_priv s1) = rate64 * (time div 1000) div 1000" and "t_ttime (s_priv s1) = time div 1000"
    and "k_slen (t_kfifo (s_priv s1)) = k_slen (t_kfifo (s_priv s))"
    and "kf_holds h (t_kfifo (s_priv s1)) xs = kf_holds h (t_kfifo (s_priv s)) xs"
proof -
  have "4 \<le> unat (HZ C)" using assms(1) by (simp add: ctl_ok_def)
  from tick_bound [OF this, of rate64] assms(2) show "changed c s s1"
    by (simp add: changed_def s1_def set_params_def Let_def bucket_def)
qed (simp_all add: s1_def set_params_def Let_def)

text \<open>What one of the two blocks that replace a queue does to a state \<open>s1\<close> in a change that began in \<open>s\<close>.\<close>

definition child_post :: "('o, 's, 'r, 'q) control \<Rightarrow> ('q \<Rightarrow> skb list) \<Rightarrow> nat \<Rightarrow> ('r, 'q) sch_state \<Rightarrow> ('r, 'q) sch_state
    \<Rightarrow> int + ('r, 'q) sch_state \<Rightarrow> bool" where
  "child_post C c n s s1 r \<longleftrightarrow> (case r of
      Inl e \<Rightarrow> e < 0 \<and> t_tlen (s_priv s1) > 0 \<and> isl (fifo_create_dflt C n (t_limit (s_priv s1)))
    | Inr s2 \<Rightarrow> changed c s s2 \<and> s_tree_lock s2 = s_tree_lock s1 \<and> t_kfifo (s_priv s2) = t_kfifo (s_priv s1) \<and>
        t_limit (s_priv s2) = t_limit (s_priv s1) \<and> t_tlen (s_priv s2) = t_tlen (s_priv s1) \<and>
        t_ttime (s_priv s2) = t_ttime (s_priv s1) \<and>
        \<not> (t_tlen (s_priv s1) > 0 \<and> isl (fifo_create_dflt C n (t_limit (s_priv s1)))))"

lemma changed_child:
  assumes C: "ctl_ok C c" and ch: "changed c s s1"
    and gp: "get = t_test_qdisc \<and> put = (\<lambda>c q. q\<lparr>t_test_qdisc := c\<rparr>) \<or> get = t_qdisc \<and> put = (\<lambda>c q. q\<lparr>t_qdisc := c\<rparr>)"
  shows "child_post C c n s s1 (replace_child C n get put s1)"
proof (cases "t_tlen (s_priv s1) > 0")
  case True
  show ?thesis
  proof (cases "fifo_create_dflt C n (t_limit (s_priv s1))")
    case (Inl e)
    with True C show ?thesis by (simp add: child_post_def replace_child_def ctl_ok_def)
  next
    case (Inr q)
    with C have "c q = []" by (simp add: ctl_ok_def)
    with True Inr ch gp show ?thesis by (auto simp: child_post_def replace_child_def changed_def bucket_def)
  qed
qed (use ch in \<open>simp add: child_post_def replace_child_def\<close>)

lemma kfifo_init_any:
  assumes "kmalloc_ok mem" and "kfifo_init mem k time rate = (err, k')" and "2 \<le> unat time \<or> \<not> err < 0" and "k_slen k = 0"
  shows "err < 0 \<and> k' = k \<or> err = 0 \<and> kf_holds h k' [] \<and> k_rate k' = k_rate k"
proof (cases "mem (unat time)")
  case None
  with assms(2) show ?thesis by (simp add: kfifo_init_def)
next
  case (Some block)
  with assms(2,3) have "2 \<le> unat time" by (auto simp: kfifo_init_def Let_def split: if_splits)
  from kfifo_init_rep [OF assms(1) Some this assms(4), where rate = rate] assms(2) have
    "err = 0" "kf_rep h k' 0 0 (replicate (unat time) [])" "k_rate k' = k_rate k" by (metis prod.inject)+
  then show ?thesis by (auto intro: kf_holdsI)
qed

text \<open>A change with its three attributes and the lock free, and how it ends when both queues could be created.\<close>

lemma tsf_change_full:
  assumes "full_opt C opt = Some (qopt, time, rate64)" and "\<not> s_tree_lock s"
    and s1: "s1 = upd_priv (set_params C qopt time rate64) (s\<lparr>s_tree_lock := True\<rparr>)"
  shows "tsf_change C opt s = (case replace_child C 0 t_test_qdisc (\<lambda>c q. q\<lparr>t_test_qdisc := c\<rparr>) s1 of
         Inl err \<Rightarrow> Inr (err, s1)
       | Inr s2 \<Rightarrow> (case replace_child C 1 t_qdisc (\<lambda>c q. q\<lparr>t_qdisc := c\<rparr>) s2 of Inl err \<Rightarrow> Inr (err, s2)
       | Inr s3 \<Rightarrow> (case kfifo_init (kmalloc_nodes C) (t_kfifo (s_priv s3)) (ucast (t_ttime (s_priv s3))) (ucast rate64) of
           (err, k) \<Rightarrow> Inr (if err < 0 then err else 0, sch_tree_unlock (upd_priv (\<lambda>q. q\<lparr>t_kfifo := k\<rparr>) s3)))))"
proof -
  from assms(1) obtain tb where "nla_parse_nested C opt = Inr tb" "tb_parms tb = Some qopt" "tb_time tb = Some time"
      "tb_rate64 tb = Some rate64" by (auto simp: full_opt_Some)
  with assms(2) show ?thesis unfolding s1 tsf_change_def sch_tree_lock_def Let_def by simp
qed

lemma change_end:
  assumes "ctl_ok C c" and ch: "changed c s s3" and slen: "k_slen (t_kfifo (s_priv s3)) = 0"
    and init: "kfifo_init (kmalloc_nodes C) (t_kfifo (s_priv s3)) time rate = (err, k)"
    and ms: "2 \<le> unat time \<or> \<not> err < 0" and s': "s' = sch_tree_unlock (upd_priv (\<lambda>q. q\<lparr>t_kfifo := k\<rparr>) s3)"
  shows "changed c s s' \<and> \<not> s_tree_lock s' \<and>
    (err < 0 \<and> t_kfifo (s_priv s') = t_kfifo (s_priv s3) \<or> err = 0 \<and> kf_holds h (t_kfifo (s_priv s')) [])"
proof -
  have "kmalloc_ok (kmalloc_nodes C)" using assms(1) by (simp add: ctl_ok_def)
  from kfifo_init_any [OF this init ms slen, of h] ch show ?thesis
    by (auto simp: changed_def s' sch_tree_unlock_def bucket_def)
qed

text \<open>
  A change that returns: it was refused at once, or it stopped at a queue that could not be created
  and left the lock held, or the ring's block could not be had, or it is complete.
\<close>

lemma tsf_change_returns:
  assumes C: "ctl_ok C c" and ret: "tsf_change C opt s = Inr (ret, s')" and slen: "k_slen (t_kfifo (s_priv s)) = 0"
    and tok: "unat (t_tokens (s_priv s)) < 2 ^ 62" and ms: "two_ms C opt \<or> ret = 0"
  shows "s' = s \<and> full_opt C opt = None \<and> ret < 0 \<or>
    \<not> s_tree_lock s \<and> changed c s s' \<and> (s_tree_lock s' \<longleftrightarrow> alloc_fails C opt) \<and>
    (ret < 0 \<and> (\<forall>xs. kf_holds h (t_kfifo (s_priv s')) xs = kf_holds h (t_kfifo (s_priv s)) xs) \<or>
     ret = 0 \<and> \<not> s_tree_lock s' \<and> kf_holds h (t_kfifo (s_priv s')) [])"
proof (cases "full_opt C opt")
  case None
  from full_opt_None [OF this, of s c] C ret None show ?thesis by auto
next
  case (Some v)
  obtain qopt time rate64 where v: "v = (qopt, time, rate64)" by (rule prod_cases3)
  have f: "full_opt C opt = Some (qopt, time, rate64)" by (simp add: Some v)
  with ret have free: "\<not> s_tree_lock s" by (auto simp: full_opt_Some tsf_change_def sch_tree_lock_def)
  define s1 where "s1 = upd_priv (set_params C qopt time rate64) (s\<lparr>s_tree_lock := True\<rparr>)"
  note p1 = changed_params [OF C tok s1_def] and t = tsf_change_full [OF f free s1_def]
  let ?r1 = "replace_child C 0 t_test_qdisc (\<lambda>c q. q\<lparr>t_test_qdisc := c\<rparr>) s1"
  let ?r2 = "\<lambda>s2. replace_child C 1 t_qdisc (\<lambda>c q. q\<lparr>t_qdisc := c\<rparr>) s2"
  have af: "alloc_fails C opt \<longleftrightarrow> t_tlen (s_priv s1) > 0 \<and>
      (isl (fifo_create_dflt C 0 (t_limit (s_priv s1))) \<or> isl (fifo_create_dflt C 1 (t_limit (s_priv s1))))"
    by (simp add: alloc_fails_def f p1)
  have c1: "child_post C c 0 s s1 ?r1" by (rule changed_child [OF C p1(1)]) simp
  show ?thesis
  proof (cases ?r1)
    case (Inl e)
    with c1 ret t p1 af free show ?thesis by (simp add: child_post_def)
  next
    case (Inr s2)
    with c1 have c2: "changed c s s2" "s_tree_lock s2 = s_tree_lock s1" "t_kfifo (s_priv s2) = t_kfifo (s_priv s1)"
        "t_limit (s_priv s2) = t_limit (s_priv s1)" "t_tlen (s_priv s2) = t_tlen (s_priv s1)" "t_ttime (s_priv s2) = t_ttime (s_priv s1)"
        "\<not> (t_tlen (s_priv s1) > 0 \<and> isl (fifo_create_dflt C 0 (t_limit (s_priv s1))))"
      by (simp_all add: child_post_def)
    have c3: "child_post C c 1 s s2 (?r2 s2)" by (rule changed_child [OF C c2(1)]) simp
    show ?thesis
    proof (cases "?r2 s2")
      case (Inl e)
      with c3 ret t p1 c2 af free Inr show ?thesis by (simp add: child_post_def)
    next
      case r2: (Inr s3)
      with c3 c2 have c4: "changed c s s3" "t_kfifo (s_priv s3) = t_kfifo (s_priv s1)" "t_ttime (s_priv s3) = time div 1000"
        and naf: "\<not> alloc_fails C opt" using p1 by (auto simp: af child_post_def)
      obtain err k where init: "kfifo_init (kmalloc_nodes C) (t_kfifo (s_priv s3)) (ucast (t_ttime (s_priv s3))) (ucast rate64) = (err, k)"
        by (rule prod.exhaust)
      with ret t Inr r2 have ret': "ret = (if err < 0 then err else 0)"
        and s': "s' = sch_tree_unlock (upd_priv (\<lambda>q. q\<lparr>t_kfifo := k\<rparr>) s3)" by simp_all
      have "2 \<le> unat (ucast (t_ttime (s_priv s3)) :: u32) \<or> \<not> err < 0"
        using ms ret' by (auto simp: two_ms_def f c4 split: if_splits)
      from change_end [OF C c4(1) _ init this s', of h] slen free naf ret' p1 show ?thesis by (auto simp: c4)
    qed
  qed
qed

section \<open>The reachable states\<close>

text \<open>
  \<open>live K C s U stuck quiet\<close>: the state \<open>s\<close> is reached from a successful \<open>init\<close> by calls that return, in
  any order; \<open>U\<close> are the packets the discipline may still refer to, which the rest of the kernel leaves
  alone (\<open>world\<close>: other packets are written, the clock is read). \<open>stuck\<close> says that a change could not
  create one of its queues, \<open>quiet\<close> that no packet has gone to the limited host. A change may return
  any code. It is made on an empty ring (\<open>kfifo_init\<close> does not reset its byte count), to a rate at
  which the known packets take less than 13 days, and, if it returns an error, with a time of at least
  two milliseconds (else \<open>kfifo_init\<close> returns in the middle, with nodes that are not linked).
\<close>

definition plain :: "('r, 'q) kernel \<Rightarrow> ('r, 'q) sch_state \<Rightarrow> skb \<Rightarrow> bool" where
  "plain K s p \<longleftrightarrow> pkt_ok K (t_rate (s_priv s)) (s_heap s) p \<and> nxt (s_heap s) p = None \<and> \<not> too_big_gso K s p"

definition zeroed :: "('r, 'q) sch_state \<Rightarrow> bool" where
  "zeroed s \<longleftrightarrow> t_tokens (s_priv s) = 0 \<and> k_slen (t_kfifo (s_priv s)) = 0 \<and> \<not> s_tree_lock s"

inductive live :: "('r, 'q) kernel \<Rightarrow> ('o, 's, 'r, 'q) control \<Rightarrow> ('r, 'q) sch_state \<Rightarrow> skb list \<Rightarrow> bool \<Rightarrow> bool \<Rightarrow> bool"
  for K :: "('r, 'q) kernel" and C :: "('o, 's, 'r, 'q) control" where
  start: "zeroed s0 \<Longrightarrow> op_init (tsf_qdisc_ops K C) opt s0 = Inr (0, s) \<Longrightarrow> live K C s [] False True"
| send: "live K C s U stuck quiet \<Longrightarrow> p \<notin> set U \<Longrightarrow> plain K s p \<Longrightarrow>
    op_enqueue (tsf_qdisc_ops K C) p s = Inr (ret, s') \<Longrightarrow> live K C s' (p # U) stuck (quiet \<and> next_dest K p s \<noteq> DEIP)"
| segment: "live K C s U stuck quiet \<Longrightarrow> next_dest K p s = DEIP \<Longrightarrow> too_big_gso K s p \<Longrightarrow> gso_ok K s U p segs h \<Longrightarrow>
    clock_near K (s_clock s) (length segs) (t_t_c (s_priv s)) \<Longrightarrow>
    op_enqueue (tsf_qdisc_ops K C) p s = Inr (ret, s') \<Longrightarrow> live K C s' (segs @ U) stuck False"
| take: "live K C s U stuck quiet \<Longrightarrow> op_dequeue (tsf_qdisc_ops K C) s = Inr (res, s') \<Longrightarrow>
    live K C s' (filter (\<lambda>x. res \<noteq> Some x) U) stuck quiet"
| change: "live K C s U stuck quiet \<Longrightarrow> k_slen (t_kfifo (s_priv s)) = 0 \<Longrightarrow>
    op_change (tsf_qdisc_ops K C) opt' s = Inr (ret, s') \<Longrightarrow> two_ms C opt' \<or> ret = 0 \<Longrightarrow>
    (\<forall>p \<in> set U. unat (l2t K (t_rate (s_priv s')) (pkt_len (s_heap s) p)) < 2 ^ 50) \<Longrightarrow>
    live K C s' U (stuck \<or> alloc_fails C opt') quiet"
| reset: "live K C s U stuck quiet \<Longrightarrow> live K C (op_reset (tsf_qdisc_ops K C) s) U stuck quiet"
| world: "live K C s U stuck quiet \<Longrightarrow> (\<forall>x \<in> set U. nxt h x = nxt (s_heap s) x \<and> pkt_len h x = pkt_len (s_heap s) x) \<Longrightarrow>
    live K C (s\<lparr>s_heap := h, s_clock := n\<rparr>) U stuck quiet"

definition life_inv :: "('r, 'q) kernel \<Rightarrow> ('q \<Rightarrow> skb list) \<Rightarrow> ('r, 'q) sch_state \<Rightarrow> skb list \<Rightarrow> bool \<Rightarrow> bool \<Rightarrow> bool" where
  "life_inv K c s U stuck quiet \<longleftrightarrow> (s_tree_lock s \<longleftrightarrow> stuck) \<and>
     (\<exists>xs ys. tsf_rep K c s xs ys \<and> distinct (xs @ ys @ c (t_test_qdisc (s_priv s))) \<and>
        set (xs @ ys @ c (t_test_qdisc (s_priv s))) \<subseteq> set U \<and> (quiet \<longrightarrow> xs @ ys = []))"

lemma life_invI:
  assumes "tsf_rep K c s xs ys" and "c (t_test_qdisc (s_priv s)) = zs" and "distinct (xs @ ys @ zs)"
    and "set (xs @ ys @ zs) \<subseteq> set U" and "s_tree_lock s \<longleftrightarrow> stuck" and "quiet \<longrightarrow> xs @ ys = []"
  shows "life_inv K c s U stuck quiet"
  using assms by (auto simp: life_inv_def)

lemma life_invE:
  assumes "life_inv K c s U stuck quiet"
  obtains xs ys zs where "tsf_rep K c s xs ys" and "c (t_test_qdisc (s_priv s)) = zs" and "distinct (xs @ ys @ zs)"
    and "set (xs @ ys @ zs) \<subseteq> set U" and "s_tree_lock s \<longleftrightarrow> stuck" and "quiet \<longrightarrow> xs @ ys = []"
  using assms by (auto simp: life_inv_def)

section \<open>Every call keeps the invariant\<close>

lemma thinned:
  assumes "distinct (xs @ ys @ zs)" and "xs' = xs \<or> xs' = []" and "ys' = [] \<or> ys' = ys" and "zs' = [] \<or> zs' = zs"
  shows "distinct (xs' @ ys' @ zs') \<and> set (xs' @ ys' @ zs') \<subseteq> set (xs @ ys @ zs) \<and> (xs @ ys = [] \<longrightarrow> xs' @ ys' = [])"
  using assms(2-4) assms(1) by (elim disjE) auto

lemma change_keeps:
  assumes C: "ctl_ok C c" and inv: "life_inv K c s U stuck quiet" and slen: "k_slen (t_kfifo (s_priv s)) = 0"
    and ret: "tsf_change C opt s = Inr (ret, s')" and ms: "two_ms C opt \<or> ret = 0"
    and cost: "\<forall>p \<in> set U. unat (l2t K (t_rate (s_priv s')) (pkt_len (s_heap s) p)) < 2 ^ 50"
  shows "life_inv K c s' U (stuck \<or> alloc_fails C opt) quiet"
  using inv
proof (rule life_invE)
  fix xs ys zs
  assume rep: "tsf_rep K c s xs ys" and zs: "c (t_test_qdisc (s_priv s)) = zs" and d: "distinct (xs @ ys @ zs)"
    and sub: "set (xs @ ys @ zs) \<subseteq> set U" and lock: "s_tree_lock s \<longleftrightarrow> stuck" and q: "quiet \<longrightarrow> xs @ ys = []"
  then have "unat (t_tokens (s_priv s)) < 2 ^ 62" by (simp add: tsf_rep_def bucket_def)
  from tsf_change_returns [OF C ret slen this ms, of "s_heap s"] consider "s' = s" "full_opt C opt = None"
    | xs' where "\<not> s_tree_lock s" "changed c s s'" "s_tree_lock s' \<longleftrightarrow> alloc_fails C opt"
        "kf_holds (s_heap s) (t_kfifo (s_priv s')) xs'" "xs' = xs \<or> xs' = []"
    using rep [unfolded tsf_rep_def, THEN conjunct1] by (elim disjE conjE) blast+
  then show ?thesis
  proof cases
    case 1
    with inv show ?thesis by (simp add: alloc_fails_def)
  next
    case (2 xs')
    have ys: "c (t_qdisc (s_priv s')) = [] \<or> c (t_qdisc (s_priv s')) = ys"
      using 2(2) rep by (auto simp: tsf_rep_def changed_def)
    have rep': "tsf_rep K c s' xs' (c (t_qdisc (s_priv s')))"
      using 2 ys rep d sub cost by (auto simp: tsf_rep_def pkt_ok_def changed_def)
    have zs': "c (t_test_qdisc (s_priv s')) = [] \<or> c (t_test_qdisc (s_priv s')) = zs"
      using 2(2) zs by (auto simp: changed_def)
    note t = thinned [OF d 2(5) ys zs']
    show ?thesis
    proof (rule life_invI [OF rep' refl])
      show "distinct (xs' @ c (t_qdisc (s_priv s')) @ c (t_test_qdisc (s_priv s')))" using t by (rule conjunct1)
      show "set (xs' @ c (t_qdisc (s_priv s')) @ c (t_test_qdisc (s_priv s'))) \<subseteq> set U" using t sub by blast
      show "s_tree_lock s' \<longleftrightarrow> stuck \<or> alloc_fails C opt" using 2(1,3) lock by simp
      show "quiet \<longrightarrow> xs' @ c (t_qdisc (s_priv s')) = []" using t q by blast
    qed
  qed
qed

lemma init_starts:
  assumes C: "ctl_ok C c" and z: "zeroed s0" and zero: "tsf_init C opt s0 = Inr (0, s)"
  shows "life_inv K c s [] False True"
proof -
  let ?s = "\<lambda>s. upd_priv (\<lambda>q. q\<lparr>t_test_qdisc := noop_qdisc C, t_qdisc := noop_qdisc C\<rparr>) (upd_priv (\<lambda>q. q\<lparr>t_watchdog := None\<rparr>) s)"
  from zero obtain nla where t: "tsf_change C nla (?s s0) = Inr (0, s)"
    by (cases opt) (auto simp: tsf_init_def EINVAL_def Let_def)
  have p: "k_slen (t_kfifo (s_priv (?s s0))) = 0" "unat (t_tokens (s_priv (?s s0))) < 2 ^ 62" "\<not> s_tree_lock (?s s0)"
    using z by (simp_all add: zeroed_def)
  from tsf_change_returns [OF C t p(1,2), of "s_heap s"] have free: "\<not> s_tree_lock s" and
    ch: "changed c (?s s0) s" and h: "kf_holds (s_heap s) (t_kfifo (s_priv s)) []" using p(3) by auto
  then have q: "c (t_qdisc (s_priv s)) = []" "c (t_test_qdisc (s_priv s)) = []" using C by (auto simp: ctl_ok_def changed_def)
  with ch h have "tsf_rep K c s [] []" by (simp add: tsf_rep_def changed_def)
  with free q(2) show ?thesis by (auto intro: life_invI)
qed

lemma send_keeps:
  assumes K: "inner_fifo K c" and inv: "life_inv K c s U stuck quiet" and new: "p \<notin> set U" and pl: "plain K s p"
    and e: "tsf_enqueue K p s = Inr (ret, s')"
  shows "life_inv K c s' (p # U) stuck (quiet \<and> next_dest K p s \<noteq> DEIP)"
  using inv
proof (rule life_invE)
  fix xs ys zs
  assume rep: "tsf_rep K c s xs ys" and zs: "c (t_test_qdisc (s_priv s)) = zs" and d: "distinct (xs @ ys @ zs)"
    and sub: "set (xs @ ys @ zs) \<subseteq> set U" and free: "s_tree_lock s \<longleftrightarrow> stuck" and quiet: "quiet \<longrightarrow> xs @ ys = []"
  show ?thesis
  proof (cases "next_dest K p s = DEIP")
    case True
    with pl have paced: "paced K p s" by (auto simp: plain_def paced_def too_big_gso_def)
    then obtain y ys0 where ys: "ys = y # ys0" using tsf_enqueue_empty [OF K _ paced] rep e by (cases ys) auto
    have "new_ok K s (xs @ y # ys0) p" using pl new sub by (auto simp: new_ok_def plain_def ys)
    from tsf_enqueue_step [OF K rep [unfolded ys] paced this] obtain ret1 s1 moved rest nw waiting where
      "tsf_enqueue K p s = Inr (ret1, s1)" and split: "ys = moved @ rest" and nw: "nw = [] \<or> nw = [p]" and rep1: "tsf_rep K c s1 (xs @ moved @ nw) waiting"
      and wt: "waiting = rest \<or> nw = [] \<and> waiting = rest @ [p] \<or> ret1 = NET_XMIT_DROP \<and> nw = [] \<and> waiting = tl rest"
      and fr1: "sch_frame (p # xs @ ys) (paced_start s) s1" unfolding ys by blast
    with e have rep': "tsf_rep K c s' (xs @ moved @ nw) waiting" and fr: "sch_frame (p # xs @ ys) (paced_start s) s'" by simp_all
    have "set (moved @ nw @ waiting) \<subseteq> insert p (set ys)" using nw wt by (cases rest) (auto simp: split)
    moreover have "distinct ((xs @ moved @ nw) @ waiting)" using rep' by (simp add: tsf_rep_def)
    moreover have "c (t_test_qdisc (s_priv s')) = zs" "s_tree_lock s' \<longleftrightarrow> stuck"
      using fr zs free by (simp_all add: sch_frame_def paced_start_def)
    ultimately show ?thesis using rep' d sub new True by (intro life_invI [OF rep']) auto
  next
    case False
    obtain r h q' where q: "q_enqueue K p (s_heap s) (t_test_qdisc (s_priv s)) = (r, h, q')" by (rule prod_cases3)
    from inner_fifoD(3) [OF K q] zs obtain kept where cq: "c q' = zs @ kept" and kept: "kept = [] \<or> kept = [p]"
      and hf: "heap_frame (s_heap s) h (p # zs)" by (auto split: if_splits)
    obtain s0 where s0: "(case ip_daddr K p of None \<Rightarrow> s | Some a \<Rightarrow> s\<lparr>s_dest := snprintf16 (pI4 K a)\<rparr>) = s0"
      and f: "s_dest s0 = next_dest K p s" "s_priv s0 = s_priv s" "s_heap s0 = s_heap s" "s_tree_lock s0 = s_tree_lock s"
      by (cases "ip_daddr K p") (auto simp: next_dest_def)
    have s': "s_priv s' = (s_priv s)\<lparr>t_test_qdisc := q'\<rparr>" "s_heap s' = h" "s_tree_lock s' \<longleftrightarrow> stuck"
      using e q False free unfolding tsf_enqueue_def s0 by (auto simp: f Let_def split: if_splits)
    have "kf_holds h (t_kfifo (s_priv s)) xs"
      by (rule kf_holds_frame [OF rep [unfolded tsf_rep_def, THEN conjunct1] hf]) (use d sub new in auto)
    then have "tsf_rep K c s' xs ys" using rep hf by (simp add: tsf_rep_def s' pkt_ok_def bucket_def heap_frame_def)
    then show ?thesis by (rule life_invI) (use s' cq kept d sub new quiet in auto)
  qed
qed

lemma segment_keeps:
  assumes K: "inner_fifo K c" and inv: "life_inv K c s U stuck quiet" and d: "next_dest K p s = DEIP" "too_big_gso K s p"
    and g: "gso_ok K s U p segs h" and near: "clock_near K (s_clock s) (length segs) (t_t_c (s_priv s))"
    and e: "tsf_enqueue K p s = Inr (ret, s')"
  shows "life_inv K c s' (segs @ U) stuck False"
  using inv
proof (rule life_invE)
  fix xs ys zs
  assume rep: "tsf_rep K c s xs ys" and zs: "c (t_test_qdisc (s_priv s)) = zs" and dist: "distinct (xs @ ys @ zs)"
    and sub: "set (xs @ ys @ zs) \<subseteq> set U" and free: "s_tree_lock s \<longleftrightarrow> stuck" and quiet: "quiet \<longrightarrow> xs @ ys = []"
  have "gso_ok K s (xs @ ys) p segs h" using g sub by (auto simp: gso_ok_def)
  from tsf_enqueue_segmented_post [OF K rep d this near] e obtain ent kept where
    rep': "tsf_rep K c s' (xs @ ent) (ys @ kept)" and "mset ent + mset kept \<subseteq># mset segs"
    and s': "t_test_qdisc (s_priv s') = t_test_qdisc (s_priv s)" "s_tree_lock s' = s_tree_lock s" by auto
  then have es: "set (ent @ kept) \<subseteq> set segs" using set_mset_mono [of "mset ent + mset kept" "mset segs"] by simp
  have ed: "distinct ((xs @ ent) @ ys @ kept)" using rep' by (simp add: tsf_rep_def)
  have new: "set segs \<inter> set U = {}" using g by (simp add: gso_ok_def)
  have "set (ent @ kept) \<inter> set zs = {}" using es new sub by auto
  with ed dist have "distinct ((xs @ ent) @ (ys @ kept) @ zs)" by auto
  moreover have "set ((xs @ ent) @ (ys @ kept) @ zs) \<subseteq> set (segs @ U)" using es sub by auto
  ultimately show ?thesis using life_invI [OF rep', of zs] zs free s' by simp
qed

lemma take_keeps:
  assumes K: "inner_fifo K c" "same_ops K" "clock_advances K" and inv: "life_inv K c s U stuck quiet"
    and e: "tsf_dequeue K s = Inr (res, s')"
  shows "life_inv K c s' (filter (\<lambda>x. res \<noteq> Some x) U) stuck quiet"
  using inv
proof (rule life_invE)
  fix xs ys zs
  assume rep: "tsf_rep K c s xs ys" and zs: "c (t_test_qdisc (s_priv s)) = zs" and d: "distinct (xs @ ys @ zs)"
    and sub: "set (xs @ ys @ zs) \<subseteq> set U" and free: "s_tree_lock s \<longleftrightarrow> stuck" and quiet: "quiet \<longrightarrow> xs @ ys = []"
  have holds: "kf_holds (s_heap s) (t_kfifo (s_priv s)) xs" using rep by (simp add: tsf_rep_def)
  have ring: ?thesis if t: "ring_take K s = Inr (res, s')"
  proof -
    from ring_take_step [OF holds K(3)] t obtain k' m w where
      s': "s' = s\<lparr>s_clock := m, s_priv := (s_priv s)\<lparr>t_kfifo := k', t_watchdog := w\<rparr>\<rparr>"
      and rate: "k_rate k' = k_rate (t_kfifo (s_priv s))"
      and r: "res = None \<and> kf_holds (s_heap s) k' xs \<or> (\<exists>x xs'. xs = x # xs' \<and> res = Some x \<and> kf_holds (s_heap s) k' xs')"
      by auto
    then obtain xs' where xs: "xs = given res @ xs'" and h': "kf_holds (s_heap s) k' xs'" by (auto simp: given_def)
    have "tsf_rep K c s' xs' ys" using rep h' rate d by (simp add: s' tsf_rep_def xs bucket_def)
    then show ?thesis
      by (rule life_invI [where zs = zs]) (use zs d sub free quiet in \<open>auto simp: s' xs given_def split: option.splits\<close>)
  qed
  have pk: "q_peek K (t_qdisc (s_priv s)) (t_test_qdisc (s_priv s)) = (case zs of [] \<Rightarrow> None | z # _ \<Rightarrow> Some z)"
    using K(2) inner_fifoD(1) [OF K(1)] zs by (metis same_ops_def)
  show ?thesis
  proof (cases "ring_take K s = Inr (res, s')")
    case False
    obtain r h q' where q: "q_dequeue_peeked K (s_heap s) (t_test_qdisc (s_priv s)) = (r, h, q')" by (rule prod_cases3)
    from e False pk obtain z zs' where Z: "zs = z # zs'" and er: "res = r" and s': "s' = upd_priv (\<lambda>q. q\<lparr>t_test_qdisc := q'\<rparr>) (s\<lparr>s_heap := h\<rparr>)"
      by (auto simp: tsf_dequeue_split q split: list.splits option.splits if_splits)
    from inner_fifoD(2) [OF K(1) q] zs have r: "r = Some z" "c q' = zs'" and hf: "heap_frame (s_heap s) h zs"
      by (simp_all add: Z)
    have "kf_holds h (t_kfifo (s_priv s)) xs" using holds hf by (rule kf_holds_frame) (use d in auto)
    then have "tsf_rep K c s' xs ys" using rep hf by (simp add: s' tsf_rep_def pkt_ok_def bucket_def heap_frame_def)
    then show ?thesis by (rule life_invI) (use r d sub free quiet in \<open>auto simp: s' er Z\<close>)
  qed (rule ring)
qed

lemma world_keeps:
  assumes inv: "life_inv K c s U stuck quiet" and "\<forall>x \<in> set U. nxt h x = nxt (s_heap s) x \<and> pkt_len h x = pkt_len (s_heap s) x"
  shows "life_inv K c (s\<lparr>s_heap := h, s_clock := n\<rparr>) U stuck quiet"
  using inv
proof (rule life_invE)
  fix xs ys zs
  assume rep: "tsf_rep K c s xs ys" and zs: "c (t_test_qdisc (s_priv s)) = zs" and d: "distinct (xs @ ys @ zs)"
    and sub: "set (xs @ ys @ zs) \<subseteq> set U" and free: "s_tree_lock s \<longleftrightarrow> stuck" and quiet: "quiet \<longrightarrow> xs @ ys = []"
  have "kf_holds h (t_kfifo (s_priv s)) xs"
    by (rule kf_holds_agree [of "s_heap s"]) (use rep assms(2) sub in \<open>auto simp: tsf_rep_def\<close>)
  moreover have "\<forall>p \<in> set ys. pkt_len h p = pkt_len (s_heap s) p" using assms(2) sub by auto
  ultimately have "tsf_rep K c (s\<lparr>s_heap := h, s_clock := n\<rparr>) xs ys" using rep by (simp add: tsf_rep_def pkt_ok_def)
  then show ?thesis by (rule life_invI) (use zs d sub free quiet in auto)
qed

lemma live_life_inv:
  assumes K: "inner_fifo K c" "same_ops K" "clock_advances K" and C: "ctl_ok C c" and "live K C s U stuck quiet"
  shows "life_inv K c s U stuck quiet"
  using assms(5)
proof (induction rule: live.induct)
  case (start s0 opt s)
  then show ?case using init_starts [OF C] by (simp add: tsf_qdisc_ops_def)
next
  case (send s U stuck quiet p ret s')
  then show ?case using send_keeps [OF K(1)] by (simp add: tsf_qdisc_ops_def)
next
  case (segment s U stuck quiet p segs h ret s')
  then show ?case using segment_keeps [OF K(1)] by (simp add: tsf_qdisc_ops_def)
next
  case (take s U stuck quiet res s')
  then show ?case using take_keeps [OF K] by (simp add: tsf_qdisc_ops_def)
next
  case (change s U stuck quiet opt' ret s')
  then show ?case using change_keeps [OF C change.IH] by (simp add: tsf_qdisc_ops_def)
next
  case (reset s U stuck quiet)
  then show ?case
    by (auto simp: tsf_qdisc_ops_def tsf_reset_def qdisc_watchdog_cancel_def life_inv_def tsf_rep_def bucket_def)
next
  case (world s U stuck quiet h n)
  then show ?case using world_keeps by blast
qed

section \<open>What holds in every reachable state\<close>

lemma life_dequeue_returns:
  assumes K: "inner_fifo K c" "same_ops K" "clock_advances K" and inv: "life_inv K c s U stuck quiet"
    and addr: "\<forall>p \<in> set U. ip_saddr K p \<noteq> None"
  shows "\<exists>res s'. tsf_dequeue K s = Inr (res, s') \<and> (\<forall>x. res = Some x \<longrightarrow> x \<in> set U)"
  using inv
proof (rule life_invE)
  fix xs ys zs
  assume rep: "tsf_rep K c s xs ys" and zs: "c (t_test_qdisc (s_priv s)) = zs" and sub: "set (xs @ ys @ zs) \<subseteq> set U"
  have "kf_holds (s_heap s) (t_kfifo (s_priv s)) xs" using rep by (simp add: tsf_rep_def)
  from ring_take_step [OF this K(3)] sub have ring: "\<exists>res s'. ring_take K s = Inr (res, s') \<and> (\<forall>x. res = Some x \<longrightarrow> x \<in> set U)"
    by fastforce
  have pk: "q_peek K (t_qdisc (s_priv s)) (t_test_qdisc (s_priv s)) = (case zs of [] \<Rightarrow> None | z # _ \<Rightarrow> Some z)"
    using K(2) inner_fifoD(1) [OF K(1)] zs by (metis same_ops_def)
  show ?thesis
  proof (cases zs)
    case (Cons z zs')
    then obtain a where a: "ip_saddr K z = Some a" using addr sub by auto
    obtain r h q' where q: "q_dequeue_peeked K (s_heap s) (t_test_qdisc (s_priv s)) = (r, h, q')" by (rule prod_cases3)
    from inner_fifoD(2) [OF K(1) q] zs have "r = Some z" by (simp add: Cons)
    with ring sub show ?thesis by (auto simp: tsf_dequeue_split pk Cons a q)
  qed (use ring in \<open>simp add: tsf_dequeue_split pk\<close>)
qed

lemma life_enqueue_outcome:
  assumes K: "inner_fifo K c" and inv: "life_inv K c s U stuck quiet" and new: "p \<notin> set U" and pl: "plain K s p"
  shows "tsf_enqueue K p s = Inl NullDeref \<and> next_dest K p s = DEIP \<and> c (t_qdisc (s_priv s)) = [] \<or>
    (\<exists>ret s'. tsf_enqueue K p s = Inr (ret, s')) \<and> (next_dest K p s \<noteq> DEIP \<or> c (t_qdisc (s_priv s)) \<noteq> [])"
  using inv
proof (rule life_invE)
  fix xs ys zs
  assume rep: "tsf_rep K c s xs ys" and sub: "set (xs @ ys @ zs) \<subseteq> set U"
  then have ys: "c (t_qdisc (s_priv s)) = ys" by (simp add: tsf_rep_def)
  show ?thesis
  proof (cases "next_dest K p s = DEIP")
    case True
    with pl have paced: "paced K p s" by (auto simp: plain_def paced_def too_big_gso_def)
    show ?thesis
    proof (cases ys)
      case Nil
      with tsf_enqueue_empty [OF K _ paced] rep True ys show ?thesis by auto
    next
      case (Cons y ys0)
      have "new_ok K s (xs @ y # ys0) p" using pl new sub by (auto simp: new_ok_def plain_def Cons)
      from tsf_enqueue_step [OF K rep [unfolded Cons] paced this]
      have "\<exists>ret s'. tsf_enqueue K p s = Inr (ret, s')" by blast
      with ys Cons show ?thesis by simp
    qed
  next
    case False
    obtain r h q' where q: "q_enqueue K p (s_heap s) (t_test_qdisc (s_priv s)) = (r, h, q')" by (rule prod_cases3)
    have "\<exists>ret s'. tsf_enqueue K p s = Inr (ret, s')"
      using False q by (cases "ip_daddr K p") (auto simp: tsf_enqueue_def next_dest_def Let_def)
    with False show ?thesis by blast
  qed
qed

text \<open>A change waits for ever for a held lock, if it has its three attributes; the others are refused at once.\<close>

lemma change_deadlocks_iff: "tsf_change C opt s = Inl Deadlock \<longleftrightarrow> s_tree_lock s \<and> full_opt C opt \<noteq> None"
proof (cases "full_opt C opt")
  case None
  from full_opt_None [OF this, of s] show ?thesis by (auto simp: None)
next
  case (Some v)
  obtain qopt time rate64 where v: "v = (qopt, time, rate64)" by (rule prod_cases3)
  then obtain tb where "nla_parse_nested C opt = Inr tb" "tb_parms tb = Some qopt" "tb_time tb = Some time"
      "tb_rate64 tb = Some rate64" using Some by (auto simp: full_opt_Some)
  then show ?thesis
    by (auto simp: tsf_change_def sch_tree_lock_def Some Let_def split: sum.splits prod.splits)
qed

text \<open>
  C5. The life of the discipline. In every state that a successful \<open>init\<close> on zeroed private data and calls of the operations in any
  order can reach (enqueues of packets to any host, plain or segmented, dequeues, resets, and changes,
  whatever they return, made on an empty ring and, if they fail, with a time of two milliseconds or more;
  the rest of the kernel acts in between): the tree lock is held exactly when a change could not create one of its
  queues, and from then on every change with its three attributes waits for ever; ring, inner queue and test
  queue hold disjoint packets that are known, ring and bucket are in order; if the packets have a source
  address a dequeue returns, with a known packet or none; and a further plain packet makes \<open>enqueue\<close> fault
  in one case only: it goes to the limited host and the inner queue is empty.
\<close>

theorem qdisc_lifecycle:
  assumes "inner_fifo K c" and "same_ops K" and "clock_advances K" and "ctl_ok C c" and "live K C s U stuck quiet"
  shows "(s_tree_lock s \<longleftrightarrow> stuck) \<and>
    (\<forall>opt. op_change (tsf_qdisc_ops K C) opt s = Inl Deadlock \<longleftrightarrow> stuck \<and> full_opt C opt \<noteq> None) \<and>
    (\<exists>xs ys. tsf_rep K c s xs ys \<and> distinct (xs @ ys @ c (t_test_qdisc (s_priv s))) \<and>
       set (xs @ ys @ c (t_test_qdisc (s_priv s))) \<subseteq> set U) \<and>
    ((\<forall>p \<in> set U. ip_saddr K p \<noteq> None) \<longrightarrow>
       (\<exists>res s'. op_dequeue (tsf_qdisc_ops K C) s = Inr (res, s') \<and> (\<forall>x. res = Some x \<longrightarrow> x \<in> set U))) \<and>
    (\<forall>p. p \<notin> set U \<and> plain K s p \<longrightarrow>
       op_enqueue (tsf_qdisc_ops K C) p s = Inl NullDeref \<and> next_dest K p s = DEIP \<and> c (t_qdisc (s_priv s)) = [] \<or>
       (\<exists>ret s'. op_enqueue (tsf_qdisc_ops K C) p s = Inr (ret, s')) \<and>
         (next_dest K p s \<noteq> DEIP \<or> c (t_qdisc (s_priv s)) \<noteq> []))"
proof -
  from live_life_inv [OF assms] have inv: "life_inv K c s U stuck quiet" .
  then have lock: "s_tree_lock s \<longleftrightarrow> stuck" by (simp add: life_inv_def)
  show ?thesis
    using inv lock life_dequeue_returns [OF assms(1-3) inv] life_enqueue_outcome [OF assms(1) inv]
    unfolding life_inv_def tsf_qdisc_ops_def Qdisc_ops.simps change_deadlocks_iff by blast
qed

text \<open>A kernel with little memory: queues of more than 4000 bytes cannot be created.\<close>

definition full_control :: "(unit tsf_attr list, unit, unit, skb list) control" where
  "full_control = (ex_control (Inr []))\<lparr>fifo_create_dflt := (\<lambda>_ limit. if limit \<le> 4000 then Inr [] else Inl (- 12))\<rparr>"

definition big_attrs :: "unit tsf_attr list" where
  "big_attrs = [TCA_TSF_PARMS \<lparr>o_rate = (), o_time = 0\<rparr>, TCA_TSF_TIME 4000, TCA_TSF_RATE64 2000000]"

lemma full_ctl: "ctl_ok full_control (\<lambda>q. q)"
  by (simp add: ctl_ok_def full_control_def ex_control_def kmalloc_ok_def ex_mem_def)

lemma full_opts:
  "full_opt full_control ex_attrs = Some (\<lparr>o_rate = (), o_time = 0\<rparr>, 4000, 1000000)"
  "full_opt full_control big_attrs = Some (\<lparr>o_rate = (), o_time = 0\<rparr>, 4000, 2000000)"
  by (simp_all add: full_opt_def full_control_def ex_control_def ex_attrs_def big_attrs_def)

lemma ex_same_ops: "same_ops ex_kernel"
  by (simp add: same_ops_def ex_kernel_def)

lemma ex_zeroed: "zeroed (ex_state 0 0 [5])"
  by (simp add: zeroed_def ex_state_def ex_priv_def ex_ring_eq blank_ring_def)

text \<open>A limiter that has been set up and has taken packet 60, which goes to another host.\<close>

lemma ex_run:
  obtains s where "live ex_kernel full_control s [60] False True" and "s_heap s = ex_heap"
    and "k_slen (t_kfifo (s_priv s)) = 0" and "\<not> s_tree_lock s"
proof -
  have "\<exists>s. tsf_init full_control (Some ex_attrs) (ex_state 0 0 [5]) = Inr (0, s) \<and> s_heap s = ex_heap \<and>
      k_slen (t_kfifo (s_priv s)) = 0 \<and> \<not> s_tree_lock s"
    by (simp add: tsf_init_def tsf_change_def full_control_def ex_control_def ex_attrs_def ex_state_def ex_priv_def sch_tree_lock_def
        sch_tree_unlock_def replace_child_def set_params_def kfifo_init_def ex_mem_def ex_ring_eq blank_ring_def Let_def)
  then obtain s where i: "tsf_init full_control (Some ex_attrs) (ex_state 0 0 [5]) = Inr (0, s)"
    and h: "s_heap s = ex_heap" and k: "k_slen (t_kfifo (s_priv s)) = 0" and l: "\<not> s_tree_lock s" by blast
  have s: "live ex_kernel full_control s [] False True"
    by (rule live.start [where opt = "Some ex_attrs", OF ex_zeroed]) (simp add: tsf_qdisc_ops_def i)
  have d: "next_dest ex_kernel 60 s \<noteq> DEIP" by (simp add: next_dest_def ex_kernel_def snprintf16_def DEIP_def)
  have "\<exists>s1. tsf_enqueue ex_kernel 60 s = Inr (NET_XMIT_SUCCESS, s1) \<and> s_heap s1 = ex_heap \<and>
      k_slen (t_kfifo (s_priv s1)) = 0 \<and> \<not> s_tree_lock s1"
    using h k l by (simp add: tsf_enqueue_def ex_kernel_def snprintf16_def DEIP_def Let_def)
  then obtain s1 where e: "tsf_enqueue ex_kernel 60 s = Inr (NET_XMIT_SUCCESS, s1)"
    and r: "s_heap s1 = ex_heap" "k_slen (t_kfifo (s_priv s1)) = 0" "\<not> s_tree_lock s1" by blast
  have "plain ex_kernel s 60"
    by (simp add: plain_def pkt_ok_def ex_kernel_def ex_l2t_def h ex_heap_def too_big_gso_def)
  from live.send [OF s _ this, of NET_XMIT_SUCCESS s1] e d have "live ex_kernel full_control s1 [60] False True"
    by (simp add: tsf_qdisc_ops_def)
  then show ?thesis using r by (rule that)
qed

theorem qdisc_lifecycle_witness:
  "\<exists>s. live ex_kernel full_control s [60] True True \<and> s_tree_lock s \<and>
     op_change (tsf_qdisc_ops ex_kernel full_control) ex_attrs s = Inl Deadlock \<and>
     (\<exists>res s'. op_dequeue (tsf_qdisc_ops ex_kernel full_control) s = Inr (res, s') \<and> (\<forall>x. res = Some x \<longrightarrow> x = 60))"
proof -
  obtain s where s: "live ex_kernel full_control s [60] False True" and h: "s_heap s = ex_heap"
    and k: "k_slen (t_kfifo (s_priv s)) = 0" and free: "\<not> s_tree_lock s" by (rule ex_run)
  have "\<exists>s'. tsf_change full_control big_attrs s = Inr (- 12, s')"
    using free by (simp add: tsf_change_def full_control_def ex_control_def big_attrs_def sch_tree_lock_def
        replace_child_def set_params_def Let_def)
  then obtain s' where c: "op_change (tsf_qdisc_ops ex_kernel full_control) big_attrs s = Inr (- 12, s')"
    by (auto simp: tsf_qdisc_ops_def)
  have "two_ms full_control big_attrs" "alloc_fails full_control big_attrs"
    unfolding two_ms_def alloc_fails_def full_opts by (simp_all add: full_control_def ex_control_def)
  moreover have "\<forall>p \<in> set [60]. unat (l2t ex_kernel (t_rate (s_priv s')) (pkt_len (s_heap s) p)) < 2 ^ 50"
    by (simp add: ex_kernel_def ex_l2t_def h ex_heap_def)
  ultimately have l: "live ex_kernel full_control s' [60] True True"
    using live.change [OF s k c] by simp
  note L = qdisc_lifecycle [OF ex_inner ex_same_ops ex_clock full_ctl l]
  have "s_tree_lock s'" "op_change (tsf_qdisc_ops ex_kernel full_control) ex_attrs s' = Inl Deadlock"
    using L [THEN conjunct1] L [THEN conjunct2, THEN conjunct1] by (simp_all add: full_opts)
  moreover note L [THEN conjunct2, THEN conjunct2, THEN conjunct2, THEN conjunct1]
  moreover have "ip_saddr ex_kernel 60 \<noteq> None" by (simp add: ex_kernel_def)
  ultimately show ?thesis using l by auto
qed

text \<open>
  C13. A limiter does not survive its first packet. As long as no packet has gone to the limited
  host since \<open>init\<close> returned 0 (packets for other hosts may have been enqueued and taken, the discipline
  may have been changed and reset), ring and inner queue are empty; so the first packet to the limited host, if it
  is not one that \<open>tsf_segment\<close> handles, makes \<open>tsf_enqueue\<close> follow the null pointer.
\<close>

theorem first_packet_faults:
  assumes "inner_fifo K c" and "same_ops K" and "clock_advances K" and "ctl_ok C c" and "live K C s U stuck True"
    and "paced K p s"
  shows "op_enqueue (tsf_qdisc_ops K C) p s = Inl NullDeref \<and> c (t_qdisc (s_priv s)) = [] \<and>
    kf_holds (s_heap s) (t_kfifo (s_priv s)) []"
proof -
  from live_life_inv [OF assms(1-5)] have rep: "tsf_rep K c s [] []" by (auto simp: life_inv_def)
  with tsf_enqueue_empty [OF assms(1) this assms(6)] show ?thesis by (simp add: tsf_qdisc_ops_def tsf_rep_def)
qed

theorem first_packet_faults_witness:
  "\<exists>s. live ex_kernel full_control s [60] False True \<and> op_enqueue (tsf_qdisc_ops ex_kernel full_control) 7 s = Inl NullDeref"
proof -
  obtain s where s: "live ex_kernel full_control s [60] False True" by (rule ex_run)
  have "paced ex_kernel 7 s" by (simp add: paced_def next_dest_def ex_kernel_def snprintf16_def DEIP_def)
  from first_packet_faults [OF ex_inner ex_same_ops ex_clock full_ctl s this] s show ?thesis by blast
qed

end
