(* ===== verification/Tsf_Serve.thy ===== *)
theory Tsf_Serve
  imports Tsf_Run
begin

text \<open>
  How \<open>tsf_dequeue\<close> serves its two queues: a sequence of calls empties both, unless the first packet of the
  test queue has the limited host as its source; that one stays for good, and everything behind it.
\<close>

section \<open>The queues are emptied\<close>

lemma drain_ring:
  assumes K: "inner_fifo K c" "same_ops K" "clock_advances K" and "run_inv K c s xs ys [] todo"
    and "2 * length xs \<le> n + (if reader_sleeps (t_kfifo (s_priv s)) then 0 else 1)"
  shows "\<exists>s'. tsf_run K (replicate n Take) s = (xs, None, s') \<and> run_inv K c s' [] ys [] todo"
  using assms(4,5)
proof (induction n arbitrary: s xs)
  case 0
  then have "xs = []" by (cases xs) (auto split: if_splits)
  with 0 show ?case by simp
next
  case (Suc n)
  from take_ring [OF K(3) Suc.prems(1)] obtain res s1 xs1 where t: "ring_take K s = Inr (res, s1)"
    and inv: "run_inv K c s1 xs1 ys [] todo" and xs: "xs = given res @ xs1"
    and sleep: "res = None \<and> xs \<noteq> [] \<longrightarrow> reader_sleeps (t_kfifo (s_priv s)) \<and> \<not> reader_sleeps (t_kfifo (s_priv s1))" by blast
  have "2 * length xs1 \<le> n + (if reader_sleeps (t_kfifo (s_priv s1)) then 0 else 1)"
    using Suc.prems(2) sleep unfolding xs by (cases res; cases xs1) (auto simp: given_def split: if_splits)
  from Suc.IH [OF inv this] obtain s' where "tsf_run K (replicate n Take) s1 = (xs1, None, s')" "run_inv K c s' [] ys [] todo"
    by blast
  with t xs show ?case by (simp add: take_which [OF K(1,2) Suc.prems(1)])
qed

lemma drain_all:
  assumes K: "inner_fifo K c" "same_ops K" "clock_advances K" and "run_inv K c s xs ys zs todo"
    and "\<forall>z \<in> set zs. \<not> from_limited K z"
  shows "\<exists>s'. tsf_run K (replicate (length zs + 2 * length xs) Take) s = (zs @ xs, None, s') \<and> run_inv K c s' [] ys [] todo"
  using assms(4,5)
proof (induction zs arbitrary: s)
  case Nil
  from drain_ring [OF K Nil(1), of "2 * length xs"] show ?case by simp
next
  case (Cons z zs)
  from take_test [OF K(1,2) Cons.prems(1)] Cons.prems(2) obtain s1 where
    t: "tsf_dequeue K s = Inr (Some z, s1)" and inv: "run_inv K c s1 xs ys zs todo" by auto
  from Cons.IH [OF inv] Cons.prems(2) t show ?case by (auto simp: given_def)
qed

section \<open>A packet that stays\<close>

lemma run_starved:
  assumes K: "inner_fifo K c" "same_ops K" "clock_advances K" and "run_inv K c s xs ys (z # zs) (sends cs)"
    and z: "from_limited K z" and "tsf_run K cs s = (outs, f, s')"
  shows "(\<forall>p \<in> set outs. limited K p) \<and> (\<exists>ws. c (t_test_qdisc (s_priv s')) = z # zs @ ws)"
  using assms(4,6)
proof (induction cs arbitrary: s xs ys zs outs)
  case Nil
  then show ?case using run_invD(5) by fastforce
next
  case (Cons call cs)
  show ?case
  proof (cases call)
    case (Send p)
    with Cons.prems(1) have inv: "run_inv K c s xs ys (z # zs) (p # sends cs)" by simp
    show ?thesis
    proof (cases "tsf_enqueue K p s")
      case (Inl e)
      with Cons.prems(2) Send run_invD(5) [OF inv] show ?thesis by auto
    next
      case (Inr r)
      then obtain ret s1 where e: "tsf_enqueue K p s = Inr (ret, s1)" by (cases r) simp
      from send_step [OF K(1) inv e] obtain xs1 ys1 zs1 where inv1: "run_inv K c s1 xs1 ys1 zs1 (sends cs)"
        and "accounts K [p] [] s xs ys (z # zs) s1 xs1 ys1 zs1" by blast
      then obtain kept where k: "zs1 = z # zs @ kept" by (auto simp: accounts_def)
      from Cons.IH [OF inv1 [unfolded k]] Cons.prems(2) Send e show ?thesis by auto
    qed
  next
    case Take
    with Cons.prems(1) have inv: "run_inv K c s xs ys (z # zs) (sends cs)" by simp
    have d: "tsf_dequeue K s = ring_take K s" by (rule take_which [OF K(1,2) inv]) (simp add: z)
    from take_ring [OF K(3) inv] obtain res s1 xs1 where t: "ring_take K s = Inr (res, s1)"
      and inv1: "run_inv K c s1 xs1 ys (z # zs) (sends cs)" and xs: "xs = given res @ xs1" by blast
    obtain outs2 where "tsf_run K cs s1 = (outs2, f, s')" "outs = given res @ outs2"
      using Cons.prems(2) unfolding Take tsf_run.simps d t by (auto split: prod.splits)
    moreover have "\<forall>p \<in> set (given res). limited K p" using inv unfolding xs by (auto simp: run_inv_def)
    ultimately show ?thesis using Cons.IH [OF inv1] by auto
  qed
qed

section \<open>Properties\<close>

text \<open>
  C8. Dequeue empties the discipline's queues. From any state in order in which no packet of the test
  queue comes from the limited host, as many calls of \<open>tsf_dequeue\<close> as there are packets in that queue and
  two for each packet of the ring give out all of them without a fault: first the test queue, then the
  ring, each in order. (The packets of the inner queue wait for the next \<open>tsf_enqueue\<close>.)
\<close>

theorem tsf_dequeue_drains:
  assumes "inner_fifo K c" and "same_ops K" and "clock_advances K" and "run_inv K c s xs ys zs []"
    and "\<forall>z \<in> set zs. \<not> from_limited K z"
  shows "\<exists>s'. tsf_run K (replicate (length zs + 2 * length xs) Take) s = (zs @ xs, None, s') \<and> run_inv K c s' [] ys [] []"
  using assms by (rule drain_all)

definition ex_both :: "(unit, skb list) sch_state" where
  "ex_both = (ex_state 2000000 0 [])\<lparr>s_priv := (ex_priv 2000000 0 [])\<lparr>t_kfifo := ex_ring7, t_test_qdisc := [60, 61]\<rparr>\<rparr>"

definition ex_forward :: "(unit, skb list) kernel" where
  "ex_forward = ex_kernel\<lparr>ip_saddr := \<lambda>_. Some 1\<rparr>"

lemma ex_forward_ok: "inner_fifo ex_forward (\<lambda>q. q)" "same_ops ex_forward" "clock_advances ex_forward"
  using ex_inner ex_clock by (simp_all add: ex_forward_def inner_fifo_def same_ops_def clock_advances_def ex_kernel_def)

lemma ex_both_inv: "K = ex_kernel \<or> K = ex_forward \<Longrightarrow> run_inv K (\<lambda>q. q) ex_both [7] [] [60, 61] []"
  using ex_ring7_holds
  by (auto simp: run_inv_def tsf_rep_def ex_both_def ex_state_def ex_priv_def limited_def ex_forward_def ex_kernel_def
      bucket_def pkt_ok_def ex_ring7_def ex_heap_def ex_l2t_def snprintf16_def DEIP_def)

theorem tsf_dequeue_drains_witness:
  "\<exists>s'. tsf_run ex_kernel [Take, Take, Take, Take] ex_both = ([60, 61, 7], None, s')"
proof -
  have ops: "same_ops ex_kernel" by (simp add: same_ops_def ex_kernel_def)
  have z: "\<forall>z \<in> set [60, 61]. \<not> from_limited ex_kernel z"
    by (simp add: from_limited_def ex_kernel_def snprintf16_def DEIP_def)
  have n: "length [60, 61 :: skb] + 2 * length [7 :: skb] = Suc (Suc (Suc (Suc 0)))" by simp
  from tsf_dequeue_drains [OF ex_inner ops ex_clock ex_both_inv z] show ?thesis
    unfolding n replicate.simps by auto
qed

text \<open>
  C9. A packet from the limited host blocks the others. When the first packet of the test queue has the
  limited host as its source, it never leaves: over every sequence of calls only packets to the limited
  host come out, and the test queue keeps all it holds and what is added behind.
\<close>

theorem test_queue_starves:
  assumes "inner_fifo K c" and "same_ops K" and "clock_advances K" and "run_inv K c s xs ys (z # zs) (sends cs)"
    and "from_limited K z" and "tsf_run K cs s = (outs, f, s')"
  shows "(\<forall>p \<in> set outs. limited K p) \<and> (\<exists>ws. c (t_test_qdisc (s_priv s')) = z # zs @ ws)"
  using assms by (rule run_starved)

theorem test_queue_starves_witness:
  "\<exists>outs f s'. tsf_run ex_forward [Take, Take, Take] ex_both = (outs, f, s') \<and> 60 \<notin> set outs \<and>
     (\<exists>ws. t_test_qdisc (s_priv s') = [60, 61] @ ws)"
proof -
  obtain outs f s' where r: "tsf_run ex_forward [Take, Take, Take] ex_both = (outs, f, s')" by (rule prod_cases3)
  have inv: "run_inv ex_forward (\<lambda>q. q) ex_both [7] [] [60, 61] (sends [Take, Take, Take])" using ex_both_inv by simp
  have z: "from_limited ex_forward 60" by (simp add: from_limited_def ex_forward_def ex_kernel_def snprintf16_def DEIP_def)
  have "\<not> limited ex_forward 60" by (simp add: limited_def ex_forward_def ex_kernel_def snprintf16_def DEIP_def)
  with test_queue_starves [OF ex_forward_ok inv z r] r show ?thesis by auto
qed

end
