(* ===== verification/Dbl.thy ===== *)
theory Dbl
  imports Prelude "HOL-Library.Log_Nat"
begin

text \<open>
  The type \<open>double\<close> of the measuring programs: IEEE binary64 with rounding to nearest, ties to even,
  computed on rationals. A finite value is the rational it stands for; the two zeros are one value,
  which no operation of the sources can tell apart (they never divide by a zero that could be negative).
  Comparisons with a NaN are false, and the conversion to \<open>int\<close> truncates and is undefined outside the
  range of \<open>int\<close>.
\<close>

datatype dbl = NInf | Fin rat | PInf | NaN

section \<open>Rounding\<close>

text \<open>The exponent of the last bit of the significand: 53 bits, not below the subnormal range.\<close>

definition exp_of :: "rat \<Rightarrow> int" where
  "exp_of r =
     (case quotient_of \<bar>r\<bar> of (p, q) \<Rightarrow>
        (let k = bitlen p - bitlen q
         in max (if \<bar>r\<bar> < 2 powi k then k - 53 else k - 52) (- 1074)))"

definition half_even :: "rat \<Rightarrow> int" where
  "half_even x =
     (let f = \<lfloor>x\<rfloor>; d = x - of_int f
      in if d < 1 / 2 then f else if d > 1 / 2 then f + 1 else if even f then f else f + 1)"

definition rnd :: "rat \<Rightarrow> dbl" where
  "rnd r =
     (let e = exp_of r; v = of_int (half_even (\<bar>r\<bar> / 2 powi e)) * 2 powi e
      in if v \<ge> 2 ^ 1024 then (if r > 0 then PInf else NInf) else Fin (sgn r * v))"

section \<open>Operations\<close>

definition of_int_d :: "int \<Rightarrow> dbl" where
  "of_int_d n = rnd (of_int n)"

fun dadd :: "dbl \<Rightarrow> dbl \<Rightarrow> dbl" where
  "dadd (Fin x) (Fin y) = rnd (x + y)"
| "dadd NaN y = NaN"
| "dadd x NaN = NaN"
| "dadd PInf NInf = NaN"
| "dadd NInf PInf = NaN"
| "dadd PInf y = PInf"
| "dadd NInf y = NInf"
| "dadd x PInf = PInf"
| "dadd x NInf = NInf"

fun dneg :: "dbl \<Rightarrow> dbl" where
  "dneg (Fin x) = Fin (- x)"
| "dneg PInf = NInf"
| "dneg NInf = PInf"
| "dneg NaN = NaN"

definition dsub :: "dbl \<Rightarrow> dbl \<Rightarrow> dbl" where
  "dsub x y = dadd x (dneg y)"

definition inf_sgn :: "rat \<Rightarrow> dbl" where
  "inf_sgn s = (if s > 0 then PInf else if s < 0 then NInf else NaN)"

fun dmul :: "dbl \<Rightarrow> dbl \<Rightarrow> dbl" where
  "dmul (Fin x) (Fin y) = rnd (x * y)"
| "dmul NaN y = NaN"
| "dmul x NaN = NaN"
| "dmul (Fin x) PInf = inf_sgn x"
| "dmul (Fin x) NInf = inf_sgn (- x)"
| "dmul PInf (Fin y) = inf_sgn y"
| "dmul NInf (Fin y) = inf_sgn (- y)"
| "dmul PInf y = y"
| "dmul NInf y = dneg y"

fun ddiv :: "dbl \<Rightarrow> dbl \<Rightarrow> dbl" where
  "ddiv (Fin x) (Fin y) = (if y = 0 then inf_sgn x else rnd (x / y))"
| "ddiv NaN y = NaN"
| "ddiv x NaN = NaN"
| "ddiv PInf (Fin y) = (if y < 0 then NInf else PInf)"
| "ddiv NInf (Fin y) = (if y < 0 then PInf else NInf)"
| "ddiv (Fin x) y = Fin 0"
| "ddiv x y = NaN"

fun dlt :: "dbl \<Rightarrow> dbl \<Rightarrow> bool" where
  "dlt (Fin x) (Fin y) = (x < y)"
| "dlt NaN y = False"
| "dlt x NaN = False"
| "dlt NInf y = (y \<noteq> NInf)"
| "dlt x NInf = False"
| "dlt PInf y = False"
| "dlt x PInf = True"

definition deq :: "dbl \<Rightarrow> dbl \<Rightarrow> bool" where
  "deq x y = (x = y \<and> x \<noteq> NaN)"

definition dge :: "dbl \<Rightarrow> dbl \<Rightarrow> bool" where
  "dge x y = (dlt y x \<or> deq x y)"

text \<open>The conversion to \<open>int\<close>.\<close>

fun trunc_int :: "dbl \<Rightarrow> fault + int" where
  "trunc_int (Fin x) =
     (let n = (if x < 0 then - \<lfloor>- x\<rfloor> else \<lfloor>x\<rfloor>)
      in if - 2147483648 \<le> n \<and> n < 2147483648 then Inr n else Inl Undefined)"
| "trunc_int x = Inl Undefined"

text \<open>Every value, NaN last: the order \<open>sort\<close> uses, which agrees with \<open>dlt\<close> on what is not a NaN.\<close>

instantiation dbl :: linorder
begin

definition less_dbl :: "dbl \<Rightarrow> dbl \<Rightarrow> bool" where
  "less_dbl x y = (dlt x y \<or> (x \<noteq> NaN \<and> y = NaN))"

definition less_eq_dbl :: "dbl \<Rightarrow> dbl \<Rightarrow> bool" where
  "less_eq_dbl x y = (x = y \<or> x < y)"

instance
proof
  fix x y z :: dbl
  show "(x < y) = (x \<le> y \<and> \<not> y \<le> x)"
    by (cases x; cases y) (auto simp: less_dbl_def less_eq_dbl_def)
  show "x \<le> x" by (simp add: less_eq_dbl_def)
  show "x \<le> z" if "x \<le> y" and "y \<le> z"
    using that by (cases x; cases y; cases z) (auto simp: less_dbl_def less_eq_dbl_def)
  show "x = y" if "x \<le> y" and "y \<le> x"
    using that by (cases x; cases y) (auto simp: less_dbl_def less_eq_dbl_def)
  show "x \<le> y \<or> y \<le> x"
    by (cases x; cases y) (auto simp: less_dbl_def less_eq_dbl_def)
qed

end

section \<open>What is exact\<close>

lemma bitlen_powi:
  assumes "0 < x"
  shows "(2 :: rat) powi (bitlen x - 1) \<le> of_int x" and "of_int x < (2 :: rat) powi (bitlen x)"
proof -
  have b: "1 \<le> bitlen x" using assms bitlen_eq_zero_iff [of x] bitlen_nonneg [of x] by linarith
  have "(2 :: rat) powi (bitlen x - 1) = of_int (2 ^ nat (bitlen x - 1))"
    using b by (simp add: power_int_def)
  also have "\<dots> \<le> of_int x" using bitlen_bounds [OF assms] by (simp only: of_int_le_iff)
  finally show "(2 :: rat) powi (bitlen x - 1) \<le> of_int x" .
  have "of_int x < (of_int (2 ^ nat (bitlen x)) :: rat)" using bitlen_bounds [OF assms] by (simp only: of_int_less_iff)
  also have "\<dots> = 2 powi (bitlen x)" using b by (simp add: power_int_def)
  finally show "of_int x < (2 :: rat) powi (bitlen x)" .
qed

lemma powi2_diff: "(2 :: rat) powi (a - b) = 2 powi a / 2 powi b"
  by (rule power_int_diff) simp

lemma exp_of_bounds:
  assumes "r \<noteq> 0"
  shows "exp_of r = - 1074 \<or> 2 powi (exp_of r + 52) \<le> \<bar>r\<bar>" and "\<bar>r\<bar> < 2 powi (exp_of r + 53)"
proof -
  obtain p q where pq: "quotient_of \<bar>r\<bar> = (p, q)" by fastforce
  have q: "0 < q" using quotient_of_denom_pos [OF pq] .
  have r: "\<bar>r\<bar> = of_int p / of_int q" using quotient_of_div [OF pq] .
  have "0 < \<bar>r\<bar>" using assms by simp
  with q have p: "0 < p" unfolding r by (simp add: zero_less_divide_iff)
  let ?k = "bitlen p - bitlen q"
  let ?e = "if \<bar>r\<bar> < 2 powi ?k then ?k - 53 else ?k - 52"
  have e: "exp_of r = max ?e (- 1074)" by (simp add: exp_of_def pq)
  have "of_int q * 2 powi (?k - 1) \<le> (of_int p :: rat)"
  proof -
    have "of_int q * (2 :: rat) powi (?k - 1) \<le> 2 powi (bitlen q) * 2 powi (?k - 1)"
      using bitlen_powi(2) [OF q] by (intro mult_right_mono) simp_all
    also have "\<dots> = 2 powi (bitlen p - 1)" by (subst power_int_add [symmetric]) simp_all
    also note bitlen_powi(1) [OF p]
    finally show ?thesis .
  qed
  then have lo: "2 powi (?k - 1) \<le> \<bar>r\<bar>" unfolding r using q by (simp add: field_simps)
  have "of_int p < of_int q * (2 :: rat) powi (?k + 1)"
  proof -
    note bitlen_powi(2) [OF p]
    also have "(2 :: rat) powi (bitlen p) = 2 powi (bitlen q - 1) * 2 powi (?k + 1)"
      by (subst power_int_add [symmetric]) simp_all
    also have "\<dots> \<le> of_int q * 2 powi (?k + 1)"
      using bitlen_powi(1) [OF q] by (intro mult_right_mono) simp_all
    finally show ?thesis .
  qed
  then have hi: "\<bar>r\<bar> < 2 powi (?k + 1)" unfolding r using q by (simp add: field_simps)
  have "2 powi (?e + 52) \<le> \<bar>r\<bar>" using lo by (simp add: not_less)
  then show "exp_of r = - 1074 \<or> 2 powi (exp_of r + 52) \<le> \<bar>r\<bar>" unfolding e by (auto simp: max_def)
  have "\<bar>r\<bar> < 2 powi (?e + 53)" using hi by (simp add: add.commute)
  also have "\<dots> \<le> 2 powi (exp_of r + 53)" unfolding e by (intro power_int_increasing) simp_all
  finally show "\<bar>r\<bar> < 2 powi (exp_of r + 53)" .
qed

lemma exp_of_eq:
  assumes "2 powi (e + 52) \<le> \<bar>r\<bar>" and "\<bar>r\<bar> < 2 powi (e + 53)" and "- 1074 \<le> e"
  shows "exp_of r = e"
proof (rule antisym)
  have "(0 :: rat) < 2 powi (e + 52)" by simp
  with assms(1) have r0: "r \<noteq> 0" by (metis abs_zero not_less)
  have "\<not> exp_of r + 53 \<le> e + 52"
  proof
    assume "exp_of r + 53 \<le> e + 52"
    then have "(2 :: rat) powi (exp_of r + 53) \<le> 2 powi (e + 52)" by (rule power_int_increasing) simp
    with exp_of_bounds(2) [OF r0] assms(1) show False by linarith
  qed
  then show "e \<le> exp_of r" by linarith
  have "\<not> e + 53 \<le> exp_of r + 52" if "exp_of r \<noteq> - 1074"
  proof
    assume "e + 53 \<le> exp_of r + 52"
    then have "(2 :: rat) powi (e + 53) \<le> 2 powi (exp_of r + 52)" by (rule power_int_increasing) simp
    with exp_of_bounds(1) [OF r0] that assms(2) show False by linarith
  qed
  with assms(3) show "exp_of r \<le> e" by linarith
qed

lemma half_even_of_int [simp]: "half_even (of_int n) = n"
  by (simp add: half_even_def)

text \<open>A number with at most 53 significant bits is not changed by rounding.\<close>

lemma rnd_exact:
  assumes "\<bar>n\<bar> < 2 ^ 53" and "- 1074 \<le> e" and "e \<le> 971"
  shows "rnd (of_int n * 2 powi e) = Fin (of_int n * 2 powi e)"
proof (cases "n = 0")
  case True
  then show ?thesis by (simp add: rnd_def Let_def half_even_def)
next
  case False
  define r :: rat where "r = of_int n * 2 powi e"
  have r0: "r \<noteq> 0" using False by (simp add: r_def)
  have ab: "\<bar>r\<bar> = of_int \<bar>n\<bar> * 2 powi e" by (simp add: r_def abs_mult)
  have "of_int \<bar>n\<bar> < (of_int (2 ^ 53) :: rat)" using assms(1) by (simp only: of_int_less_iff)
  then have "of_int \<bar>n\<bar> < (2 :: rat) powi 53" by (simp add: power_int_def)
  then have "\<bar>r\<bar> < 2 powi 53 * 2 powi e" unfolding ab by (intro mult_strict_right_mono) simp_all
  also have "\<dots> = 2 powi (e + 53)" by (subst power_int_add [symmetric]) (simp_all add: add.commute)
  finally have lt: "\<bar>r\<bar> < 2 powi (e + 53)" .
  have le: "exp_of r \<le> e"
  proof (rule ccontr)
    assume "\<not> exp_of r \<le> e"
    then have "e + 53 \<le> exp_of r + 52" by linarith
    then have "(2 :: rat) powi (e + 53) \<le> 2 powi (exp_of r + 52)" by (rule power_int_increasing) simp
    moreover from \<open>\<not> exp_of r \<le> e\<close> assms(2) have "exp_of r \<noteq> - 1074" by linarith
    with exp_of_bounds(1) [OF r0] have "2 powi (exp_of r + 52) \<le> \<bar>r\<bar>" by blast
    ultimately show False using lt by simp
  qed
  have "\<bar>r\<bar> / 2 powi exp_of r = of_int \<bar>n\<bar> * 2 powi (e - exp_of r)"
    unfolding ab powi2_diff by simp
  also have "(2 :: rat) powi (e - exp_of r) = of_int (2 ^ nat (e - exp_of r))"
    using le by (simp add: power_int_def)
  finally have "\<bar>r\<bar> / 2 powi exp_of r = of_int (\<bar>n\<bar> * 2 ^ nat (e - exp_of r))" by simp
  then have "half_even (\<bar>r\<bar> / 2 powi exp_of r) = \<bar>n\<bar> * 2 ^ nat (e - exp_of r)" by (simp only: half_even_of_int)
  then have v: "of_int (half_even (\<bar>r\<bar> / 2 powi exp_of r)) * 2 powi exp_of r = \<bar>r\<bar>"
    using \<open>\<bar>r\<bar> / 2 powi exp_of r = of_int (\<bar>n\<bar> * 2 ^ nat (e - exp_of r))\<close> by (simp add: field_simps)
  note lt
  also have "(2 :: rat) powi (e + 53) \<le> 2 powi 1024" using assms(3) by (intro power_int_increasing) simp_all
  finally have "\<not> \<bar>r\<bar> \<ge> 2 ^ 1024" by simp
  then show ?thesis unfolding rnd_def Let_def r_def [symmetric] v
    by (simp add: mult_sgn_abs)
qed

lemma rnd_of_int: "\<bar>n\<bar> < 2 ^ 53 \<Longrightarrow> rnd (of_int n) = Fin (of_int n)"
  using rnd_exact [of n 0] by simp

lemma of_int_d_small [simp]: "\<bar>n\<bar> < 2 ^ 53 \<Longrightarrow> of_int_d n = Fin (of_int n)"
  by (simp add: of_int_d_def rnd_of_int)

lemma rnd_0 [simp]: "rnd 0 = Fin 0"
  using rnd_of_int [of 0] by simp

text \<open>The constant \<open>0.1\<close> is not exact.\<close>

lemma rnd_tenth: "rnd (1 / 10) = Fin (3602879701896397 / 36028797018963968)"
proof -
  have "exp_of (1 / 10) = - 56" by (rule exp_of_eq) (simp_all add: power_int_minus)
  moreover have "half_even (\<bar>1 / 10\<bar> / 2 powi (- 56)) = 7205759403792794"
  proof -
    have x: "\<bar>1 / 10\<bar> / 2 powi (- 56) = (36028797018963968 / 5 :: rat)" by (simp add: power_int_minus)
    have f: "\<lfloor>36028797018963968 / 5 :: rat\<rfloor> = 7205759403792793" by (rule floor_unique) simp_all
    show ?thesis unfolding x half_even_def f Let_def by simp
  qed
  ultimately show ?thesis by (simp add: rnd_def power_int_minus)
qed

section \<open>Rounding is monotone\<close>

lemma half_even_cases: "half_even x = \<lfloor>x\<rfloor> \<or> half_even x = \<lfloor>x\<rfloor> + 1 \<and> 1 / 2 \<le> x - of_int \<lfloor>x\<rfloor>"
  unfolding half_even_def Let_def by (auto simp: not_less)

lemma half_even_mono:
  assumes "x \<le> y"
  shows "half_even x \<le> half_even y"
proof -
  have f: "\<lfloor>x\<rfloor> \<le> \<lfloor>y\<rfloor>" using assms by (rule floor_mono)
  show ?thesis
  proof (cases "\<lfloor>x\<rfloor> = \<lfloor>y\<rfloor>")
    case True
    then have "x - of_int \<lfloor>x\<rfloor> \<le> y - of_int \<lfloor>x\<rfloor>" using assms by simp
    then show ?thesis unfolding half_even_def Let_def True [symmetric] by auto
  next
    case False
    with f have "\<lfloor>x\<rfloor> + 1 \<le> \<lfloor>y\<rfloor>" by simp
    then show ?thesis using half_even_cases [of x] half_even_cases [of y] by linarith
  qed
qed

lemma half_even_le_of_int: "x \<le> of_int n \<Longrightarrow> half_even x \<le> n"
  using half_even_mono [of x "of_int n"] by simp

lemma half_even_ge_of_int: "of_int n \<le> x \<Longrightarrow> n \<le> half_even x"
  using half_even_mono [of "of_int n" x] by simp

text \<open>The magnitude of the rounded value, before the test for overflow.\<close>

definition mag :: "rat \<Rightarrow> rat" where
  "mag r = of_int (half_even (\<bar>r\<bar> / 2 powi exp_of r)) * 2 powi exp_of r"

lemma rnd_mag: "rnd r = (if mag r \<ge> 2 ^ 1024 then (if r > 0 then PInf else NInf) else Fin (sgn r * mag r))"
  by (simp add: rnd_def mag_def Let_def)

lemma mag_nonneg: "0 \<le> mag r"
proof -
  have "0 \<le> half_even (\<bar>r\<bar> / 2 powi exp_of r)" by (rule half_even_ge_of_int) simp
  then show ?thesis by (simp add: mag_def)
qed

lemma mag_le: "r \<noteq> 0 \<Longrightarrow> mag r \<le> 2 powi (exp_of r + 53)"
proof -
  assume "r \<noteq> 0"
  then have "\<bar>r\<bar> / 2 powi exp_of r \<le> 2 ^ 53"
    using exp_of_bounds(2) [of r] by (simp add: power_int_add field_simps)
  then have "half_even (\<bar>r\<bar> / 2 powi exp_of r) \<le> 2 ^ 53" by (intro half_even_le_of_int) simp
  then have "of_int (half_even (\<bar>r\<bar> / 2 powi exp_of r)) \<le> (of_int (2 ^ 53) :: rat)" by (simp only: of_int_le_iff)
  then have "mag r \<le> 2 ^ 53 * 2 powi exp_of r" unfolding mag_def by (intro mult_right_mono) simp_all
  then show ?thesis by (simp add: power_int_add)
qed

lemma mag_ge:
  assumes "r \<noteq> 0" and "exp_of r \<noteq> - 1074"
  shows "2 powi (exp_of r + 52) \<le> mag r"
proof -
  have "2 ^ 52 \<le> \<bar>r\<bar> / 2 powi exp_of r"
    using exp_of_bounds(1) [OF assms(1)] assms(2) by (simp add: power_int_add field_simps)
  then have "2 ^ 52 \<le> half_even (\<bar>r\<bar> / 2 powi exp_of r)" by (intro half_even_ge_of_int) simp
  then have "of_int (2 ^ 52) \<le> (of_int (half_even (\<bar>r\<bar> / 2 powi exp_of r)) :: rat)" by (simp only: of_int_le_iff)
  then have "2 ^ 52 * 2 powi exp_of r \<le> mag r" unfolding mag_def by (intro mult_right_mono) simp_all
  then show ?thesis by (simp add: power_int_add)
qed

lemma exp_of_ge: "- 1074 \<le> exp_of r"
  by (simp add: exp_of_def Let_def split: prod.split)

lemma exp_of_mono:
  assumes "r \<noteq> 0" and "\<bar>r\<bar> \<le> \<bar>s\<bar>"
  shows "exp_of r \<le> exp_of s"
proof (rule ccontr)
  assume n: "\<not> exp_of r \<le> exp_of s"
  with exp_of_ge [of s] exp_of_bounds(1) [OF assms(1)] have "2 powi (exp_of r + 52) \<le> \<bar>r\<bar>" by linarith
  moreover from n have "(2 :: rat) powi (exp_of s + 53) \<le> 2 powi (exp_of r + 52)"
    by (intro power_int_increasing) simp_all
  moreover have "\<bar>s\<bar> < 2 powi (exp_of s + 53)" using assms by (intro exp_of_bounds) auto
  ultimately show False using assms(2) by linarith
qed

lemma mag_mono:
  assumes "\<bar>r\<bar> \<le> \<bar>s\<bar>"
  shows "mag r \<le> mag s"
proof (cases "r = 0")
  case True
  then have "mag r = 0" by (simp add: mag_def half_even_def)
  then show ?thesis by (simp add: mag_nonneg)
next
  case False
  have le: "exp_of r \<le> exp_of s" using False assms by (rule exp_of_mono)
  show ?thesis
  proof (cases "exp_of r = exp_of s")
    case True
    have "\<bar>r\<bar> / 2 powi exp_of s \<le> \<bar>s\<bar> / 2 powi exp_of s" using assms by (intro divide_right_mono) simp_all
    then have "of_int (half_even (\<bar>r\<bar> / 2 powi exp_of s)) \<le> (of_int (half_even (\<bar>s\<bar> / 2 powi exp_of s)) :: rat)"
      by (simp add: half_even_mono)
    then show ?thesis unfolding mag_def True by (intro mult_right_mono) simp_all
  next
    case ne: False
    have "mag r \<le> 2 powi (exp_of r + 53)" using False by (rule mag_le)
    also have "\<dots> \<le> 2 powi (exp_of s + 52)" using le ne by (intro power_int_increasing) simp_all
    also have "\<dots> \<le> mag s" using False assms exp_of_ge [of r] le ne by (intro mag_ge) auto
    finally show ?thesis .
  qed
qed

text \<open>Rounding is monotone, and never changes a value twice.\<close>

lemma rnd_mono:
  assumes "r \<le> s"
  shows "rnd r \<le> rnd s"
proof -
  consider "0 \<le> r" | "r < 0" "0 \<le> s" | "s < 0" using assms by linarith
  then show ?thesis
  proof cases
    case 1
    with assms have "mag r \<le> mag s" by (intro mag_mono) simp
    moreover from 1 assms have "sgn r * mag r \<le> sgn s * mag s"
      using \<open>mag r \<le> mag s\<close> mag_nonneg [of s] by (cases "r = 0"; cases "s = 0") (auto simp: sgn_if)
    moreover have "r = 0 \<Longrightarrow> mag r = 0" by (simp add: mag_def half_even_def)
    ultimately show ?thesis using 1 assms unfolding rnd_mag
      by (auto simp: less_eq_dbl_def less_dbl_def)
  next
    case 2
    have "s = 0 \<Longrightarrow> mag s = 0" by (simp add: mag_def half_even_def)
    with 2 mag_nonneg [of r] mag_nonneg [of s] show ?thesis unfolding rnd_mag
      by (auto simp: less_eq_dbl_def less_dbl_def sgn_if)
  next
    case 3
    with assms have "mag s \<le> mag r" by (intro mag_mono) simp
    with 3 assms show ?thesis unfolding rnd_mag
      by (auto simp: less_eq_dbl_def less_dbl_def)
  qed
qed

lemma rnd_idem:
  assumes "rnd r = Fin x"
  shows "rnd x = Fin x"
proof (cases "r = 0")
  case True
  with assms show ?thesis by simp
next
  case False
  define m e where "m = half_even (\<bar>r\<bar> / 2 powi exp_of r)" and "e = exp_of r"
  have mag: "mag r = of_int m * 2 powi e" by (simp add: mag_def m_def e_def)
  from assms have lt: "mag r < 2 ^ 1024" and x: "x = sgn r * mag r"
    unfolding rnd_mag by (auto split: if_splits)
  have m0: "0 \<le> m" unfolding m_def by (rule half_even_ge_of_int) simp
  have "mag r \<le> 2 ^ 53 * 2 powi e" using mag_le [OF False] by (simp add: e_def power_int_add)
  then have "of_int m \<le> (2 ^ 53 :: rat)" unfolding mag by simp
  then have m1: "m \<le> 2 ^ 53" by (simp flip: of_int_le_iff)
  have e1: "e \<le> 971"
  proof (rule ccontr)
    assume "\<not> e \<le> 971"
    then have "2 powi (e + 52) \<le> mag r" using mag_ge [OF False] by (simp add: e_def)
    moreover have "(2 :: rat) powi 1024 \<le> 2 powi (e + 52)" using \<open>\<not> e \<le> 971\<close> by (intro power_int_increasing) simp_all
    ultimately show False using lt by simp
  qed
  have e0: "- 1074 \<le> e" by (simp add: e_def exp_of_ge)
  define n where "n = (if r < 0 then - m else m)"
  have xn: "x = of_int n * 2 powi e" using False by (simp add: x mag n_def sgn_if)
  show ?thesis
  proof (cases "m = 2 ^ 53")
    case False
    with m0 m1 have "\<bar>n\<bar> < 2 ^ 53" by (simp add: n_def)
    from rnd_exact [OF this e0 e1] show ?thesis by (simp add: xn)
  next
    case True
    have "e + 1 \<le> 971"
    proof (rule ccontr)
      assume "\<not> e + 1 \<le> 971"
      with e1 have "e = 971" by simp
      with lt show False by (simp add: mag True)
    qed
    moreover have "x = of_int (if r < 0 then - (2 ^ 52) else 2 ^ 52) * 2 powi (e + 1)"
      by (simp add: xn n_def True power_int_add)
    ultimately show ?thesis using e0 rnd_exact [of "if r < 0 then - (2 ^ 52) else 2 ^ 52" "e + 1"] by simp
  qed
qed

text \<open>The rationals that are values of a \<open>double\<close>.\<close>

definition is_dbl :: "rat \<Rightarrow> bool" where
  "is_dbl x \<longleftrightarrow> rnd x = Fin x"

lemma is_dbl_of_int [simp]: "\<bar>n\<bar> < 2 ^ 53 \<Longrightarrow> is_dbl (of_int n)"
  by (simp add: is_dbl_def rnd_of_int)

lemma rnd_le_dbl: "x \<le> y \<Longrightarrow> is_dbl y \<Longrightarrow> rnd x \<le> Fin y"
  using rnd_mono [of x y] by (simp add: is_dbl_def)

lemma rnd_ge_dbl: "x \<le> y \<Longrightarrow> is_dbl x \<Longrightarrow> Fin x \<le> rnd y"
  using rnd_mono [of x y] by (simp add: is_dbl_def)

lemma dlt_iff: "y \<noteq> NaN \<Longrightarrow> dlt x y \<longleftrightarrow> x < y"
  by (cases x; cases y) (simp_all add: less_dbl_def)

lemma rnd_not_NaN [simp]: "rnd x \<noteq> NaN"
  by (simp add: rnd_def Let_def)

text \<open>The rounding error of a number below \<open>2^k\<close>: half a unit in the last place.\<close>

lemma half_even_error: "\<bar>of_int (half_even x) - x\<bar> \<le> 1 / 2"
proof -
  have "of_int \<lfloor>x\<rfloor> \<le> x" "x < of_int \<lfloor>x\<rfloor> + 1" by linarith+
  then show ?thesis unfolding half_even_def Let_def by (auto simp: abs_le_iff)
qed

lemma rnd_error:
  assumes "\<bar>x\<bar> < 2 powi k" and "- 1021 \<le> k" and "k \<le> 1023"
  shows "\<exists>y. rnd x = Fin y \<and> \<bar>y - x\<bar> \<le> 2 powi (k - 54)"
proof (cases "x = 0")
  case True
  then show ?thesis by simp
next
  case False
  define e where "e = exp_of x"
  define n where "n = half_even (\<bar>x\<bar> / 2 powi e)"
  have "e + 52 < k" if "e \<noteq> - 1074"
  proof (rule ccontr)
    assume "\<not> e + 52 < k"
    then have "(2 :: rat) powi k \<le> 2 powi (e + 52)" by (intro power_int_increasing) simp_all
    with exp_of_bounds(1) [OF False] that assms(1) show False by (simp add: e_def)
  qed
  with assms(2) have e: "e \<le> k - 53" by linarith
  have "\<bar>of_int n - \<bar>x\<bar> / 2 powi e\<bar> \<le> 1 / 2" unfolding n_def by (rule half_even_error)
  then have "\<bar>of_int n - \<bar>x\<bar> / 2 powi e\<bar> * 2 powi e \<le> 1 / 2 * 2 powi e" by (intro mult_right_mono) simp_all
  also have "\<bar>of_int n - \<bar>x\<bar> / 2 powi e\<bar> * 2 powi e = \<bar>(of_int n - \<bar>x\<bar> / 2 powi e) * 2 powi e\<bar>"
    by (simp add: abs_mult)
  also have "(of_int n - \<bar>x\<bar> / 2 powi e) * 2 powi e = mag x - \<bar>x\<bar>"
    by (simp add: mag_def n_def e_def left_diff_distrib)
  also have "1 / 2 * 2 powi e = (2 :: rat) powi (e - 1)" by (simp add: power_int_diff)
  also have "\<dots> \<le> 2 powi (k - 54)" using e by (intro power_int_increasing) simp_all
  finally have err: "\<bar>mag x - \<bar>x\<bar>\<bar> \<le> 2 powi (k - 54)" .
  have "(2 :: rat) powi (k - 54) \<le> 2 powi k" by (intro power_int_increasing) simp_all
  with err assms(1) have "mag x < 2 * 2 powi k" by linarith
  also have "2 * 2 powi k = (2 :: rat) powi (k + 1)" by (simp add: power_int_add)
  also have "\<dots> \<le> 2 powi 1024" using assms(3) by (intro power_int_increasing) simp_all
  finally have "mag x < 2 ^ 1024" by simp
  then have "rnd x = Fin (sgn x * mag x)" by (simp add: rnd_mag)
  moreover have "sgn x * mag x - x = sgn x * (mag x - \<bar>x\<bar>)"
    by (simp add: right_diff_distrib mult_sgn_abs)
  then have "\<bar>sgn x * mag x - x\<bar> = \<bar>mag x - \<bar>x\<bar>\<bar>" using False by (simp add: abs_mult abs_sgn_eq)
  ultimately show ?thesis using err by auto
qed

end
