(* ===== verification/RingSim.thy ===== *)
theory RingSim
  imports Dbl
begin

text \<open>
  The simulator of the timed ring in user space (\<open>src/RateLimiter/ring/main.cpp\<close>): the class
  \<open>Ring\<close>, the queues \<open>input\<close> and \<open>inque\<close> and the timer handler \<open>test_func\<close>, which runs every
  tenth of a millisecond and empties a block every tenth time.

  Array indices and lengths (\<open>now_qlen\<close>, \<open>now_postion\<close>, \<open>pre_pointer\<close>) are natural numbers: the
  code only counts them up from 0 or reduces them modulo \<open>block\<close>. A write outside a row of
  \<open>ring_queue\<close> is the fault \<open>OutOfBounds\<close>. What is printed is returned as a list of pairs of a time and
  a length. The global object has static storage, so its arrays start at zero.
\<close>

section \<open>State\<close>

record sim_packet =
  p_arrival :: dbl
  p_len :: int

abbreviation block :: nat where "block \<equiv> 1000"
abbreviation qlen :: nat where "qlen \<equiv> 80"

record sim_ring =
  r_rate :: dbl
  r_queue :: "sim_packet list list"
  r_now_qlen :: "nat list"
  r_now_bytes :: "int list"
  r_now_postion :: nat
  r_pre_pointer :: nat
  r_time_interval :: int
  r_latency :: dbl
  r_tot_bytes :: int
  r_max_byte_per_block :: int

record sim =
  g_input :: "sim_packet list"
  g_inque :: "sim_packet list"
  g_tot_round :: int
  g_ring :: sim_ring

text \<open>The constructor \<open>Ring(double)\<close>.\<close>

definition ring_new :: "dbl \<Rightarrow> fault + sim_ring" where
  "ring_new rate =
     bindE (trunc_int (ddiv (dmul rate (Fin 1024)) (Fin 1000))) (\<lambda>m.
     Inr \<lparr>r_rate = rate, r_queue = replicate block (replicate qlen \<lparr>p_arrival = Fin 0, p_len = 0\<rparr>),
          r_now_qlen = replicate block 0, r_now_bytes = replicate block 0,
          r_now_postion = 0, r_pre_pointer = 0, r_time_interval = 1, r_latency = Fin 40,
          r_tot_bytes = 0, r_max_byte_per_block = m\<rparr>)"

section \<open>The operations of the ring\<close>

definition cal_interval :: "nat \<Rightarrow> nat \<Rightarrow> nat" where
  "cal_interval pre after = (if after \<ge> pre then after - pre else after + block - pre)"

definition tenth :: "int \<Rightarrow> dbl" where
  "tenth n = dmul (of_int_d n) (rnd (1 / 10))"

definition set_cell :: "nat \<Rightarrow> nat \<Rightarrow> sim_packet \<Rightarrow> sim_ring \<Rightarrow> fault + sim_ring" where
  "set_cell b i p r =
     (if i < qlen then Inr (r\<lparr>r_queue := (r_queue r)[b := ((r_queue r) ! b)[i := p]]\<rparr>)
      else Inl OutOfBounds)"

definition too_big :: "sim_packet \<Rightarrow> sim_ring \<Rightarrow> bool" where
  "too_big p r = dlt (Fin 1) (ddiv (ddiv (of_int_d (p_len p)) (r_rate r)) (Fin 1024))"

definition interval_block :: "sim_packet \<Rightarrow> sim_ring \<Rightarrow> fault + int" where
  "interval_block p r =
     trunc_int (dmul (ddiv (dmul (Fin 1) (of_int_d (p_len p + r_tot_bytes r))) (dmul (r_rate r) (Fin 1024)))
       (Fin 1000))"

text \<open>
  The body of \<open>in_ring\<close> from the two placing branches on: the packet goes into the writer's block, or
  opens the block \<open>ib\<close> places after the reader.
\<close>

definition place :: "int \<Rightarrow> nat \<Rightarrow> sim_packet \<Rightarrow> sim_ring \<Rightarrow> fault + sim_ring" where
  "place ib interval p r =
     bindE (if ib \<le> int interval then
              (let pp = r_pre_pointer r; n = r_now_qlen r ! pp in
               bindE (set_cell pp n p r) (\<lambda>r1.
               Inr (r1\<lparr>r_now_qlen := (r_now_qlen r1)[pp := n + 1],
                       r_now_bytes := (r_now_bytes r1)[pp := r_now_bytes r1 ! pp + p_len p]\<rparr>)))
            else
              (let pp = nat ((ib - int interval + int (r_pre_pointer r)) mod int block) in
               bindE (set_cell pp 0 p (r\<lparr>r_pre_pointer := pp\<rparr>)) (\<lambda>r1.
               Inr (r1\<lparr>r_now_qlen := (r_now_qlen r1)[pp := 1],
                       r_now_bytes := (r_now_bytes r1)[pp := p_len p]\<rparr>))))
       (\<lambda>r2. Inr (r2\<lparr>r_tot_bytes := r_tot_bytes r2 + p_len p\<rparr>))"

text \<open>The loop of \<open>in_ring\<close>: the packets of \<open>inque\<close> that are left, and the ring.\<close>

fun in_ring :: "int \<Rightarrow> sim_packet list \<Rightarrow> sim_ring \<Rightarrow> fault + sim_packet list \<times> sim_ring" where
  "in_ring tot_round [] r = Inr ([], r)"
| "in_ring tot_round (p # inque) r =
     (if dlt (dadd (p_arrival p) (r_latency r)) (tenth tot_round) then in_ring tot_round inque r
      else
        (let interval = cal_interval (r_now_postion r) (r_pre_pointer r) in
         if too_big p r then Inr (inque, r)
         else
           bindE (interval_block p r) (\<lambda>ib.
           if ib > int block then Inr (p # inque, r)
           else bindE (place ib interval p r) (\<lambda>r'. in_ring tot_round inque r'))))"

definition de_ring :: "int \<Rightarrow> sim_ring \<Rightarrow> (dbl \<times> int) list \<times> sim_ring" where
  "de_ring tot_round r =
     (let np = r_now_postion r; n = r_now_qlen r ! np; row = take n (r_queue r ! np) in
      if n \<noteq> 0 then
        (map (\<lambda>i. (dadd (tenth tot_round)
                     (dmul (ddiv (dmul (Fin 1) (of_int_d (r_time_interval r))) (of_int_d (int n))) (of_int_d (int i))),
                   p_len (row ! i))) [0 ..< n],
         r\<lparr>r_tot_bytes := r_tot_bytes r - sum_list (map p_len row),
           r_now_qlen := (r_now_qlen r)[np := 0], r_now_bytes := (r_now_bytes r)[np := 0]\<rparr>)
      else ([], r))"

definition status_update :: "sim_ring \<Rightarrow> sim_ring" where
  "status_update r =
     (let r1 = r\<lparr>r_now_qlen := (r_now_qlen r)[r_now_postion r := 0]\<rparr>;
          interval = cal_interval (r_now_postion r1) (r_pre_pointer r1)
      in if interval = 0
         then r1\<lparr>r_pre_pointer := (r_pre_pointer r1 + 1) mod block, r_now_postion := (r_now_postion r1 + 1) mod block\<rparr>
         else r1\<lparr>r_now_postion := (r_now_postion r1 + 1) mod block\<rparr>)"

definition process :: "sim \<Rightarrow> fault + (dbl \<times> int) list \<times> sim" where
  "process g =
     bindE (in_ring (g_tot_round g) (g_inque g) (g_ring g)) (\<lambda>(inque, r).
     (case de_ring (g_tot_round g) r of (outs, r1) \<Rightarrow>
        Inr (outs, g\<lparr>g_inque := inque, g_ring := status_update r1\<rparr>)))"

section \<open>The timer handler\<close>

text \<open>
  The outer loop over \<open>input\<close>. Its inner loop takes every packet that has arrived, then \<open>in_ring\<close>
  runs.
\<close>

function feed :: "dbl \<Rightarrow> sim \<Rightarrow> fault + sim" where
  "feed msec g =
     (case g_input g of
        [] \<Rightarrow> Inr g
      | p # rest \<Rightarrow>
          if dlt (dadd (p_arrival p) (r_latency (g_ring g))) msec then feed msec (g\<lparr>g_input := rest\<rparr>)
          else if dge msec (p_arrival p) then
            (case in_ring (g_tot_round g)
                   (g_inque g @ p # takeWhile (\<lambda>x. dge msec (p_arrival x)) rest) (g_ring g) of
               Inl e \<Rightarrow> Inl e
             | Inr (inque, r) \<Rightarrow>
                 feed msec (g\<lparr>g_input := dropWhile (\<lambda>x. dge msec (p_arrival x)) rest,
                              g_inque := inque, g_ring := r\<rparr>))
          else Inr g)"
  by pat_completeness auto

termination feed
  by (relation "measure (\<lambda>(_, g). length (g_input g))")
    (auto simp: le_imp_less_Suc length_dropWhile_le)

definition test_func :: "sim \<Rightarrow> fault + (dbl \<times> int) list \<times> sim" where
  "test_func g =
     (let g0 = g\<lparr>g_tot_round := g_tot_round g + 1\<rparr> in
      bindE (feed (tenth (g_tot_round g0)) g0) (\<lambda>g1.
      if g_tot_round g1 mod 10 = 0 then
        (case de_ring (g_tot_round g1) (g_ring g1) of (outs, r) \<Rightarrow>
           Inr (outs, g1\<lparr>g_ring := status_update r\<rparr>))
      else Inr ([], g1)))"

text \<open>\<open>init_time\<close>: the first and every later expiry, in microseconds of processor time.\<close>

definition init_time :: "sim_ring \<Rightarrow> int" where
  "init_time r = r_time_interval r * 100"

end
