(* ===== verification/RingSim_Props.thy ===== *)
theory RingSim_Props
  imports RingSim
begin

text \<open>
  The simulator's ring at the rate the program gives it (128, that is 131072 bytes in 1000 blocks). There
  the arithmetic on doubles is exact, so that the block a packet asks for is an integer division. The
  invariant \<open>sim_rep\<close>, the contents in order, an instance of the interface \<open>fifo\<close>, pacing, and the two
  places where the code leaves its intention: the row of a block overflows, and a full ring writes over
  the block being sent.
\<close>

section \<open>Block arithmetic at the default rate\<close>

text \<open>The ring of the program is \<open>Ring(1024.0/8)\<close>: 128 kilobytes per second, 131072 bytes in all.\<close>

lemma rate_1024: "dmul (Fin 128) (Fin 1024) = Fin 131072"
  using rnd_of_int [of 131072] by simp

lemma scaled_exact:
  assumes "0 \<le> n" and "n < 2 ^ 53"
  shows "rnd (of_int n / 131072) = Fin (of_int n / 131072)"
proof -
  have "of_int n * 2 powi (- 17) = (of_int n / 131072 :: rat)" by (simp add: power_int_minus)
  with rnd_exact [of n "- 17"] assms show ?thesis by simp
qed

lemma interval_block_eq:
  assumes "r_rate r = Fin 128" and "0 \<le> p_len p + r_tot_bytes r" and "p_len p + r_tot_bytes r < 2 ^ 37"
  shows "interval_block p r = Inr ((p_len p + r_tot_bytes r) * 1000 div 131072)"
proof -
  let ?n = "p_len p + r_tot_bytes r"
  have n: "dmul (Fin 1) (of_int_d ?n) = Fin (of_int ?n)"
    using assms rnd_of_int [of ?n] by simp
  have "ddiv (Fin (of_int ?n)) (Fin 131072) = Fin (of_int ?n / 131072)"
    using scaled_exact [of ?n] assms by simp
  moreover have "dmul (Fin (of_int ?n / 131072)) (Fin 1000) = Fin (of_int (?n * 1000) / 131072)"
    using scaled_exact [of "?n * 1000"] assms by simp
  ultimately have "interval_block p r = trunc_int (Fin (of_int (?n * 1000) / 131072))"
    unfolding interval_block_def assms(1) rate_1024 n by simp
  moreover have f: "\<lfloor>of_int (?n * 1000) / (131072 :: rat)\<rfloor> = ?n * 1000 div 131072"
    using floor_divide_of_int_eq [of "?n * 1000" 131072, where ?'a = rat] by simp
  moreover have "\<not> of_int (?n * 1000) / (131072 :: rat) < 0" using assms(2) by (simp add: not_less)
  moreover have "0 \<le> ?n * 1000 div 131072" using assms(2) by (simp add: pos_imp_zdiv_nonneg_iff)
  moreover have "?n * 1000 div 131072 < 2147483648"
    using assms(3) by (simp add: div_less_iff_less_mult)
  ultimately show ?thesis by (simp del: of_int_mult)
qed

lemma too_big_eq:
  assumes "r_rate r = Fin 128" and "0 \<le> p_len p" and "p_len p < 2 ^ 53"
  shows "too_big p r \<longleftrightarrow> 131072 < p_len p"
proof -
  have "of_int (p_len p) * 2 powi (- 7) = (of_int (p_len p) / 128 :: rat)"
    by (simp add: power_int_minus)
  with rnd_exact [of "p_len p" "- 7"] assms have a: "ddiv (of_int_d (p_len p)) (Fin 128) = Fin (of_int (p_len p) / 128)"
    by simp
  from scaled_exact [of "p_len p"] assms
  have "ddiv (Fin (of_int (p_len p) / 128)) (Fin 1024) = Fin (of_int (p_len p) / 131072)" by simp
  with a have "too_big p r \<longleftrightarrow> 1 < (of_int (p_len p) / 131072 :: rat)"
    unfolding too_big_def assms(1) by simp
  also have "\<dots> \<longleftrightarrow> 131072 < (of_int (p_len p) :: rat)" by (simp add: field_simps)
  finally show ?thesis by simp
qed

section \<open>What the ring holds\<close>

text \<open>
  \<open>sim_rep r d ps\<close>: the writer's block is \<open>d\<close> blocks after the reader's and \<open>ps ! j\<close> are the packets of
  the block \<open>j\<close> places after the reader's.
\<close>

definition sim_rep :: "sim_ring \<Rightarrow> nat \<Rightarrow> sim_packet list list \<Rightarrow> bool" where
  "sim_rep r d ps \<longleftrightarrow>
     length (r_queue r) = block \<and> (\<forall>row \<in> set (r_queue r). length row = qlen) \<and>
     length (r_now_qlen r) = block \<and> length ps = block \<and>
     r_now_postion r < block \<and> d < block \<and> r_pre_pointer r = (r_now_postion r + d) mod block \<and>
     r_rate r = Fin 128 \<and>
     (\<forall>j < block. r_now_qlen r ! ((r_now_postion r + j) mod block) = length (ps ! j) \<and>
        length (ps ! j) \<le> qlen \<and>
        take (length (ps ! j)) (r_queue r ! ((r_now_postion r + j) mod block)) = ps ! j) \<and>
     (\<forall>j < block. d < j \<longrightarrow> ps ! j = []) \<and>
     (\<forall>p \<in> set (concat ps). 0 \<le> p_len p) \<and> r_tot_bytes r = sum_list (map p_len (concat ps))"

lemma pos_lt: "(a + j) mod block < block"
  by simp

lemma pos_inj: "a < block \<Longrightarrow> i < block \<Longrightarrow> j < block \<Longrightarrow> (a + i) mod block = (a + j) mod block \<longleftrightarrow> i = j"
  by (rule mod_add_inj)

lemma cal_interval_pos:
  assumes "a < block" and "d < block"
  shows "cal_interval a ((a + d) mod block) = d"
  unfolding cal_interval_def mod_add_small [OF assms] using assms by (simp split: if_split) linarith

lemma cal_interval_rep: "sim_rep r d ps \<Longrightarrow> cal_interval (r_now_postion r) (r_pre_pointer r) = d"
  unfolding sim_rep_def by (elim conjE) (simp only: cal_interval_pos)

lemma sim_rep_store:
  assumes rep: "sim_rep r d ps" and d': "d \<le> d'" "d' < block" and room: "length (ps ! d') < qlen" and len: "0 \<le> p_len p"
    and pp: "pp = (r_now_postion r + d') mod block"
    and r': "r_queue r' = (r_queue r)[pp := (r_queue r ! pp)[length (ps ! d') := p]]"
      "r_now_qlen r' = (r_now_qlen r)[pp := length (ps ! d') + 1]" "r_now_postion r' = r_now_postion r"
      "r_pre_pointer r' = pp" "r_rate r' = r_rate r" "r_tot_bytes r' = r_tot_bytes r + p_len p"
  shows "sim_rep r' d' (ps[d' := ps ! d' @ [p]])" and "concat (ps[d' := ps ! d' @ [p]]) = concat ps @ [p]"
proof -
  let ?np = "r_now_postion r" and ?ps = "ps[d' := ps ! d' @ [p]]"
  from rep have L: "length (r_queue r) = block" "\<forall>row \<in> set (r_queue r). length row = qlen"
    "length (r_now_qlen r) = block" "length ps = block" "?np < block" "r_rate r = Fin 128"
    and cells: "\<forall>j < block. r_now_qlen r ! ((?np + j) mod block) = length (ps ! j) \<and>
        length (ps ! j) \<le> qlen \<and> take (length (ps ! j)) (r_queue r ! ((?np + j) mod block)) = ps ! j"
    and beyond: "\<forall>j < block. d < j \<longrightarrow> ps ! j = []"
    by (simp_all add: sim_rep_def)
  show c: "concat ?ps = concat ps @ [p]"
    by (rule concat_update_last) (use L d' beyond in auto)
  have row: "length (r_queue r ! pp) = qlen" using L pp by simp
  have cell: "r_now_qlen r' ! ((?np + j) mod block) = length (?ps ! j) \<and> length (?ps ! j) \<le> qlen \<and>
      take (length (?ps ! j)) (r_queue r' ! ((?np + j) mod block)) = ?ps ! j" if j: "j < block" for j
  proof (cases "j = d'")
    case True
    have t: "take (length (ps ! d')) (r_queue r ! pp) = ps ! d'" using cells d' pp by simp
    have "take (length (ps ! d') + 1) ((r_queue r ! pp)[length (ps ! d') := p]) = ps ! d' @ [p]"
      using room row by (simp add: take_Suc_conv_app_nth t)
    then show ?thesis using True L d' room pp by (simp add: r')
  next
    case False
    with j d' L(5) have "(?np + j) mod block \<noteq> pp" unfolding pp by (simp add: pos_inj)
    then show ?thesis using False cells j by (simp add: r')
  qed
  have "\<forall>row \<in> set (r_queue r'). length row = qlen"
    using L(2) row unfolding r' by (auto dest!: set_update_subset_insert [THEN subsetD])
  moreover have "r_tot_bytes r' = sum_list (map p_len (concat ?ps))"
    using rep unfolding c r' by (simp add: sim_rep_def)
  moreover have "\<forall>p \<in> set (concat ?ps). 0 \<le> p_len p" using rep len unfolding c by (simp add: sim_rep_def)
  moreover have "\<forall>j < block. d' < j \<longrightarrow> ?ps ! j = []" using beyond d' by simp
  ultimately show "sim_rep r' d' ?ps"
    unfolding sim_rep_def r'(3) using L d' cell by (simp add: r' pp)
qed

text \<open>Placing a packet: \<open>ib\<close> is the block its bytes ask for.\<close>

lemma place_rep:
  assumes rep: "sim_rep r d ps" and ib: "0 \<le> ib" "ib < int block" and len: "0 \<le> p_len p"
    and d': "d' = max d (nat ib)" and room: "length (ps ! d') < qlen"
  shows "\<exists>r'. place ib d p r = Inr r' \<and> sim_rep r' d' (ps[d' := ps ! d' @ [p]]) \<and>
    concat (ps[d' := ps ! d' @ [p]]) = concat ps @ [p] \<and> r_now_postion r' = r_now_postion r \<and>
    r_latency r' = r_latency r \<and> r_tot_bytes r' = r_tot_bytes r + p_len p"
proof -
  let ?np = "r_now_postion r"
  from rep have L: "r_pre_pointer r = (?np + d) mod block" "d < block"
    and cells: "\<forall>j < block. r_now_qlen r ! ((?np + j) mod block) = length (ps ! j)"
    and beyond: "\<forall>j < block. d < j \<longrightarrow> ps ! j = []"
    by (simp_all add: sim_rep_def)
  have d'lt: "d' < block" "d \<le> d'" using d' L ib by auto
  let ?pp = "(?np + d') mod block"
  let ?r' = "r\<lparr>r_queue := (r_queue r)[?pp := (r_queue r ! ?pp)[length (ps ! d') := p]],
      r_now_qlen := (r_now_qlen r)[?pp := length (ps ! d') + 1], r_pre_pointer := ?pp,
      r_now_bytes := (r_now_bytes r)[?pp := (if ib \<le> int d then r_now_bytes r ! ?pp + p_len p else p_len p)],
      r_tot_bytes := r_tot_bytes r + p_len p\<rparr>"
  have "place ib d p r = Inr ?r'"
  proof (cases "ib \<le> int d")
    case True
    then have "d' = d" using d' by simp
    then show ?thesis using True room L cells by (simp add: place_def set_cell_def Let_def)
  next
    case False
    then have dd: "d' = nat ib" "d < d'" using d' by auto
    then have e: "ps ! d' = []" using beyond d'lt by simp
    have "nat ((ib - int d + int (r_pre_pointer r)) mod int block) = ?pp"
    proof -
      have "(ib - int d + int (r_pre_pointer r)) mod int block = (int d' - int d + (int ?np + int d)) mod int block"
        unfolding L(1) zmod_int of_nat_add using dd ib by (simp add: mod_add_right_eq)
      also have "\<dots> = int ((?np + d') mod block)" by (simp add: zmod_int add.commute)
      finally show ?thesis by simp
    qed
    then show ?thesis using False e by (simp add: place_def set_cell_def Let_def)
  qed
  moreover have "sim_rep ?r' d' (ps[d' := ps ! d' @ [p]])" "concat (ps[d' := ps ! d' @ [p]]) = concat ps @ [p]"
    using sim_rep_store [OF rep d'lt(2,1) room len refl, of ?r'] by simp_all
  ultimately show ?thesis by (intro exI [of _ ?r']) simp
qed

text \<open>A tick of the reader: its block is emptied and both pointers move on.\<close>

definition sim_tick :: "int \<Rightarrow> sim_ring \<Rightarrow> (dbl \<times> int) list \<times> sim_ring" where
  "sim_tick T r = (case de_ring T r of (outs, r1) \<Rightarrow> (outs, status_update r1))"

lemma map_upt_nth: "map (\<lambda>i. f (xs ! i)) [0 ..< length xs] = map f xs"
  by (rule nth_equalityI) simp_all

lemma de_ring_rep:
  assumes "sim_rep r d ps"
  shows "map snd (fst (de_ring T r)) = map p_len (ps ! 0)" and "length (fst (de_ring T r)) = length (ps ! 0)"
    and "map fst (fst (de_ring T r)) =
      map (\<lambda>i. dadd (tenth T) (dmul (ddiv (dmul (Fin 1) (of_int_d (r_time_interval r)))
                (of_int_d (int (length (ps ! 0))))) (of_int_d (int i)))) [0 ..< length (ps ! 0)]"
    and "snd (de_ring T r) = r\<lparr>r_tot_bytes := r_tot_bytes r - sum_list (map p_len (ps ! 0)),
      r_now_qlen := (r_now_qlen r)[r_now_postion r := 0],
      r_now_bytes := (if ps ! 0 = [] then r_now_bytes r else (r_now_bytes r)[r_now_postion r := 0])\<rparr>"
proof -
  from assms have "r_now_postion r < block"
    and "\<forall>j < block. r_now_qlen r ! ((r_now_postion r + j) mod block) = length (ps ! j) \<and>
        take (length (ps ! j)) (r_queue r ! ((r_now_postion r + j) mod block)) = ps ! j"
    and l: "length (r_now_qlen r) = block"
    by (simp_all add: sim_rep_def)
  then have q: "r_now_qlen r ! r_now_postion r = length (ps ! 0)"
    and row: "take (length (ps ! 0)) (r_queue r ! r_now_postion r) = ps ! 0"
    by (auto dest!: spec [of _ 0])
  show "map snd (fst (de_ring T r)) = map p_len (ps ! 0)"
    unfolding de_ring_def Let_def q row by (simp add: comp_def map_upt_nth)
  show "length (fst (de_ring T r)) = length (ps ! 0)" unfolding de_ring_def Let_def q row by simp
  show "map fst (fst (de_ring T r)) =
      map (\<lambda>i. dadd (tenth T) (dmul (ddiv (dmul (Fin 1) (of_int_d (r_time_interval r)))
                (of_int_d (int (length (ps ! 0))))) (of_int_d (int i)))) [0 ..< length (ps ! 0)]"
    unfolding de_ring_def Let_def q row by (simp add: comp_def)
  have "(r_now_qlen r)[r_now_postion r := 0] = r_now_qlen r" if "ps ! 0 = []"
    using q that by (metis list.size(3) list_update_id)
  then show "snd (de_ring T r) = r\<lparr>r_tot_bytes := r_tot_bytes r - sum_list (map p_len (ps ! 0)),
      r_now_qlen := (r_now_qlen r)[r_now_postion r := 0],
      r_now_bytes := (if ps ! 0 = [] then r_now_bytes r else (r_now_bytes r)[r_now_postion r := 0])\<rparr>"
    unfolding de_ring_def Let_def q row by simp
qed

lemma sim_rep_tick:
  assumes rep: "sim_rep r d ps"
    and r': "r_queue r' = r_queue r" "r_now_qlen r' = (r_now_qlen r)[r_now_postion r := 0]"
      "r_now_postion r' = (r_now_postion r + 1) mod block"
      "r_pre_pointer r' = (if d = 0 then (r_pre_pointer r + 1) mod block else r_pre_pointer r)"
      "r_rate r' = r_rate r" "r_tot_bytes r' = r_tot_bytes r - sum_list (map p_len (ps ! 0))"
  shows "sim_rep r' (d - 1) (tl ps @ [[]])" and "ps ! 0 @ concat (tl ps @ [[]]) = concat ps"
proof -
  let ?np = "r_now_postion r" and ?ps = "tl ps @ [[]]"
  from rep have L: "length (r_queue r) = block" "\<forall>row \<in> set (r_queue r). length row = qlen"
    "length (r_now_qlen r) = block" "length ps = block" "?np < block" "r_rate r = Fin 128"
    "r_pre_pointer r = (?np + d) mod block" "d < block"
    and cells: "\<forall>j < block. r_now_qlen r ! ((?np + j) mod block) = length (ps ! j) \<and>
        length (ps ! j) \<le> qlen \<and> take (length (ps ! j)) (r_queue r ! ((?np + j) mod block)) = ps ! j"
    and beyond: "\<forall>j < block. d < j \<longrightarrow> ps ! j = []"
    by (simp_all add: sim_rep_def)
  from L(4) obtain q qs where ps: "ps = q # qs" by (cases ps) auto
  show c: "ps ! 0 @ concat ?ps = concat ps" by (simp add: ps)
  have idx: "((?np + 1) mod block + j) mod block = (?np + Suc j) mod block" for j
    by (simp add: mod_simps)
  have cell: "r_now_qlen r' ! ((r_now_postion r' + j) mod block) = length (?ps ! j) \<and> length (?ps ! j) \<le> qlen \<and>
      take (length (?ps ! j)) (r_queue r' ! ((r_now_postion r' + j) mod block)) = ?ps ! j" if j: "j < block" for j
  proof (cases "Suc j < block")
    case True
    then have "?ps ! j = ps ! Suc j" using L(4) by (simp add: ps nth_append)
    moreover have "(?np + Suc j) mod block \<noteq> (?np + 0) mod block" using True L(5) by (subst pos_inj) simp_all
    then have "(?np + Suc j) mod block \<noteq> ?np" using L(5) by simp
    ultimately show ?thesis using cells [rule_format, OF True] unfolding r' idx by simp
  next
    case False
    with j have j: "Suc j = block" by simp
    then have "?ps ! j = []" using L(4) by (simp add: ps nth_append)
    moreover have "(?np + Suc j) mod block = ?np" using L(5) j by simp
    ultimately show ?thesis using L(3,5) unfolding r' idx by simp
  qed
  have pre: "r_pre_pointer r' = (r_now_postion r' + (d - 1)) mod block"
  proof (cases "d = 0")
    case True
    then show ?thesis using L(5,7) by (simp add: r')
  next
    case False
    then have "Suc (d - 1) = d" by simp
    with False show ?thesis using idx [of "d - 1"] L(7) unfolding r' by simp
  qed
  have "\<forall>j < block. d - 1 < j \<longrightarrow> ?ps ! j = []"
  proof (intro allI impI)
    fix j assume j: "j < block" "d - 1 < j"
    show "?ps ! j = []"
      using beyond [rule_format, of "Suc j"] j L(4) by (cases "Suc j < block") (auto simp: ps nth_append)
  qed
  moreover have "r_tot_bytes r' = sum_list (map p_len (concat ?ps))"
    using rep by (simp add: r' sim_rep_def ps)
  moreover have "\<forall>p \<in> set (concat ?ps). 0 \<le> p_len p" using rep by (simp add: sim_rep_def ps)
  moreover have "length ?ps = block" using L(4) by (simp add: ps)
  moreover have "r_now_postion r' < block" by (simp add: r')
  moreover have "length (r_queue r') = block \<and> (\<forall>row \<in> set (r_queue r'). length row = qlen) \<and>
      length (r_now_qlen r') = block \<and> d - 1 < block \<and> r_rate r' = Fin 128"
    using L by (simp add: r')
  ultimately show "sim_rep r' (d - 1) ?ps" unfolding sim_rep_def using pre cell by blast
qed

lemma sim_tick_rep:
  assumes rep: "sim_rep r d ps"
  shows "sim_rep (snd (sim_tick T r)) (d - 1) (tl ps @ [[]])"
    and "r_latency (snd (sim_tick T r)) = r_latency r"
proof -
  have t: "snd (sim_tick T r) = r\<lparr>r_tot_bytes := r_tot_bytes r - sum_list (map p_len (ps ! 0)),
      r_now_qlen := (r_now_qlen r)[r_now_postion r := 0],
      r_now_bytes := (if ps ! 0 = [] then r_now_bytes r else (r_now_bytes r)[r_now_postion r := 0]),
      r_pre_pointer := (if d = 0 then (r_pre_pointer r + 1) mod block else r_pre_pointer r),
      r_now_postion := (r_now_postion r + 1) mod block\<rparr>"
    using de_ring_rep(4) [OF rep, of T] cal_interval_rep [OF rep]
    by (simp add: sim_tick_def status_update_def Let_def split_beta)
  show "sim_rep (snd (sim_tick T r)) (d - 1) (tl ps @ [[]])"
    by (rule sim_rep_tick(1) [OF rep]) (simp_all add: t)
  show "r_latency (snd (sim_tick T r)) = r_latency r" by (simp add: t)
qed

section \<open>An instance of the interface\<close>

definition sim_holds :: "sim_ring \<Rightarrow> sim_packet list \<Rightarrow> bool" where
  "sim_holds r xs \<longleftrightarrow> (\<exists>d ps. sim_rep r d ps \<and> xs = concat ps)"

text \<open>
  \<open>in_ring\<close> on one packet as an insertion: \<open>None\<close> when the packet is not stored (it is too old or too big,
  the ring is full, or the call faults).
\<close>

definition sim_put :: "int \<Rightarrow> sim_packet \<Rightarrow> sim_ring \<Rightarrow> sim_ring option" where
  "sim_put T p r =
     (if dlt (dadd (p_arrival p) (r_latency r)) (tenth T) \<or> too_big p r then None
      else (case in_ring T [p] r of Inr ([], r') \<Rightarrow> Some r' | _ \<Rightarrow> None))"

lemma sim_put_eq:
  "sim_put T p r =
     (if dlt (dadd (p_arrival p) (r_latency r)) (tenth T) \<or> too_big p r then None
      else (case interval_block p r of
              Inl _ \<Rightarrow> None
            | Inr ib \<Rightarrow>
                if ib > int block then None
                else (case place ib (cal_interval (r_now_postion r) (r_pre_pointer r)) p r of
                        Inl _ \<Rightarrow> None
                      | Inr r' \<Rightarrow> Some r')))"
  by (auto simp: sim_put_def Let_def split: sum.splits)

text \<open>The capacity is not reached and the row of the block the packet goes to has room.\<close>

definition sim_ok :: "sim_ring \<Rightarrow> sim_packet list \<Rightarrow> sim_packet \<Rightarrow> bool" where
  "sim_ok r xs p \<longleftrightarrow> 0 \<le> p_len p \<and> p_len p + r_tot_bytes r < 131072 \<and>
     (nat ((p_len p + r_tot_bytes r) * 1000 div 131072) \<le> cal_interval (r_now_postion r) (r_pre_pointer r) \<longrightarrow>
      r_now_qlen r ! r_pre_pointer r < qlen)"

lemma sim_tot_nonneg: "sim_rep r d ps \<Longrightarrow> 0 \<le> r_tot_bytes r"
  unfolding sim_rep_def by (elim conjE) (auto intro!: sum_list_nonneg)

lemma sim_put_rep:
  assumes rep: "sim_rep r d ps" and ok: "sim_ok r (concat ps) p"
  defines "ib \<equiv> (p_len p + r_tot_bytes r) * 1000 div 131072"
  shows "interval_block p r = Inr ib" and "\<not> ib > int block" and "0 \<le> ib" and "\<not> too_big p r"
    and "\<exists>r'. place ib d p r = Inr r' \<and> sim_rep r' (max d (nat ib)) (ps[max d (nat ib) := ps ! max d (nat ib) @ [p]]) \<and>
      concat (ps[max d (nat ib) := ps ! max d (nat ib) @ [p]]) = concat ps @ [p] \<and>
      r_now_postion r' = r_now_postion r \<and> r_latency r' = r_latency r \<and> r_tot_bytes r' = r_tot_bytes r + p_len p"
proof -
  have n: "0 \<le> p_len p + r_tot_bytes r" "p_len p + r_tot_bytes r < 131072" "0 \<le> p_len p"
    using ok sim_tot_nonneg [OF rep] by (simp_all add: sim_ok_def)
  have rate: "r_rate r = Fin 128" using rep by (simp add: sim_rep_def)
  show "interval_block p r = Inr ib" unfolding ib_def by (rule interval_block_eq [OF rate n(1)]) (use n in simp)
  show ib: "0 \<le> ib" unfolding ib_def using n by simp
  have lt: "ib < int block" unfolding ib_def using n by (simp add: div_less_iff_less_mult)
  then show "\<not> ib > int block" by simp
  have "p_len p < 131072" using n sim_tot_nonneg [OF rep] by linarith
  then show "\<not> too_big p r" using too_big_eq [OF rate n(3)] by simp
  have "length (ps ! max d (nat ib)) < qlen"
  proof (cases "nat ib \<le> d")
    case True
    then have "r_now_qlen r ! r_pre_pointer r < qlen"
      using ok cal_interval_rep [OF rep] by (simp add: sim_ok_def ib_def)
    with True rep show ?thesis by (simp add: sim_rep_def max_def)
  next
    case False
    with rep lt ib show ?thesis by (simp add: sim_rep_def max_def)
  qed
  from place_rep [OF rep ib lt n(3) refl this]
  show "\<exists>r'. place ib d p r = Inr r' \<and> sim_rep r' (max d (nat ib)) (ps[max d (nat ib) := ps ! max d (nat ib) @ [p]]) \<and>
      concat (ps[max d (nat ib) := ps ! max d (nat ib) @ [p]]) = concat ps @ [p] \<and>
      r_now_postion r' = r_now_postion r \<and> r_latency r' = r_latency r \<and> r_tot_bytes r' = r_tot_bytes r + p_len p" .
qed

text \<open>
  The ring with the round it is in. An insertion takes place \<open>d\<close> rounds later; a tick takes place at the
  next multiple of ten rounds, and shows what \<open>de_ring\<close> prints of each packet, its length.
\<close>

definition timed_put :: "nat \<times> sim_packet \<Rightarrow> int \<times> sim_ring \<Rightarrow> (int \<times> sim_ring) option" where
  "timed_put x s = (case (x, s) of ((d, p), (T, r)) \<Rightarrow> map_option (Pair (T + int d)) (sim_put (T + int d) p r))"

definition timed_get :: "int \<times> sim_ring \<Rightarrow> int list \<times> int \<times> sim_ring" where
  "timed_get s = (case s of (T, r) \<Rightarrow> (case sim_tick ((T div 10 + 1) * 10) r of
     (printed, r') \<Rightarrow> (map snd printed, (T div 10 + 1) * 10, r')))"

definition timed_ok :: "int \<times> sim_ring \<Rightarrow> (nat \<times> sim_packet) list \<Rightarrow> nat \<times> sim_packet \<Rightarrow> bool" where
  "timed_ok s xs x \<longleftrightarrow> sim_ok (snd s) (map snd xs) (snd x)"

definition timed_holds :: "int \<times> sim_ring \<Rightarrow> (nat \<times> sim_packet) list \<Rightarrow> bool" where
  "timed_holds s xs \<longleftrightarrow> sim_holds (snd s) (map snd xs)"

lemma sim_put_holds:
  assumes "sim_holds r xs" and "sim_ok r xs p" and "sim_put T p r = Some r'"
  shows "sim_holds r' (xs @ [p])"
proof -
  from assms(1) obtain d ps where rep: "sim_rep r d ps" and xs: "xs = concat ps" by (auto simp: sim_holds_def)
  note P = sim_put_rep [OF rep assms(2) [unfolded xs]]
  from P(5) assms(3) P(1,2,4) cal_interval_rep [OF rep] show ?thesis
    unfolding sim_holds_def xs by (auto simp: sim_put_eq split: if_splits) metis
qed

lemma sim_tick_holds:
  assumes "sim_holds r xs"
  shows "\<exists>us zs. xs = us @ zs \<and> map snd (fst (sim_tick T r)) = map p_len us \<and> sim_holds (snd (sim_tick T r)) zs"
proof -
  from assms obtain d ps where rep: "sim_rep r d ps" and xs: "xs = concat ps" by (auto simp: sim_holds_def)
  have "length ps = block" using rep by (simp add: sim_rep_def)
  then obtain q qs where ps: "ps = q # qs" by (cases ps) auto
  have "map snd (fst (sim_tick T r)) = map p_len q"
    using de_ring_rep(1) [OF rep, of T] by (simp add: ps sim_tick_def split_beta)
  moreover have "sim_holds (snd (sim_tick T r)) (concat qs)"
    using sim_tick_rep(1) [OF rep, of T] by (auto simp: sim_holds_def ps intro!: exI)
  ultimately show ?thesis by (intro exI [of _ q] exI [of _ "concat qs"]) (simp add: xs ps)
qed

interpretation sim: fifo timed_holds "\<lambda>x. p_len (snd x)" timed_ok timed_put timed_get
proof unfold_locales
  fix s s' xs x vs
  show "timed_holds s' (xs @ [x])" if "timed_holds s xs" "timed_ok s xs x" "timed_put x s = Some s'"
    using that by (auto simp: timed_holds_def timed_ok_def timed_put_def sim_put_holds split: prod.splits)
  show "\<exists>us zs. xs = us @ zs \<and> vs = map (\<lambda>x. p_len (snd x)) us \<and> timed_holds s' zs"
    if holds: "timed_holds s xs" and get: "timed_get s = (vs, s')"
  proof -
    obtain T r where s: "s = (T, r)" by fastforce
    let ?t = "sim_tick ((T div 10 + 1) * 10) r"
    from get have vs: "vs = map snd (fst ?t)" and s': "snd s' = snd ?t" by (auto simp: timed_get_def s split: prod.splits)
    from sim_tick_holds [OF holds [unfolded timed_holds_def], of "(T div 10 + 1) * 10"] obtain us zs where
      m: "map snd xs = us @ zs" and v: "map snd (fst ?t) = map p_len us" and h: "sim_holds (snd ?t) zs" by (auto simp: s)
    from m obtain us' zs' where "xs = us' @ zs'" "map snd us' = us" "map snd zs' = zs" by (auto simp: map_eq_append_conv)
    with v h show ?thesis by (intro exI [of _ us'] exI [of _ zs']) (auto simp: vs timed_holds_def s')
  qed
qed

section \<open>The new ring\<close>

definition ring_128 :: sim_ring where
  "ring_128 = \<lparr>r_rate = Fin 128, r_queue = replicate block (replicate qlen \<lparr>p_arrival = Fin 0, p_len = 0\<rparr>),
     r_now_qlen = replicate block 0, r_now_bytes = replicate block 0, r_now_postion = 0, r_pre_pointer = 0,
     r_time_interval = 1, r_latency = Fin 40, r_tot_bytes = 0, r_max_byte_per_block = 131\<rparr>"

lemma ring_new_128: "ring_new (Fin 128) = Inr ring_128"
proof -
  have "exp_of (16384 / 125) = - 45" by (rule exp_of_eq) (simp_all add: power_int_minus)
  moreover have "half_even (\<bar>16384 / 125\<bar> / 2 powi (- 45)) = 4611686018427388"
  proof -
    have x: "\<bar>16384 / 125\<bar> / 2 powi (- 45) = (576460752303423488 / 125 :: rat)" by (simp add: power_int_minus)
    have f: "\<lfloor>576460752303423488 / 125 :: rat\<rfloor> = 4611686018427387" by (rule floor_unique) simp_all
    show ?thesis unfolding x half_even_def f Let_def by simp
  qed
  ultimately have "rnd (16384 / 125) = Fin (4611686018427388 / 2 ^ 45)" by (simp add: rnd_def power_int_minus)
  moreover have "\<lfloor>4611686018427388 / 2 ^ 45 :: rat\<rfloor> = 131" by (rule floor_unique) simp_all
  ultimately have "trunc_int (ddiv (dmul (Fin 128) (Fin 1024)) (Fin 1000)) = Inr 131"
    unfolding rate_1024 by simp
  then show ?thesis by (simp only: ring_new_def bindE_simps ring_128_def)
qed

lemma ring_128_rep: "sim_rep ring_128 0 (replicate block [])"
  unfolding sim_rep_def ring_128_def by simp

section \<open>The loop over the arrived packets\<close>

definition expired :: "int \<Rightarrow> sim_ring \<Rightarrow> sim_packet \<Rightarrow> bool" where
  "expired T r p \<longleftrightarrow> dlt (dadd (p_arrival p) (r_latency r)) (tenth T)"

lemma sim_row_le: "sim_rep r d ps \<Longrightarrow> r_now_qlen r ! r_pre_pointer r \<le> length (concat ps)"
  unfolding sim_rep_def by (elim conjE) (simp add: length_concat member_le_sum_list)

lemma in_ring_append:
  assumes "sim_rep r d ps" and "\<forall>p \<in> set inque. 0 \<le> p_len p"
    and "sum_list (map p_len inque) + r_tot_bytes r < 131072" and "length (concat ps) + length inque \<le> qlen"
  shows "\<exists>r' d' ps'. (\<forall>zs. in_ring T (inque @ zs) r = in_ring T zs r') \<and> sim_rep r' d' ps' \<and>
    concat ps' = concat ps @ filter (\<lambda>p. \<not> expired T r p) inque \<and> r_latency r' = r_latency r"
  using assms
proof (induction inque arbitrary: r d ps)
  case Nil
  then show ?case by auto
next
  case (Cons p inque)
  show ?case
  proof (cases "expired T r p")
    case True
    have "sum_list (map p_len inque) + r_tot_bytes r < 131072" using Cons.prems by simp
    with Cons.IH [OF Cons.prems(1)] Cons.prems True show ?thesis by (auto simp: expired_def)
  next
    case False
    have s: "0 \<le> sum_list (map p_len inque)" using Cons.prems(2) by (intro sum_list_nonneg) auto
    have "r_now_qlen r ! r_pre_pointer r < qlen" using sim_row_le [OF Cons.prems(1)] Cons.prems(4) by simp
    then have ok: "sim_ok r (concat ps) p" using Cons.prems(2,3) s by (simp add: sim_ok_def)
    note P = sim_put_rep [OF Cons.prems(1) ok]
    from P(5) obtain r1 d1 ps1 where
      pl: "place ((p_len p + r_tot_bytes r) * 1000 div 131072) d p r = Inr r1" and rep1: "sim_rep r1 d1 ps1"
      and c1: "concat ps1 = concat ps @ [p]" and lat: "r_latency r1 = r_latency r"
      and tot: "r_tot_bytes r1 = r_tot_bytes r + p_len p" by blast
    have "in_ring T ((p # inque) @ zs) r = in_ring T (inque @ zs) r1" for zs
      using False P(1,2,4) pl cal_interval_rep [OF Cons.prems(1)] by (simp add: expired_def Let_def)
    moreover have "expired T r1 = expired T r" by (simp add: fun_eq_iff expired_def lat)
    moreover have "sum_list (map p_len inque) + r_tot_bytes r1 < 131072" using Cons.prems(3) by (simp add: tot)
    moreover have "length (concat ps1) + length inque \<le> qlen" using Cons.prems(4) unfolding c1 by simp
    ultimately show ?thesis using Cons.IH [OF rep1] Cons.prems(2) c1 lat False by auto
  qed
qed

lemma in_ring_rep:
  assumes "sim_rep r d ps" and "\<forall>p \<in> set inque. 0 \<le> p_len p"
    and "sum_list (map p_len inque) + r_tot_bytes r < 131072" and "length (concat ps) + length inque \<le> qlen"
  shows "\<exists>r' d' ps'. in_ring T inque r = Inr ([], r') \<and> sim_rep r' d' ps' \<and>
    concat ps' = concat ps @ filter (\<lambda>p. \<not> expired T r p) inque"
proof -
  from in_ring_append [OF assms] obtain r' d' ps' where "in_ring T (inque @ []) r = in_ring T [] r'"
    "sim_rep r' d' ps'" "concat ps' = concat ps @ filter (\<lambda>p. \<not> expired T r p) inque" by blast
  then show ?thesis by auto
qed

lemma less_div_succ: "(0 :: int) < m \<Longrightarrow> x < (x div m + 1) * m"
  unfolding distrib_right using pos_mod_bound [of m x] div_mult_mod_eq [of x m] by linarith

lemma pace_arith: "n * 1000 < (a + 1) * 131072 \<Longrightarrow> a \<le> b \<Longrightarrow> t = n \<Longrightarrow> t * 1000 < (b + 1) * (131072 :: int)"
  unfolding distrib_right by simp

text \<open>The packets of the witnesses, which arrive at millisecond 1.\<close>

definition sim_p :: "int \<Rightarrow> sim_packet" where
  "sim_p n = \<lparr>p_arrival = Fin 1, p_len = n\<rparr>"

lemma sim_p_simps [simp]: "p_len (sim_p n) = n" "p_arrival (sim_p n) = Fin 1"
  by (simp_all add: sim_p_def)

lemma sim_p_timely: "\<not> dlt (dadd (Fin 1) (Fin 40)) (tenth 0)"
  using rnd_of_int [of 41] by (simp add: tenth_def rnd_tenth)

lemma ring_128_simps [simp]: "r_latency ring_128 = Fin 40" "r_tot_bytes ring_128 = 0"
  by (simp_all add: ring_128_def)

lemma ring_128_holds: "sim_holds ring_128 []"
  using ring_128_rep unfolding sim_holds_def by (auto intro!: exI)

lemma ring_128_ok: "0 \<le> n \<Longrightarrow> n < 131072 \<Longrightarrow> sim_ok ring_128 xs (sim_p n)"
  by (simp add: sim_ok_def ring_128_def)

lemma ring_128_put:
  assumes "0 \<le> n" and "n < 131072"
  obtains r' ps' where "sim_put 0 (sim_p n) ring_128 = Some r'"
    and "sim_rep r' (nat (n * 1000 div 131072)) ps'" and "concat ps' = [sim_p n]" and "r_latency r' = Fin 40"
    and "r_tot_bytes r' = n"
proof -
  have ok: "sim_ok ring_128 (concat (replicate block [])) (sim_p n)" using assms by (rule ring_128_ok)
  note P = sim_put_rep [OF ring_128_rep ok]
  from P(5) obtain r' where pl: "place (n * 1000 div 131072) 0 (sim_p n) ring_128 = Inr r'"
    and rep: "sim_rep r' (nat (n * 1000 div 131072))
        ((replicate block [])[nat (n * 1000 div 131072) := replicate block [] ! nat (n * 1000 div 131072) @ [sim_p n]])"
    and c: "concat ((replicate block [])[nat (n * 1000 div 131072) := replicate block [] ! nat (n * 1000 div 131072) @ [sim_p n]]) = [sim_p n]"
    and l: "r_latency r' = Fin 40" and t: "r_tot_bytes r' = n"
    by auto
  have "sim_put 0 (sim_p n) ring_128 = Some r'"
    using P(1,2,4) pl sim_p_timely cal_interval_rep [OF ring_128_rep] by (simp add: sim_put_eq)
  from that [OF this rep c l t] show ?thesis .
qed

section \<open>Properties\<close>

text \<open>
  C21. The ring of the simulator keeps the order. Whatever sequence of insertions by \<open>in_ring\<close> (those that
  store nothing included) and of ticks, at whatever rounds, runs on a ring at the program's rate that has room: the
  lengths the ticks print are those of a first part of the packets the ring held and then stored, in
  that order, and the ring holds the others.
\<close>

theorem sim_run_in_order:
  assumes "sim_holds r (map snd xs)" and "buf_run_ok timed_ok timed_put timed_get ops (T, r) xs"
    and "buf_run timed_put timed_get ops (T, r) = (acc, outs, T', r')"
  shows "\<exists>us ys. xs @ acc = us @ ys \<and> outs = map (\<lambda>x. p_len (snd x)) us \<and> sim_holds r' (map snd ys)"
  using sim.run_order [of "(T, r)" xs ops acc outs "(T', r')"] assms by (simp add: timed_holds_def)

theorem sim_run_in_order_witness:
  "\<exists>T' r'. buf_run timed_put timed_get [Put (0, sim_p 100), Get] (0, ring_128) = ([(0, sim_p 100)], [100], T', r') \<and>
     sim_holds r' []"
proof -
  obtain r1 ps1 where put: "sim_put 0 (sim_p 100) ring_128 = Some r1" and rep: "sim_rep r1 0 ps1" and c: "concat ps1 = [sim_p 100]"
    using ring_128_put [of 100, simplified] by metis
  have l: "length ps1 = block" and e: "\<forall>j < block. 0 < j \<longrightarrow> ps1 ! j = []" using rep by (simp_all add: sim_rep_def)
  then obtain q qs where ps1: "ps1 = q # qs" by (cases ps1) auto
  have "qs ! i = []" if "i < length qs" for i using e [rule_format, of "Suc i"] that l by (simp add: ps1)
  then have "concat qs = []" by (auto simp: in_set_conv_nth)
  then have q: "q = [sim_p 100]" using c unfolding ps1 concat.simps by (simp only: append_Nil2)
  have "map snd (fst (sim_tick 10 r1)) = [100]"
    using de_ring_rep(1) [OF rep, of 10] by (simp add: sim_tick_def split_beta ps1 q)
  then have get: "fst (timed_get (0, r1)) = [100]" by (simp add: timed_get_def split_beta)
  obtain T' r' where run: "buf_run timed_put timed_get [Put (0, sim_p 100), Get] (0, ring_128) = ([(0, sim_p 100)], [100], T', r')"
    using put get by (cases "timed_get (0, r1)") (auto simp: timed_put_def)
  have "buf_run_ok timed_ok timed_put timed_get [Put (0, sim_p 100), Get] (0, ring_128) []"
    using ring_128_ok [of 100] put by (simp add: timed_ok_def timed_put_def split: prod.splits)
  from sim_run_in_order [OF _ this run] ring_128_holds run show ?thesis by auto
qed

text \<open>
  \<open>in_ring\<close> stores every arrived packet that is not too old. On a ring at the program's rate that
  has room for them all (131072 bytes in all, at most 80 packets), the loop ends without a fault with
  \<open>inque\<close> empty, and the ring holds what it held followed by the packets whose arrival is at most
  the latency ago, in order; the others are discarded.
\<close>

theorem in_ring_stores:
  assumes "sim_holds r xs" and "\<forall>p \<in> set inque. 0 \<le> p_len p"
    and "sum_list (map p_len inque) + r_tot_bytes r < 131072" and "length xs + length inque \<le> 80"
  shows "\<exists>r'. in_ring T inque r = Inr ([], r') \<and>
    sim_holds r' (xs @ filter (\<lambda>p. \<not> dlt (dadd (p_arrival p) (r_latency r)) (tenth T)) inque)"
proof -
  from assms(1) obtain d ps where rep: "sim_rep r d ps" and xs: "xs = concat ps" by (auto simp: sim_holds_def)
  from in_ring_rep [OF rep assms(2,3)] assms(4) show ?thesis
    unfolding xs sim_holds_def expired_def by metis
qed

theorem in_ring_stores_witness:
  "\<exists>r'. in_ring 0 [sim_p 100, sim_p 200] ring_128 = Inr ([], r') \<and> sim_holds r' [sim_p 100, sim_p 200]"
  using in_ring_stores [OF ring_128_holds, of "[sim_p 100, sim_p 200]" 0] sim_p_timely by simp

text \<open>
  A tick sends the reader's block. It prints the lengths of the packets of that block in order,
  takes exactly their bytes off the total, moves the reader one block on, and the packets of the
  other blocks come one block closer; the printed times are the tick's time plus the packet's share of
  the interval.
\<close>

theorem sim_tick_sends:
  assumes "sim_rep r d ps"
  shows "map snd (fst (sim_tick T r)) = map p_len (ps ! 0) \<and>
    map fst (fst (sim_tick T r)) =
      map (\<lambda>i. dadd (tenth T) (dmul (ddiv (dmul (Fin 1) (of_int_d (r_time_interval r)))
                (of_int_d (int (length (ps ! 0))))) (of_int_d (int i)))) [0 ..< length (ps ! 0)] \<and>
    sim_rep (snd (sim_tick T r)) (d - 1) (tl ps @ [[]]) \<and>
    r_tot_bytes (snd (sim_tick T r)) = r_tot_bytes r - sum_list (map p_len (ps ! 0))"
proof -
  have "fst (sim_tick T r) = fst (de_ring T r)" by (simp add: sim_tick_def split_beta)
  moreover have "r_tot_bytes (snd (sim_tick T r)) = r_tot_bytes r - sum_list (map p_len (ps ! 0))"
    using de_ring_rep(4) [OF assms, of T] by (simp add: sim_tick_def status_update_def Let_def split_beta)
  ultimately show ?thesis using de_ring_rep [OF assms] sim_tick_rep(1) [OF assms] by simp
qed

theorem sim_tick_sends_witness:
  "\<exists>r' ps'. sim_put 0 (sim_p 100) ring_128 = Some r' \<and> sim_rep r' 0 ps' \<and>
     map snd (fst (sim_tick 10 r')) = map p_len (ps' ! 0) \<and> concat ps' = [sim_p 100]"
proof -
  obtain r' ps' where "sim_put 0 (sim_p 100) ring_128 = Some r'" "sim_rep r' 0 ps'" "concat ps' = [sim_p 100]"
    using ring_128_put [of 100, simplified] by metis
  with sim_tick_sends [of r' 0 ps' 10] show ?thesis by blast
qed

text \<open>
  C24. The ring paces. A stored packet lies so many blocks after the reader that the bytes ahead of it
  and its own have been paid for: when the reader leaves its block, \<open>d' + 1\<close> milliseconds at 131072
  bytes per second have passed for all the bytes the ring holds.
\<close>

theorem sim_put_paces:
  assumes "sim_rep r d ps" and "sim_ok r (concat ps) p" and "sim_put T p r = Some r'"
  shows "\<exists>d' ps'. sim_rep r' d' ps' \<and> last (ps' ! d') = p \<and> ps' ! d' \<noteq> [] \<and> d \<le> d' \<and>
    r_tot_bytes r' * 1000 < (int d' + 1) * 131072"
proof -
  note P = sim_put_rep [OF assms(1,2)]
  obtain n ib where n: "n = p_len p + r_tot_bytes r" and ib: "ib = (p_len p + r_tot_bytes r) * 1000 div 131072"
    by blast
  note P = P [folded ib]
  define d' where "d' = max d (nat ib)"
  from P(5) obtain r1 where pl: "place ib d p r = Inr r1" and rep1: "sim_rep r1 d' (ps[d' := ps ! d' @ [p]])"
    and tot: "r_tot_bytes r1 = r_tot_bytes r + p_len p" unfolding d'_def by blast
  from assms(3) P(1,2,4) pl cal_interval_rep [OF assms(1)] have r': "r' = r1"
    by (auto simp: sim_put_eq split: if_splits)
  have "n * 1000 < (ib + 1) * 131072" unfolding ib n by (rule less_div_succ) simp
  moreover have "ib \<le> int d'" unfolding d'_def using P(3) by simp
  moreover have "r_tot_bytes r' = n" by (simp only: r' tot n add.commute)
  ultimately have "r_tot_bytes r' * 1000 < (int d' + 1) * 131072" by (rule pace_arith)
  moreover have "d' < length (ps[d' := ps ! d' @ [p]])" using rep1 by (simp add: sim_rep_def)
  ultimately show ?thesis using rep1
    by (intro exI [of _ d'] exI [of _ "ps[d' := ps ! d' @ [p]]"]) (simp add: r' d'_def)
qed

theorem sim_put_paces_witness:
  "\<exists>r' d' ps'. sim_put 0 (sim_p 13108) ring_128 = Some r' \<and> sim_rep r' d' ps' \<and> last (ps' ! d') = sim_p 13108 \<and>
     r_tot_bytes r' * 1000 < (int d' + 1) * 131072 \<and> 100 \<le> d'"
proof -
  obtain r' ps1 where put: "sim_put 0 (sim_p 13108) ring_128 = Some r'" and t: "r_tot_bytes r' = 13108"
    using ring_128_put [of 13108] by auto
  have ok: "sim_ok ring_128 (concat (replicate block [])) (sim_p 13108)" by (rule ring_128_ok) simp_all
  from sim_put_paces [OF ring_128_rep ok put] obtain d' ps' where
    r: "sim_rep r' d' ps'" "last (ps' ! d') = sim_p 13108" "r_tot_bytes r' * 1000 < (int d' + 1) * 131072" by blast
  from r(3) have "100 \<le> d'" unfolding t by simp
  with put r show ?thesis by blast
qed

lemma sim_row_bound: "sim_rep r d ps \<Longrightarrow> length (ps ! 0) \<le> qlen"
  unfolding sim_rep_def by (elim conjE) (auto dest: spec [of _ 0])

lemma sim_reader_row: "sim_rep r d ps \<Longrightarrow> r_now_qlen r ! r_now_postion r = length (ps ! 0)"
  unfolding sim_rep_def by (elim conjE) (auto dest: spec [of _ 0])

lemma in_ring_overflow:
  assumes "sim_rep r 0 ps" and "r_tot_bytes r = int (length (ps ! 0))" and "p_len p = 1" and "\<not> expired T r p"
    and "n + length (ps ! 0) = 81"
  shows "in_ring T (replicate n p) r = Inl OutOfBounds"
  using assms
proof (induction n arbitrary: r ps)
  case 0
  with sim_row_bound [OF 0(1)] show ?case by simp
next
  case (Suc n)
  note rep = Suc.prems(1)
  have cells: "r_now_qlen r ! r_pre_pointer r = length (ps ! 0)" "length (ps ! 0) \<le> qlen"
    "cal_interval (r_now_postion r) (r_pre_pointer r) = 0" "r_rate r = Fin 128"
    using sim_reader_row [OF rep] sim_row_bound [OF rep] cal_interval_rep [OF rep] rep by (simp_all add: sim_rep_def)
  have tot: "p_len p + r_tot_bytes r < 132" "0 \<le> p_len p + r_tot_bytes r" using Suc.prems cells by simp_all
  then have ib0: "(p_len p + r_tot_bytes r) * 1000 div 131072 = 0" by (intro div_pos_pos_trivial) simp_all
  have ib: "interval_block p r = Inr 0"
    using interval_block_eq [OF cells(4) tot(2)] tot ib0 by simp
  have nb: "\<not> too_big p r" using too_big_eq [OF cells(4)] Suc.prems(3) by simp
  show ?case
  proof (cases "length (ps ! 0) = qlen")
    case True
    then have "place 0 0 p r = Inl OutOfBounds" by (simp add: place_def set_cell_def Let_def cells)
    then show ?thesis using Suc.prems(4) ib nb cells(3) by (simp add: expired_def Let_def)
  next
    case False
    with cells(2) have "length (ps ! 0) < qlen" by simp
    with cells tot Suc.prems(3) have ok: "sim_ok r (concat ps) p" by (simp add: sim_ok_def)
    from sim_put_rep(5) [OF rep ok] ib0 obtain r1 where pl: "place 0 0 p r = Inr r1"
      and rep1: "sim_rep r1 0 (ps[0 := ps ! 0 @ [p]])" and lat: "r_latency r1 = r_latency r"
      and t1: "r_tot_bytes r1 = r_tot_bytes r + p_len p" by auto
    have "length ps = block" using rep by (simp add: sim_rep_def)
    then have "in_ring T (replicate n p) r1 = Inl OutOfBounds"
      using Suc.prems(2-5) lat t1 by (intro Suc.IH [OF rep1]) (simp_all add: expired_def)
    then show ?thesis using Suc.prems(4) ib nb cells(3) pl by (simp add: expired_def Let_def)
  qed
qed

text \<open>
  C25. A burst of small packets writes outside its row. \<open>now_qlen\<close> is never compared with \<open>qlen\<close>: 81
  one-byte packets that arrive together all belong to the first block, and the 81st is written past the
  end of its row of 80 (in the program, into the next block's row).
\<close>

theorem in_ring_overflows_row:
  assumes "p_len p = 1" and "\<not> dlt (dadd (p_arrival p) (Fin 40)) (tenth T)"
  shows "in_ring T (replicate 81 p) ring_128 = Inl OutOfBounds"
  using ring_128_rep
  by (rule in_ring_overflow) (use assms in \<open>simp_all add: ring_128_def expired_def\<close>)

theorem in_ring_overflows_row_witness:
  "in_ring 0 (replicate 81 \<lparr>p_arrival = Fin 1, p_len = 1\<rparr>) ring_128 = Inl OutOfBounds"
proof (rule in_ring_overflows_row)
  have "dadd (Fin 1) (Fin 40) = Fin 41" using rnd_of_int [of 41] by simp
  then show "\<not> dlt (dadd (p_arrival \<lparr>p_arrival = Fin 1, p_len = 1\<rparr>) (Fin 40)) (tenth 0)"
    by (simp add: tenth_def rnd_tenth)
qed simp

text \<open>
  C31. A full ring overwrites the block being sent. When a packet brings the total to between 131072 and
  131203 bytes, the block it asks for is exactly a whole turn away and reduces to the reader's own
  block: the new packet replaces the packets there. The next tick prints it alone, and the bytes of the packets
  it replaced stay in the total afterwards.
\<close>

theorem in_ring_wraps_onto_reader:
  assumes "sim_rep r d ps" and "0 \<le> p_len p" and "p_len p \<le> 131072"
    and "131072 \<le> p_len p + r_tot_bytes r" and "p_len p + r_tot_bytes r \<le> 131203"
    and "\<not> dlt (dadd (p_arrival p) (r_latency r)) (tenth T)"
  shows "\<exists>r'. in_ring T [p] r = Inr ([], r') \<and> map snd (fst (sim_tick U r')) = [p_len p] \<and>
    r_tot_bytes r' = sum_list (map p_len (concat ps)) + p_len p \<and>
    r_tot_bytes (snd (sim_tick U r')) = sum_list (map p_len (concat ps))"
proof -
  have rate: "r_rate r = Fin 128" and pre: "r_pre_pointer r = (r_now_postion r + d) mod block"
    and L: "r_now_postion r < block" "d < block" "length (r_queue r) = block" "length (r_now_qlen r) = block"
    "\<forall>row \<in> set (r_queue r). length row = qlen"
    and tot: "r_tot_bytes r = sum_list (map p_len (concat ps))"
    using assms(1) by (simp_all add: sim_rep_def)
  have "(p_len p + r_tot_bytes r) * 1000 div 131072 = 1000"
    by (rule int_div_pos_eq [where r = "(p_len p + r_tot_bytes r) * 1000 - 131072000"]) (use assms(4,5) in simp_all)
  with interval_block_eq [OF rate] assms(4,5) have ib: "interval_block p r = Inr 1000" by simp
  have nb: "\<not> too_big p r" using too_big_eq [OF rate assms(2)] assms(3) by simp
  have pp: "nat ((1000 - int d + int (r_pre_pointer r)) mod 1000) = r_now_postion r"
  proof (cases "r_now_postion r + d < block")
    case True
    then have e: "1000 - int d + int (r_pre_pointer r) = int (r_now_postion r) + int block" unfolding pre by simp
    show ?thesis unfolding e using L(1) by simp
  next
    case False
    then have "r_pre_pointer r = r_now_postion r + d - block" unfolding pre mod_add_small [OF L(1,2)] by simp
    with False have e: "1000 - int d + int (r_pre_pointer r) = int (r_now_postion r)" by (simp add: of_nat_diff)
    show ?thesis unfolding e using L(1) by simp
  qed
  let ?np = "r_now_postion r"
  let ?r' = "r\<lparr>r_pre_pointer := ?np, r_queue := (r_queue r)[?np := (r_queue r ! ?np)[0 := p]],
    r_now_qlen := (r_now_qlen r)[?np := 1], r_now_bytes := (r_now_bytes r)[?np := p_len p],
    r_tot_bytes := r_tot_bytes r + p_len p\<rparr>"
  have "place 1000 d p r = Inr ?r'" using L(2) by (simp add: place_def set_cell_def Let_def pp)
  then have "in_ring T [p] r = Inr ([], ?r')"
    using assms(6) ib nb cal_interval_rep [OF assms(1)] by (simp add: Let_def)
  moreover have "length (r_queue r ! ?np) = qlen" using L by simp
  then have "take 1 ((r_queue r ! ?np)[0 := p]) = [p]" by (cases "r_queue r ! ?np") simp_all
  then have "map snd (fst (sim_tick U ?r')) = [p_len p]" "r_tot_bytes (snd (sim_tick U ?r')) = r_tot_bytes r"
    using L by (simp_all add: sim_tick_def de_ring_def status_update_def Let_def split_beta)
  ultimately show ?thesis using tot by auto
qed

theorem in_ring_wraps_onto_reader_witness:
  "\<exists>r r'. sim_put 0 (sim_p 100) ring_128 = Some r \<and> sim_holds r [sim_p 100] \<and>
     in_ring 0 [sim_p 131000] r = Inr ([], r') \<and> map snd (fst (sim_tick 10 r')) = [131000] \<and>
     r_tot_bytes (snd (sim_tick 10 r')) = 100"
proof -
  obtain r ps where r: "sim_put 0 (sim_p 100) ring_128 = Some r" "sim_rep r 0 ps" "concat ps = [sim_p 100]"
    "r_latency r = Fin 40" "r_tot_bytes r = 100"
    using ring_128_put [of 100, simplified] by metis
  have "sim_holds r [sim_p 100]" using r(2,3) unfolding sim_holds_def by metis
  moreover have "\<exists>r'. in_ring 0 [sim_p 131000] r = Inr ([], r') \<and> map snd (fst (sim_tick 10 r')) = [p_len (sim_p 131000)] \<and>
    r_tot_bytes r' = sum_list (map p_len (concat ps)) + p_len (sim_p 131000) \<and>
    r_tot_bytes (snd (sim_tick 10 r')) = sum_list (map p_len (concat ps))"
    by (rule in_ring_wraps_onto_reader [OF r(2)]) (use r(4,5) sim_p_timely in simp_all)
  ultimately show ?thesis using r(1,3) by (auto simp del: in_ring.simps)
qed

end
