(* ===== verification/Capture.thy ===== *)
theory Capture
  imports Prelude
begin

text \<open>
  What the capture programs (\<open>src/MeasureRate\<close>, \<open>src/benchmark/retransmission_loss.cpp\<close>,
  \<open>src/RateLimiter/5tuple.cpp\<close>) share: they are copies of one skeleton, and the definitions here are
  the parts that are the same, character by character, in all of them.

  A captured packet is the list of its bytes and a \<open>pcap_pkthdr\<close>; reading past the list is the fault
  \<open>OutOfBounds\<close>. Multi-byte fields are read the way a little-endian machine does, which \<open>big2small\<close> and
  \<open>ntohs\<close> presume. What is printed is a list of \<open>printed\<close> values. An overflowing \<open>int\<close> addition is
  the fault \<open>Undefined\<close>.
\<close>

section \<open>Captured packets\<close>

record pcap_pkthdr =
  caplen :: u32
  pkt_length :: u32

datatype printed =
    ShortFrame
  | Arp
  | Rarp
  | OtherType
  | TruncatedIp u32
  | UnknownVersion u32
  | BadHlen u32
  | MissingBytes u32

definition byte_at :: "u8 list \<Rightarrow> nat \<Rightarrow> fault + u8" where
  "byte_at packet i = (if i < length packet then Inr (packet ! i) else Inl OutOfBounds)"

text \<open>A 16-bit and a 32-bit load at an offset, little-endian.\<close>

definition load16 :: "u8 list \<Rightarrow> nat \<Rightarrow> fault + u16" where
  "load16 packet i =
     bindE (byte_at packet i) (\<lambda>b0.
     bindE (byte_at packet (i + 1)) (\<lambda>b1.
     Inr (word_cat b1 b0)))"

definition load32 :: "u8 list \<Rightarrow> nat \<Rightarrow> fault + u32" where
  "load32 packet i =
     bindE (load16 packet i) (\<lambda>w0.
     bindE (load16 packet (i + 2)) (\<lambda>w1.
     Inr (word_cat w1 w0)))"

definition ntohs :: "u16 \<Rightarrow> u16" where
  "ntohs x = word_cat (ucast x :: u8) (ucast (drop_bit 8 x) :: u8)"

text \<open>\<open>int\<close> addition: overflow is undefined.\<close>

definition add_int :: "int \<Rightarrow> int \<Rightarrow> fault + int" where
  "add_int x y =
     (if - 2147483648 \<le> x + y \<and> x + y < 2147483648 then Inr (x + y) else Inl Undefined)"

section \<open>The Ethernet header\<close>

abbreviation ETHERTYPE_IP :: u16 where "ETHERTYPE_IP \<equiv> 0x0800"
abbreviation ETHERTYPE_ARP :: u16 where "ETHERTYPE_ARP \<equiv> 0x0806"
abbreviation ETHERTYPE_REVARP :: u16 where "ETHERTYPE_REVARP \<equiv> 0x8035"
abbreviation ETHER_HDRLEN :: nat where "ETHER_HDRLEN \<equiv> 14"

text \<open>
  \<open>handle_ethernet\<close>: the type it returns (-1 converted to 16 bits for a short frame), what it prints and
  the new \<open>tot_len\<close>, an \<open>int\<close> to which an unsigned length is added modulo \<open>2^32\<close>.
\<close>

definition handle_ethernet :: "pcap_pkthdr \<Rightarrow> u8 list \<Rightarrow> int \<Rightarrow> fault + u16 \<times> printed list \<times> int" where
  "handle_ethernet pkthdr packet tot_len =
     (let tot_len' = c_int (tot_len + uint (pkt_length pkthdr)) in
      if caplen pkthdr < 14 then Inr (0xFFFF, [ShortFrame], tot_len')
      else
        bindE (load16 packet 12) (\<lambda>raw.
        (let ether_type = ntohs raw in
         Inr (ether_type,
              if ether_type = ETHERTYPE_IP then []
              else if ether_type = ETHERTYPE_ARP then [Arp]
              else if raw = ETHERTYPE_REVARP then [Rarp]
              else [OtherType],
              tot_len'))))"

section \<open>The IP header\<close>

text \<open>
  \<open>struct my_ip\<close> behind the Ethernet header: the two fields every program reads first. The protocol
  and the addresses, which some programs read too, are \<open>ip_addresses\<close>.
\<close>

record my_ip =
  ip_vhl :: u8
  ip_len :: u16

definition IP_V :: "my_ip \<Rightarrow> u32" where
  "IP_V ip = ucast (drop_bit 4 (and (ip_vhl ip) 0xF0))"

definition IP_HL :: "my_ip \<Rightarrow> u32" where
  "IP_HL ip = ucast (and (ip_vhl ip) 0x0F)"

definition ip_length :: "pcap_pkthdr \<Rightarrow> u32" where
  "ip_length pkthdr = pkt_length pkthdr - 14"

definition ip_header :: "u8 list \<Rightarrow> fault + my_ip" where
  "ip_header packet =
     bindE (byte_at packet 14) (\<lambda>vhl.
     bindE (load16 packet 16) (\<lambda>len.
     Inr \<lparr>ip_vhl = vhl, ip_len = len\<rparr>))"

definition ip_addresses :: "u8 list \<Rightarrow> fault + u8 \<times> u32 \<times> u32" where
  "ip_addresses packet =
     bindE (byte_at packet 23) (\<lambda>p.
     bindE (load32 packet 26) (\<lambda>src.
     bindE (load32 packet 30) (\<lambda>dst.
     Inr (p, src, dst))))"

text \<open>
  The three checks on the header: whether \<open>handle_IP\<close> goes on, and what it prints. Only the version
  ends it.
\<close>

definition ip_checks :: "pcap_pkthdr \<Rightarrow> my_ip \<Rightarrow> bool \<times> printed list" where
  "ip_checks pkthdr ip =
     (let length = ip_length pkthdr; len = ucast (ntohs (ip_len ip)) in
      if IP_V ip \<noteq> 4 then (False, [UnknownVersion (IP_V ip)])
      else (True, (if IP_HL ip < 5 then [BadHlen (IP_HL ip)] else []) @
                  (if length < len then [MissingBytes (len - length)] else [])))"

section \<open>The skeleton of the programs\<close>

text \<open>
  What a program writes: the notes on malformed packets, and its measurements. A program's \<open>handle_IP\<close>
  is the skeleton \<open>handle_IP_frame\<close> around what the program does before the checks (\<open>mid\<close>, which may
  print) and after them (\<open>rest\<close>, which gets the length field); its \<open>my_callback\<close> calls it for packets
  of the type IP. \<open>pcap_loop\<close> runs the callback on every captured packet.
\<close>

datatype 'o line = Note printed | Data 'o

definition handle_IP_frame :: "pcap_pkthdr \<Rightarrow> u8 list \<Rightarrow> fault + 'p \<times> 'o line list
    \<Rightarrow> ('p \<Rightarrow> int \<Rightarrow> 's \<Rightarrow> fault + 'o line list \<times> 's) \<Rightarrow> 's \<Rightarrow> fault + 'o line list \<times> 's" where
  "handle_IP_frame pkthdr packet mid rest s =
     (if ip_length pkthdr < 20 then Inr ([Note (TruncatedIp (ip_length pkthdr))], s)
      else
        bindE (ip_header packet) (\<lambda>ip.
        bindE mid (\<lambda>(p, ls).
        (case ip_checks pkthdr ip of (go, notes) \<Rightarrow>
           if \<not> go then Inr (ls @ map Note notes, s)
           else bindE (rest p (uint (ntohs (ip_len ip))) s) (\<lambda>(ls', s').
                  Inr (ls @ map Note notes @ ls', s'))))))"

definition my_callback :: "pcap_pkthdr \<Rightarrow> u8 list \<Rightarrow> ('s \<Rightarrow> int) \<Rightarrow> (int \<Rightarrow> 's \<Rightarrow> 's)
    \<Rightarrow> ('s \<Rightarrow> fault + 'o line list \<times> 's) \<Rightarrow> 's \<Rightarrow> fault + 'o line list \<times> 's" where
  "my_callback pkthdr packet get_tot_len set_tot_len handle_IP s =
     bindE (handle_ethernet pkthdr packet (get_tot_len s)) (\<lambda>(type, notes, tot_len).
     (let s1 = set_tot_len tot_len s in
      if type = ETHERTYPE_IP then
        bindE (handle_IP s1) (\<lambda>(ls, s2). Inr (map Note notes @ ls, s2))
      else Inr (map Note notes, s1)))"

fun pcap_loop :: "('e \<Rightarrow> 's \<Rightarrow> fault + 'o line list \<times> 's) \<Rightarrow> 'e list \<Rightarrow> 's \<Rightarrow> fault + 'o line list \<times> 's" where
  "pcap_loop callback [] s = Inr ([], s)"
| "pcap_loop callback (e # es) s =
     bindE (callback e s) (\<lambda>(ls, s').
     bindE (pcap_loop callback es s') (\<lambda>(ls', t). Inr (ls @ ls', t)))"

section \<open>Numbers and addresses\<close>

text \<open>\<open>c2number\<close> on the bytes of its argument (\<open>char\<close> is signed): an \<open>int\<close> that may overflow.\<close>

fun c2number_loop :: "int \<Rightarrow> int list \<Rightarrow> fault + int" where
  "c2number_loop ans [] = Inr ans"
| "c2number_loop ans (c # cs) =
     (if - 2147483648 \<le> ans * 10 \<and> ans * 10 < 2147483648 then
        bindE (add_int (ans * 10) c) (\<lambda>a.
        bindE (add_int a (- 48)) (\<lambda>a'. c2number_loop a' cs))
      else Inl Undefined)"

definition c2number :: "int list \<Rightarrow> fault + int" where
  "c2number cs = c2number_loop 0 cs"

text \<open>\<open>big2small\<close>: the bits of \<open>x\<close>, lowest first, padded to 16, then read again with the bytes swapped.\<close>

fun bits_of :: "nat \<Rightarrow> u16 \<Rightarrow> int list" where
  "bits_of 0 x = []"
| "bits_of (Suc n) x = (if x = 0 then [] else uint (x mod 2) # bits_of n (x div 2))"

definition pad16 :: "int list \<Rightarrow> int list" where
  "pad16 q = q @ replicate (16 - length q) 0"

fun add_bits :: "int list \<Rightarrow> u16 \<times> int \<Rightarrow> u16 \<times> int" where
  "add_bits [] (now, pow) = (now, pow)"
| "add_bits (b # bs) (now, pow) = add_bits bs (word_of_int (uint now + b * pow), pow * 2)"

definition big2small :: "u16 \<Rightarrow> u16" where
  "big2small x =
     (let q = pad16 (bits_of 16 x)
      in fst (add_bits (take 8 q) (add_bits (take 8 (drop 8 q)) (0, 1))))"

text \<open>The decimal digits \<open>sprintf\<close> writes for \<open>%d\<close> of an \<open>unsigned char\<close>.\<close>

definition digit :: "nat \<Rightarrow> char" where
  "digit n = char_of (48 + n)"

definition show_u8 :: "u8 \<Rightarrow> string" where
  "show_u8 w =
     (let n = unat w in
      if n < 10 then [digit n]
      else if n < 100 then [digit (n div 10), digit (n mod 10)]
      else [digit (n div 100), digit (n div 10 mod 10), digit (n mod 10)])"

text \<open>\<open>sprintf\<close> into an array of \<open>n\<close> characters, which must hold the terminating zero too.\<close>

definition sprintf_buf :: "nat \<Rightarrow> string \<Rightarrow> fault + string" where
  "sprintf_buf n s = (if length s < n then Inr s else Inl OutOfBounds)"

text \<open>\<open>toStringIP\<close> appends to \<open>stringIP\<close>; its callers pass an empty string in 16 bytes.\<close>

definition append_part :: "string \<Rightarrow> u32 \<Rightarrow> string \<Rightarrow> fault + string" where
  "append_part dot ip acc = bindE (sprintf_buf 4 (show_u8 (ucast ip) @ dot)) (\<lambda>temp. Inr (acc @ temp))"

definition toStringIP :: "u32 \<Rightarrow> fault + string" where
  "toStringIP ip =
     bindE (append_part ''.'' ip []) (\<lambda>s1.
     bindE (append_part ''.'' (drop_bit 8 ip) s1) (\<lambda>s2.
     bindE (append_part ''.'' (drop_bit 16 ip) s2) (\<lambda>s3.
     append_part '''' (drop_bit 24 ip) s3)))"

end
