(* ===== verification/Capture_Props.thy ===== *)
theory Capture_Props
  imports Capture
begin

text \<open>
  What holds for every capture program: the frames a capture delivers, when one of them is an IPv4
  packet, what the skeleton does on each, and the interface \<open>capture_program\<close>, under which the
  measurements a program prints over a whole capture are a function of the capture.
\<close>

section \<open>Frames\<close>

text \<open>
  What \<open>libpcap\<close> delivers: the bytes of the frame, up to the snap length \<open>BUFSIZ\<close> the programs ask
  for, and a header that tells how many there are.
\<close>

definition is_frame :: "pcap_pkthdr \<Rightarrow> u8 list \<Rightarrow> bool" where
  "is_frame pkthdr packet \<longleftrightarrow>
     unat (caplen pkthdr) = length packet \<and> length packet = min (unat (pkt_length pkthdr)) 8192"

text \<open>The frames that reach the IP header, and the length field of those that are IPv4.\<close>

definition ip_frame :: "u8 list \<Rightarrow> bool" where
  "ip_frame packet \<longleftrightarrow> 34 \<le> length packet \<and> packet ! 12 = 8 \<and> packet ! 13 = 0"

definition ipv4_length :: "u8 list \<Rightarrow> int option" where
  "ipv4_length packet =
     (if ip_frame packet \<and> drop_bit 4 (packet ! 14) = 4
      then Some (256 * uint (packet ! 16) + uint (packet ! 17)) else None)"

lemma cat_low: "(ucast (word_cat (a :: u8) (b :: u8) :: u16) :: u8) = b"
  by (rule bit_word_eqI) (simp add: bit_simps bit_word_cat_iff)

lemma cat_high: "(ucast (drop_bit 8 (word_cat (a :: u8) (b :: u8) :: u16)) :: u8) = a"
  by (rule bit_word_eqI) (auto simp add: bit_simps bit_word_cat_iff)

lemma ntohs_cat: "ntohs (word_cat (b1 :: u8) (b0 :: u8)) = word_cat b0 b1"
  by (simp add: ntohs_def cat_low cat_high)

lemma uint_cat: "uint (word_cat (a :: u8) (b :: u8) :: u16) = 256 * uint a + uint b"
proof -
  have "uint a < 256" "uint b < 256" using uint_lt2p [of a] uint_lt2p [of b] by simp_all
  then have "concat_bit 8 (uint b) (uint a) = 256 * uint a + uint b"
    by (simp add: concat_bit_eq take_bit_int_eq_self push_bit_eq_mult)
  then have "word_of_int (256 * uint a + uint b) = (word_cat a b :: u16)" by (simp add: word_cat_eq')
  then show ?thesis using \<open>uint a < 256\<close> \<open>uint b < 256\<close> by (intro word_of_int_inverse) simp_all
qed

lemma cat_eq_iff: "word_cat (a :: u8) (b :: u8) = (word_cat c d :: u16) \<longleftrightarrow> a = (c :: u8) \<and> b = (d :: u8)"
  using cat_low [of a b] cat_low [of c d] cat_high [of a b] cat_high [of c d] by metis

lemma load16_ok: "i + 1 < length packet \<Longrightarrow> load16 packet i = Inr (word_cat (packet ! (i + 1)) (packet ! i))"
  by (simp add: load16_def byte_at_def)

text \<open>\<open>handle_ethernet\<close> on a frame: it never reads past the end, and says IP exactly for the type 8, 0.\<close>

lemma handle_ethernet_frame:
  assumes "is_frame pkthdr packet"
  shows "\<exists>type nts. handle_ethernet pkthdr packet n = Inr (type, nts, c_int (n + uint (pkt_length pkthdr))) \<and>
    (type = ETHERTYPE_IP \<longleftrightarrow> 14 \<le> length packet \<and> packet ! 12 = 8 \<and> packet ! 13 = 0) \<and>
    (type = ETHERTYPE_IP \<longrightarrow> nts = [])"
proof (cases "14 \<le> length packet")
  case True
  then have "\<not> caplen pkthdr < 14" using assms by (simp add: is_frame_def word_less_nat_alt)
  moreover have "ETHERTYPE_IP = word_cat (8 :: u8) (0 :: u8)" by (simp only: word_uint_eq_iff uint_cat) simp
  then have "word_cat a b = ETHERTYPE_IP \<longleftrightarrow> a = 8 \<and> b = 0" for a b :: u8 by (simp only: cat_eq_iff)
  ultimately show ?thesis using True by (simp add: handle_ethernet_def Let_def load16_ok ntohs_cat)
next
  case False
  then have "caplen pkthdr < 14" using assms by (simp add: is_frame_def word_less_nat_alt)
  then show ?thesis using False by (simp add: handle_ethernet_def)
qed

lemma ip_length_frame:
  assumes "is_frame pkthdr packet" and "14 \<le> length packet"
  shows "ip_length pkthdr < 20 \<longleftrightarrow> length packet < 34"
proof -
  have "14 \<le> pkt_length pkthdr" using assms by (simp add: is_frame_def word_le_nat_alt)
  then have "unat (pkt_length pkthdr - 14) = unat (pkt_length pkthdr) - 14" by (simp add: unat_sub)
  with assms show ?thesis by (auto simp: ip_length_def is_frame_def word_less_nat_alt)
qed

lemma nibble: "(ucast (drop_bit 4 (and (v :: u8) 0xF0)) :: u32) = 4 \<longleftrightarrow> drop_bit 4 v = 4"
proof -
  have "drop_bit 4 (and v 0xF0) = and (drop_bit 4 v) (mask 4)" by (simp add: drop_bit_and mask_eq_exp_minus_1)
  also have "\<dots> = drop_bit 4 v"
    by (rule bit_word_eqI) (auto simp: bit_simps dest: bit_imp_le_length)
  finally have "drop_bit 4 (and v 0xF0) = drop_bit 4 v" .
  moreover have "(ucast w :: u32) = 4 \<longleftrightarrow> w = (4 :: u8)" for w
    by (simp only: word_uint_eq_iff) (simp add: uint_up_ucast is_up)
  ultimately show ?thesis by simp
qed

section \<open>The skeleton on a frame\<close>

lemma ip_header_ok:
  "34 \<le> length packet \<Longrightarrow>
   ip_header packet = Inr \<lparr>ip_vhl = packet ! 14, ip_len = word_cat (packet ! 17) (packet ! 16)\<rparr>"
  by (simp add: ip_header_def byte_at_def load16_ok)

text \<open>
  The three things that can happen to a frame: it is not IP or too short; it is IP of another version;
  it is IPv4 and the rest of the program runs with its length. \<open>s1\<close> is the state after \<open>handle_ethernet\<close>.
\<close>

lemma my_callback_frame:
  assumes handle_def: "handle = handle_IP_frame pkthdr packet mid rest"
    and s1_def: "s1 = set_tl (c_int (get_tl s + uint (pkt_length pkthdr))) s"
    and frame: "is_frame pkthdr packet"
  shows "\<not> ip_frame packet \<Longrightarrow>
      \<exists>nts. my_callback pkthdr packet get_tl set_tl handle s = Inr (map Note nts, s1)"
    and "ip_frame packet \<Longrightarrow> mid = Inl e \<Longrightarrow> my_callback pkthdr packet get_tl set_tl handle s = Inl e"
    and "ip_frame packet \<Longrightarrow> mid = Inr (p, ls) \<Longrightarrow> ipv4_length packet = None \<Longrightarrow>
      \<exists>nts. my_callback pkthdr packet get_tl set_tl handle s = Inr (ls @ map Note nts, s1)"
    and "ip_frame packet \<Longrightarrow> mid = Inr (p, ls) \<Longrightarrow> ipv4_length packet = Some len \<Longrightarrow>
      \<exists>nts. my_callback pkthdr packet get_tl set_tl handle s =
        bindE (rest p len s1) (\<lambda>(ls', s'). Inr (ls @ map Note nts @ ls', s'))"
proof -
  obtain type nts where he: "handle_ethernet pkthdr packet (get_tl s) = Inr (type, nts, c_int (get_tl s + uint (pkt_length pkthdr)))"
    and type: "type = ETHERTYPE_IP \<longleftrightarrow> 14 \<le> length packet \<and> packet ! 12 = 8 \<and> packet ! 13 = 0"
    "type = ETHERTYPE_IP \<longrightarrow> nts = []"
    using handle_ethernet_frame [OF frame] by blast
  have cb: "my_callback pkthdr packet get_tl set_tl handle s =
    (if type = ETHERTYPE_IP then handle s1 else Inr (map Note nts, s1))"
  proof (cases "handle s1")
    case (Inr v)
    then show ?thesis using type(2) by (cases v) (simp add: my_callback_def he s1_def [symmetric])
  qed (simp add: my_callback_def he s1_def [symmetric])
  show "\<exists>nts. my_callback pkthdr packet get_tl set_tl handle s = Inr (map Note nts, s1)" if n: "\<not> ip_frame packet"
  proof (cases "type = ETHERTYPE_IP")
    case True
    with type n have "14 \<le> length packet" "length packet < 34" by (simp_all add: ip_frame_def)
    then have "ip_length pkthdr < 20" using ip_length_frame [OF frame] by blast
    then have "handle s1 = Inr (map Note [TruncatedIp (ip_length pkthdr)], s1)"
      by (simp add: handle_def handle_IP_frame_def)
    then show ?thesis using True unfolding cb by metis
  next
    case False
    then show ?thesis unfolding cb by auto
  qed
  assume ip: "ip_frame packet"
  then have t: "type = ETHERTYPE_IP" and l: "34 \<le> length packet" using type by (auto simp: ip_frame_def)
  have nt: "\<not> ip_length pkthdr < 20" using ip_length_frame [OF frame] l by simp
  let ?ip = "\<lparr>ip_vhl = packet ! 14, ip_len = word_cat (packet ! 17) (packet ! 16)\<rparr>"
  have h: "handle s1 = bindE mid (\<lambda>(p, ls). (case ip_checks pkthdr ?ip of (go, nts) \<Rightarrow>
      if \<not> go then Inr (ls @ map Note nts, s1)
      else bindE (rest p (uint (ntohs (ip_len ?ip))) s1) (\<lambda>(ls', s'). Inr (ls @ map Note nts @ ls', s'))))"
    using nt by (simp add: handle_def handle_IP_frame_def ip_header_ok [OF l])
  show "my_callback pkthdr packet get_tl set_tl handle s = Inl e" if "mid = Inl e"
    using t that unfolding cb h by simp
  have v: "IP_V ?ip = 4 \<longleftrightarrow> drop_bit 4 (packet ! 14) = 4" by (simp only: IP_V_def my_ip.simps nibble)
  have n: "uint (ntohs (ip_len ?ip)) = 256 * uint (packet ! 16) + uint (packet ! 17)"
    by (simp only: my_ip.simps ntohs_cat uint_cat)
  assume m: "mid = Inr (p, ls)"
  show "\<exists>nts. my_callback pkthdr packet get_tl set_tl handle s = Inr (ls @ map Note nts, s1)"
    if "ipv4_length packet = None"
  proof -
    from that ip v have "IP_V ?ip \<noteq> 4" by (auto simp: ipv4_length_def split: if_splits)
    then obtain nts where "ip_checks pkthdr ?ip = (False, nts)" by (simp add: ip_checks_def Let_def)
    then show ?thesis using t m unfolding cb h by auto
  qed
  show "\<exists>nts. my_callback pkthdr packet get_tl set_tl handle s =
      bindE (rest p len s1) (\<lambda>(ls', s'). Inr (ls @ map Note nts @ ls', s'))"
    if "ipv4_length packet = Some len"
  proof -
    from that v have "IP_V ?ip = 4" and len: "len = 256 * uint (packet ! 16) + uint (packet ! 17)"
      by (auto simp: ipv4_length_def split: if_splits)
    then obtain nts where "ip_checks pkthdr ?ip = (True, nts)" by (auto simp: ip_checks_def Let_def)
    then show ?thesis using t m n len unfolding cb h by auto
  qed
qed

section \<open>A capture as a whole\<close>

text \<open>The measurements among the lines a program writes.\<close>

fun data_of :: "'o line list \<Rightarrow> 'o list" where
  "data_of [] = []"
| "data_of (Note n # ls) = data_of ls"
| "data_of (Data x # ls) = x # data_of ls"

lemma data_of_append [simp]: "data_of (ls @ ls') = data_of ls @ data_of ls'"
  by (induction ls rule: data_of.induct) simp_all

lemma data_of_notes [simp]: "data_of (map Note nts) = []"
  by (induction nts) simp_all

lemma data_of_data [simp]: "data_of (map Data xs) = xs"
  by (induction xs) simp_all

text \<open>What the measurements are meant to be, event by event, given the events before.\<close>

fun spec_run :: "('e list \<Rightarrow> 'e \<Rightarrow> 'o list) \<Rightarrow> 'e list \<Rightarrow> 'e list \<Rightarrow> 'o list" where
  "spec_run spec past [] = []"
| "spec_run spec past (e # es) = spec past e @ spec_run spec (past @ [e]) es"

fun run_ok :: "('e list \<Rightarrow> 'e \<Rightarrow> bool) \<Rightarrow> 'e list \<Rightarrow> 'e list \<Rightarrow> bool" where
  "run_ok ok past [] = True"
| "run_ok ok past (e # es) = (ok past e \<and> run_ok ok (past @ [e]) es)"

text \<open>
  The interface of a capture program: what its state means in terms of the events so far, and that one
  event, if the environment keeps its side, is handled without a fault, prints what the specification
  says and keeps the meaning.
\<close>

locale capture_program =
  fixes step :: "'e \<Rightarrow> 's \<Rightarrow> fault + 'o line list \<times> 's"
    and means :: "'e list \<Rightarrow> 's \<Rightarrow> bool"
    and ok :: "'e list \<Rightarrow> 'e \<Rightarrow> bool"
    and spec :: "'e list \<Rightarrow> 'e \<Rightarrow> 'o list"
  assumes step_means: "means past s \<Longrightarrow> ok past e \<Longrightarrow>
    \<exists>ls s'. step e s = Inr (ls, s') \<and> data_of ls = spec past e \<and> means (past @ [e]) s'"
begin

lemma loop_means:
  assumes "means past s" and "run_ok ok past es"
  shows "\<exists>ls s'. pcap_loop step es s = Inr (ls, s') \<and> data_of ls = spec_run spec past es \<and> means (past @ es) s'"
  using assms
proof (induction es arbitrary: past s)
  case Nil
  then show ?case by simp
next
  case (Cons e es)
  from Cons.prems obtain ls s' where st: "step e s = Inr (ls, s')" "data_of ls = spec past e" "means (past @ [e]) s'"
    using step_means by fastforce
  from Cons.prems(2) have "run_ok ok (past @ [e]) es" by simp
  from Cons.IH [OF st(3) this] obtain ls' t where "pcap_loop step es s' = Inr (ls', t)"
    "data_of ls' = spec_run spec (past @ [e]) es" "means ((past @ [e]) @ es) t" by blast
  with st show ?case by simp
qed

end

end
