(* ===== verification/Numbers.thy ===== *)
theory Numbers
  imports Capture_Props
begin

text \<open>
  The conversions the capture programs share: \<open>big2small\<close> swaps the two bytes of a port, \<open>toStringIP\<close>
  writes past its four-character buffer for most addresses, \<open>c2number\<close> reads a decimal number back.
\<close>

section \<open>The byte order of the ports\<close>

lemma bits_of_pad: "bits_of n x @ replicate (n - length (bits_of n x)) 0 = map (\<lambda>i. of_bool (bit x i)) [0 ..< n]"
proof (induction n arbitrary: x)
  case 0
  then show ?case by simp
next
  case (Suc n)
  have m: "map (\<lambda>i. of_bool (bit x i)) [0 ..< Suc n] =
      of_bool (odd x) # map (\<lambda>i. of_bool (bit (x div 2) i)) [0 ..< n]"
    by (simp add: upt_conv_Cons map_Suc_upt [symmetric] bit_Suc bit_0 del: upt_Suc)
  show ?case
  proof (cases "x = 0")
    case True
    then show ?thesis by (simp add: map_replicate_const del: upt_Suc)
  next
    case False
    have "uint (x mod 2) = of_bool (odd x)" by (simp add: mod_2_eq_odd)
    with False show ?thesis unfolding m using Suc.IH [of "x div 2"] by simp
  qed
qed

lemma add_bits_eq:
  "add_bits bs (now, pow) = (now + word_of_int (pow * horner_sum id 2 bs), pow * 2 ^ length bs)"
proof (induction bs arbitrary: now pow)
  case Nil
  then show ?case by simp
next
  case (Cons b bs)
  then show ?case by (simp add: algebra_simps)
qed

lemma horner_bits: "horner_sum id 2 (map (\<lambda>i. of_bool (P i)) is) = horner_sum of_bool (2 :: int) (map P is)"
  by (induction "is") simp_all

lemma horner_byte: "horner_sum of_bool 2 (map (bit (w :: u16)) [0 ..< 8]) = uint (ucast w :: u8)"
proof -
  have "map (bit w) [0 ..< 8] = map (bit (uint w)) [0 ..< 8]" by (simp add: bit_uint_iff)
  then have "horner_sum of_bool 2 (map (bit w) [0 ..< 8]) = take_bit 8 (uint w)"
    by (simp only: horner_sum_bit_eq_take_bit)
  then show ?thesis by (simp add: unsigned_ucast_eq unsigned_take_bit_eq)
qed

lemma big2small_ntohs: "big2small x = ntohs x"
proof -
  have q: "pad16 (bits_of 16 x) = map (\<lambda>i. of_bool (bit x i)) [0 ..< 16]"
    using bits_of_pad [of 16 x] by (simp add: pad16_def)
  have lo: "take 8 (map (\<lambda>i. of_bool (bit x i)) [0 ..< 16]) = map (\<lambda>i. of_bool (bit x i) :: int) [0 ..< 8]"
    by (simp add: take_map)
  have hi: "take 8 (drop 8 (map (\<lambda>i. of_bool (bit x i)) [0 ..< 16])) = map (\<lambda>i. of_bool (bit (drop_bit 8 x) i) :: int) [0 ..< 8]"
    by (rule nth_equalityI) (simp_all add: bit_simps)
  have "big2small x = word_of_int (horner_sum of_bool 2 (map (bit (drop_bit 8 x)) [0 ..< 8])) +
      word_of_int (256 * horner_sum of_bool 2 (map (bit x) [0 ..< 8]))"
    unfolding big2small_def Let_def q lo hi by (simp add: add_bits_eq horner_bits)
  also have "\<dots> = word_cat (ucast x :: u8) (ucast (drop_bit 8 x) :: u8)"
    unfolding horner_byte wi_hom_add by (subst add.commute) (simp only: uint_cat [symmetric] word_of_int_uint)
  finally show ?thesis by (simp add: ntohs_def)
qed

text \<open>
  The port conversion is a byte swap. \<open>big2small\<close>, which takes the number apart into a vector of
  bits and puts it together with powers of two, equals \<open>ntohs\<close> on all 65536 values.
\<close>

theorem big2small_swaps: "big2small x = ntohs x"
  by (rule big2small_ntohs)

section \<open>The address as text\<close>

definition octet :: "nat \<Rightarrow> u32 \<Rightarrow> u8" where
  "octet i ip = ucast (drop_bit (8 * i) ip)"

lemma show_u8_length: "length (show_u8 w) = (if unat w < 10 then 1 else if unat w < 100 then 2 else 3)"
  by (simp add: show_u8_def Let_def)

lemma append_part_eq:
  "append_part dot ip acc =
     (if length (show_u8 (ucast ip)) + length dot < 4 then Inr (acc @ show_u8 (ucast ip) @ dot) else Inl OutOfBounds)"
  by (simp add: append_part_def sprintf_buf_def)

definition dotted :: "u32 \<Rightarrow> string" where
  "dotted ip = show_u8 (octet 0 ip) @ ''.'' @ show_u8 (octet 1 ip) @ ''.'' @ show_u8 (octet 2 ip) @ ''.'' @ show_u8 (octet 3 ip)"

lemma toStringIP_eq:
  "toStringIP ip =
     (if \<exists>i < 3. 100 \<le> unat (octet i ip) then Inl OutOfBounds else Inr (dotted ip))"
proof -
  have e: "(\<exists>i < 3. P i) \<longleftrightarrow> P 0 \<or> P 1 \<or> P (2 :: nat)" for P
    by (auto simp: numeral_3_eq_3 less_Suc_eq numeral_2_eq_2)
  show ?thesis
    by (auto simp: e toStringIP_def append_part_eq show_u8_length octet_def dotted_def split: if_splits)
qed

text \<open>
  C37. Most addresses do not fit. Each of the first three octets is written with its dot into
  \<open>char temp[4]\<close>: with three digits the terminating zero lies outside. \<open>toStringIP\<close> stays within its
  buffers exactly when the first three octets are below 100, and then yields the dotted address.
\<close>

theorem toStringIP_faults_iff:
  "toStringIP ip =
     (if \<exists>i < 3. 100 \<le> unat (octet i ip) then Inl OutOfBounds else Inr (dotted ip))"
  by (rule toStringIP_eq)

section \<open>The interval argument\<close>

text \<open>The decimal digits of a number, as the characters of a command line argument.\<close>

fun decimal :: "nat \<Rightarrow> int list" where
  "decimal n = (if n < 10 then [48 + int n] else decimal (n div 10) @ [48 + int (n mod 10)])"

declare decimal.simps [simp del]

lemma c2number_loop_append:
  "c2number_loop a (xs @ ys) = bindE (c2number_loop a xs) (\<lambda>b. c2number_loop b ys)"
  by (induction xs arbitrary: a) (auto simp: add_int_def)

lemma c2number_digit:
  assumes "0 \<le> a" and "d < 10" and "10 * a + int d + 48 < 2147483648"
  shows "c2number_loop a [48 + int d] = Inr (10 * a + int d)"
  using assms by (simp add: add_int_def)

lemma c2number_reads:
  assumes "n + 48 < 2147483648"
  shows "c2number (decimal n) = Inr (int n)"
  using assms
proof (induction n rule: decimal.induct)
  case (1 n)
  show ?case
  proof (cases "n < 10")
    case True
    then show ?thesis using c2number_digit [of 0 n] by (subst decimal.simps) (simp add: c2number_def)
  next
    case False
    then have "c2number_loop 0 (decimal (n div 10)) = Inr (int (n div 10))"
      using 1 by (simp add: c2number_def)
    moreover have "10 * int (n div 10) + int (n mod 10) = int n" using div_mult_mod_eq [of n 10] by linarith
    ultimately show ?thesis using 1(2) False c2number_digit [of "int (n div 10)" "n mod 10"]
      by (subst decimal.simps) (simp add: c2number_def c2number_loop_append)
  qed
qed

text \<open>
  The interval argument is read back. For every number whose last step cannot overflow an \<open>int\<close>
  (\<open>ans*10+c[i]\<close> is formed before \<open>'0'\<close> is taken off, so 48 below the maximum), \<open>c2number\<close> of its
  decimal digits is the number.
\<close>

theorem c2number_decimal:
  assumes "n + 48 < 2147483648"
  shows "c2number (decimal n) = Inr (int n)"
  using assms by (rule c2number_reads)

theorem c2number_decimal_witness: "c2number (decimal 1000) = Inr 1000"
  using c2number_decimal [of 1000] by simp

end
