(* ===== verification/Ratio.thy ===== *)
theory Ratio
  imports Dbl "HOL-Library.Multiset"
begin

text \<open>
  The rate estimate \<open>get_ratio\<close> that \<open>speed.cpp\<close>, \<open>nstream.cpp\<close> and \<open>count_burst.cpp\<close> share: of at most
  four samples it takes the window of the sorted samples that is the most crowded for its width, among
  those at least as wide as the mean distance of neighbours, and returns the mean of that window.
\<close>

section \<open>Model\<close>

definition window_score :: "dbl list \<Rightarrow> nat \<times> nat \<Rightarrow> dbl" where
  "window_score s = (\<lambda>(i, j). ddiv (of_int_d ((int j - int i + 1) * (int j - int i + 1))) (dsub (s ! j) (s ! i)))"

definition too_narrow :: "dbl \<Rightarrow> dbl list \<Rightarrow> nat \<times> nat \<Rightarrow> bool" where
  "too_narrow L s = (\<lambda>(i, j). dlt (dsub (s ! j) (s ! i)) L)"

definition window_step :: "dbl \<Rightarrow> dbl list \<Rightarrow> nat \<times> nat \<Rightarrow> dbl \<times> nat \<times> nat \<Rightarrow> dbl \<times> nat \<times> nat" where
  "window_step L s w = (\<lambda>(F, v).
     if too_narrow L s w then (F, v)
     else if dlt F (window_score s w) then (window_score s w, w)
     else (F, v))"

text \<open>The pairs \<open>(i, j)\<close> with \<open>i < j < n\<close> in the order of the two loops.\<close>

definition windows :: "nat \<Rightarrow> (nat \<times> nat) list" where
  "windows n = concat (map (\<lambda>i. map (Pair i) [Suc i ..< n]) [0 ..< n])"

definition best_window :: "dbl \<Rightarrow> dbl list \<Rightarrow> nat \<times> nat" where
  "best_window L s = snd (fold (window_step L s) (windows (length s)) (Fin (- 1), 0, length s - 1))"

definition window_mean :: "dbl list \<Rightarrow> nat \<times> nat \<Rightarrow> dbl" where
  "window_mean s = (\<lambda>(l, r).
     ddiv (foldl dadd (Fin 0) (map ((!) s) [l ..< Suc r])) (of_int_d (int r - int l + 1)))"

definition mean_gap :: "dbl list \<Rightarrow> dbl" where
  "mean_gap s = ddiv (dsub (s ! (length s - 1)) (s ! 0)) (of_int_d (int (length s) - 1))"

text \<open>
  The samples in the queue, oldest first. Without a sample the code indexes an empty vector; to sort a
  NaN with other samples is undefined.
\<close>

definition get_ratio :: "dbl list \<Rightarrow> fault + dbl" where
  "get_ratio q =
     (let s = sort q in
      if s = [] then Inl OutOfBounds
      else if 2 \<le> length s \<and> NaN \<in> set s then Inl Undefined
      else if deq (mean_gap s) (Fin 0) then Inr (s ! 0)
      else Inr (window_mean s (best_window (mean_gap s) s)))"

lemma get_ratio_ok: "q \<noteq> [] \<Longrightarrow> NaN \<notin> set q \<Longrightarrow> \<exists>r. get_ratio q = Inr r"
proof -
  assume "q \<noteq> []" and "NaN \<notin> set q"
  then have "sort q \<noteq> []" "NaN \<notin> set (sort q)" by (metis length_0_conv length_sort, simp)
  then show ?thesis by (simp add: get_ratio_def Let_def)
qed

section \<open>The search for the window\<close>

lemma set_windows: "set (windows n) = {(i, j). i < j \<and> j < n}"
  by (force simp: windows_def)

text \<open>
  A fold that keeps the element of the highest score so far, over scores none of which is a NaN.
\<close>

lemma fold_best:
  assumes "\<forall>w \<in> set ws. window_score s w \<noteq> NaN"
    and "fold (window_step L s) ws (F, v) = (F', v')"
  shows "F \<le> F' \<and> (\<forall>w \<in> set ws. too_narrow L s w \<or> window_score s w \<le> F') \<and>
    (F' = F \<and> v' = v \<or> v' \<in> set ws \<and> \<not> too_narrow L s v' \<and> F' = window_score s v')"
  using assms
proof (induction ws arbitrary: F v)
  case Nil
  then show ?case by simp
next
  case (Cons w ws)
  obtain F1 v1 where st: "window_step L s w (F, v) = (F1, v1)" by (cases "window_step L s w (F, v)")
  with Cons.prems have "F1 \<le> F' \<and> (\<forall>w \<in> set ws. too_narrow L s w \<or> window_score s w \<le> F') \<and>
    (F' = F1 \<and> v' = v1 \<or> v' \<in> set ws \<and> \<not> too_narrow L s v' \<and> F' = window_score s v')"
    by (intro Cons.IH) simp_all
  moreover have "F \<le> F1 \<and> (too_narrow L s w \<or> window_score s w \<le> F1) \<and>
      (F1 = F \<and> v1 = v \<or> v1 = w \<and> \<not> too_narrow L s w \<and> F1 = window_score s w)"
    using st Cons.prems(1) by (auto simp: window_step_def dlt_iff split: if_splits)
  ultimately show ?case by (auto intro: order_trans)
qed


text \<open>What the queue holds: finite values of type \<open>double\<close>, at most \<open>QUEUE_SIZE\<close> of them.\<close>

definition samples :: "dbl list \<Rightarrow> bool" where
  "samples q \<longleftrightarrow> length q \<le> 4 \<and> (\<forall>x \<in> set q. \<exists>r. x = Fin r \<and> is_dbl r)"

lemma samples_sort: "samples q \<Longrightarrow> samples (sort q)"
  by (simp add: samples_def)

text \<open>The width of a window of sorted samples, and its score.\<close>

lemma window_width:
  assumes "samples s" and "sorted s" and "i \<le> j" and "j < length s"
  shows "Fin 0 \<le> dsub (s ! j) (s ! i) \<and> dsub (s ! j) (s ! i) \<noteq> NaN \<and>
    (\<forall>y. dsub (s ! j) (s ! i) = Fin y \<longrightarrow> is_dbl y)"
proof -
  have "s ! i \<in> set s" "s ! j \<in> set s" using assms(3,4) by simp_all
  with assms(1) obtain a b where a: "s ! i = Fin a" and b: "s ! j = Fin b" unfolding samples_def by blast
  have "s ! i \<le> s ! j" using assms(2-4) by (intro sorted_nth_mono)
  then have "a \<le> b" by (auto simp: a b less_eq_dbl_def less_dbl_def)
  then have "rnd 0 \<le> rnd (b - a)" by (intro rnd_mono) simp
  moreover have "rnd (b - a) = Fin y \<Longrightarrow> is_dbl y" for y using rnd_idem by (simp add: is_dbl_def)
  ultimately show ?thesis by (simp add: a b dsub_def)
qed

lemma window_score_ok:
  assumes "samples s" and "sorted s" and "i < j" and "j < length s"
  shows "window_score s (i, j) \<noteq> NaN \<and> Fin 0 \<le> window_score s (i, j)"
proof -
  define k where "k = (int j - int i + 1) * (int j - int i + 1)"
  have w: "0 \<le> int j - int i + 1" "int j - int i + 1 \<le> 4" using assms by (simp_all add: samples_def)
  then have "k \<le> 4 * 4" unfolding k_def by (intro mult_mono) simp_all
  moreover have "0 < k" unfolding k_def using assms(3) by simp
  ultimately have k: "of_int_d k = Fin (of_int k)" "0 < k" by simp_all
  from window_width [OF assms(1,2) _ assms(4), of i] assms(3) have
    d: "Fin 0 \<le> dsub (s ! j) (s ! i)" "dsub (s ! j) (s ! i) \<noteq> NaN" by simp_all
  have s: "window_score s (i, j) = ddiv (Fin (of_int k)) (dsub (s ! j) (s ! i))"
    by (simp add: window_score_def k_def [symmetric] k)
  show ?thesis
  proof (cases "dsub (s ! j) (s ! i)")
    case (Fin y)
    with d have "0 \<le> y" by (auto simp: less_eq_dbl_def less_dbl_def)
    with k have "rnd 0 \<le> rnd (of_int k / y)" by (intro rnd_mono) simp
    then show ?thesis using k unfolding s Fin by (simp add: inf_sgn_def less_eq_dbl_def less_dbl_def)
  qed (use d s in \<open>auto simp: less_eq_dbl_def less_dbl_def\<close>)
qed

lemma whole_window:
  assumes "samples s" and "sorted s" and "2 \<le> length s"
  shows "\<not> too_narrow (mean_gap s) s (0, length s - 1)"
proof -
  let ?d = "dsub (s ! (length s - 1)) (s ! 0)"
  from window_width [OF assms(1,2), of 0 "length s - 1"] assms(3) have
    d: "Fin 0 \<le> ?d" "?d \<noteq> NaN" "\<And>y. ?d = Fin y \<Longrightarrow> is_dbl y" by simp_all
  define n where "n = int (length s) - 1"
  have n1: "1 \<le> n" "n \<le> 3" using assms by (simp_all add: n_def samples_def)
  then have n: "1 \<le> n" "of_int_d n = Fin (of_int n)" by simp_all
  have g: "mean_gap s = ddiv ?d (Fin (of_int n))" by (simp add: mean_gap_def n_def [symmetric] n)
  have "mean_gap s \<le> ?d"
  proof (cases ?d)
    case (Fin y)
    with d have "0 \<le> y" by (auto simp: less_eq_dbl_def less_dbl_def)
    moreover from this n(1) have "y / of_int n \<le> y" by (simp add: divide_le_eq mult_le_cancel_left1)
    ultimately show ?thesis using n d(3) [OF Fin] rnd_le_dbl unfolding g Fin by simp
  qed (use d n g in \<open>auto simp: less_eq_dbl_def less_dbl_def\<close>)
  then have "\<not> ?d < mean_gap s" by simp
  then show ?thesis using d(2) unfolding too_narrow_def less_dbl_def by simp
qed

section \<open>Properties\<close>

text \<open>
  C32. The estimate is the mean of the most crowded window. When the samples are not all so close that
  their mean distance rounds to zero, \<open>get_ratio\<close> returns the mean of a window of the sorted samples
  that is at least as wide as the mean distance, and no other such window has a higher score, the
  square of its number of samples over its width. There always is one: dividing the whole width by the
  number of gaps and rounding cannot exceed it.
\<close>

theorem get_ratio_optimal:
  assumes "samples q" and "2 \<le> length q" and "\<not> deq (mean_gap (sort q)) (Fin 0)"
  shows "\<exists>l r. get_ratio q = Inr (window_mean (sort q) (l, r)) \<and> l < r \<and> r < length q \<and>
    \<not> too_narrow (mean_gap (sort q)) (sort q) (l, r) \<and>
    (\<forall>i j. i < j \<and> j < length q \<and> \<not> too_narrow (mean_gap (sort q)) (sort q) (i, j) \<longrightarrow>
       \<not> dlt (window_score (sort q) (l, r)) (window_score (sort q) (i, j)))"
proof -
  let ?s = "sort q" and ?L = "mean_gap (sort q)"
  have s: "samples ?s" "sorted ?s" "2 \<le> length ?s" using assms samples_sort by simp_all
  obtain F l r where f: "fold (window_step ?L ?s) (windows (length ?s)) (Fin (- 1), 0, length ?s - 1) = (F, l, r)"
    by (rule prod_cases3)
  have ok: "window_score ?s w \<noteq> NaN \<and> Fin 0 \<le> window_score ?s w" if "w \<in> set (windows (length ?s))" for w
    using window_score_ok [OF s(1,2)] that unfolding set_windows by (cases w) simp
  from fold_best [OF _ f] ok have best: "\<forall>w \<in> set (windows (length ?s)). too_narrow ?L ?s w \<or> window_score ?s w \<le> F"
    and F: "F = Fin (- 1) \<or> (l, r) \<in> set (windows (length ?s)) \<and> \<not> too_narrow ?L ?s (l, r) \<and> F = window_score ?s (l, r)"
    by blast+
  have whole: "(0, length ?s - 1) \<in> set (windows (length ?s))" using s(3) by (simp add: set_windows)
  have "Fin 0 \<le> F" using best whole_window [OF s] ok [OF whole] whole by (meson order_trans)
  then have "F \<noteq> Fin (- 1)" by (auto simp: less_eq_dbl_def less_dbl_def)
  with F have lr: "(l, r) \<in> set (windows (length ?s))" "\<not> too_narrow ?L ?s (l, r)" "F = window_score ?s (l, r)" by simp_all
  have "NaN \<notin> set ?s" using s(1) by (auto simp: samples_def)
  moreover have "?s \<noteq> []" using s(3) by (metis list.size(3) not_numeral_le_zero)
  ultimately have "get_ratio q = Inr (window_mean ?s (l, r))"
    using assms(3) f by (simp add: get_ratio_def best_window_def)
  moreover have "\<not> dlt (window_score ?s (l, r)) (window_score ?s (i, j))"
    if "i < j" "j < length q" "\<not> too_narrow ?L ?s (i, j)" for i j
  proof -
    have w: "(i, j) \<in> set (windows (length ?s))" using that by (simp add: set_windows)
    with best that(3) lr(3) have "window_score ?s (i, j) \<le> window_score ?s (l, r)" by auto
    with ok [OF w] show ?thesis by (simp add: dlt_iff)
  qed
  ultimately show ?thesis using lr by (auto simp: set_windows)
qed

theorem get_ratio_optimal_witness:
  "\<exists>l r. get_ratio [Fin 8, Fin 1, Fin 2] = Inr (window_mean [Fin 1, Fin 2, Fin 8] (l, r)) \<and> l < r \<and> r < 3"
proof -
  have s: "sort [Fin 8, Fin 1, Fin 2] = [Fin 1, Fin 2, Fin 8]" by (simp add: less_eq_dbl_def less_dbl_def)
  have "samples [Fin 8, Fin 1, Fin 2]"
    using is_dbl_of_int [of 8] is_dbl_of_int [of 1] is_dbl_of_int [of 2] by (simp add: samples_def)
  moreover have "rnd 7 = Fin 7" using rnd_of_int [of 7] by simp
  then have "mean_gap [Fin 1, Fin 2, Fin 8] = rnd (7 / 2)" by (simp add: mean_gap_def dsub_def)
  moreover have "rnd (7 / 2) = Fin (7 / 2)" using rnd_exact [of 7 "- 1"] by (simp add: power_int_minus)
  ultimately show ?thesis using get_ratio_optimal [of "[Fin 8, Fin 1, Fin 2]"] unfolding s
    by (simp add: deq_def numeral_3_eq_3) blast
qed

text \<open>
  Only the samples count, not the order in which the windows closed: two queues with the same
  samples give the same estimate, faults included.
\<close>

theorem get_ratio_perm:
  assumes "mset p = mset q"
  shows "get_ratio p = get_ratio q"
proof -
  have "sort p = sort q" using assms by (metis mset_sort properties_for_sort sorted_sort)
  then show ?thesis by (simp add: get_ratio_def)
qed


theorem get_ratio_perm_witness:
  "get_ratio [Fin 8, Fin 1, Fin 2] = get_ratio [Fin 2, Fin 8, Fin 1]"
  by (rule get_ratio_perm) simp

text \<open>
  A steady rate is reported as it is: when all samples are the same value, that value is the
  estimate, bit for bit. (With one sample the mean distance is \<open>0 / 0\<close>, a NaN, and the code takes the
  other branch; the result is the same.)
\<close>

theorem get_ratio_constant:
  assumes "samples q" and "set q = {Fin x}"
  shows "get_ratio q = Inr (Fin x)"
proof -
  let ?n = "int (length q) - 1"
  have x: "rnd x = Fin x" using assms by (auto simp: samples_def is_dbl_def)
  have nth: "sort q ! i = Fin x" if "i < length q" for i
    using that assms(2) nth_mem [of i "sort q"] by simp
  have nan: "NaN \<notin> set (sort q)" using assms(2) by simp
  have ne: "sort q \<noteq> []" "0 < length q" using assms(2) nth_mem by (metis empty_iff list.set(1) set_sort insertI1, force)
  show ?thesis
  proof (cases "length q = 1")
    case True
    with nth have q: "sort q = [Fin x]" by (auto intro: nth_equalityI)
    show ?thesis using x
      by (simp add: get_ratio_def q mean_gap_def dsub_def inf_sgn_def deq_def best_window_def windows_def
          window_mean_def)
  next
    case False
    have "1 < length q" using False ne(2) by linarith
    then have n: "1 \<le> ?n" "?n \<le> 3" using assms(1) by (simp_all add: samples_def)
    then have "of_int_d ?n = Fin (of_int ?n)" by (intro of_int_d_small) simp
    moreover have "of_int ?n \<noteq> (0 :: rat)" using n by linarith
    ultimately have "mean_gap (sort q) = Fin 0"
      using nth [of 0] nth [of "length q - 1"] ne(2) by (simp add: mean_gap_def dsub_def)
    then show ?thesis using ne nan nth [of 0] by (simp add: get_ratio_def deq_def)
  qed
qed

theorem get_ratio_constant_witness:
  "get_ratio [Fin 3] = Inr (Fin 3) \<and> get_ratio [Fin 3, Fin 3, Fin 3] = Inr (Fin 3)"
proof -
  have "is_dbl 3" using is_dbl_of_int [of 3] by simp
  then have "samples [Fin 3]" "samples [Fin 3, Fin 3, Fin 3]" by (simp_all add: samples_def)
  then show ?thesis using get_ratio_constant [of "[Fin 3]" 3] get_ratio_constant [of "[Fin 3, Fin 3, Fin 3]" 3] by simp
qed

end
