(* ===== verification/Speed.thy ===== *)
theory Speed
  imports Capture Ratio
begin

text \<open>
  \<open>src/MeasureRate/speed.cpp\<close> (\<open>speedtest/speed.cpp\<close> is the same file) and \<open>speed2file.cpp\<close>, which
  differs in where it prints: the rate of all IP packets together, in windows of \<open>interval\<close> milliseconds
  of wall-clock time that a packet opens and later packets close.

  The wall clock is an input: the \<open>timeval\<close> that \<open>gettimeofday\<close> returns at each packet. The
  \<open>long long\<close> times are integers, the \<open>int\<close> counters fault when they overflow.
\<close>

section \<open>State\<close>

record timeval =
  tv_sec :: int
  tv_usec :: int

text \<open>The globals of the program; \<open>m_q\<close> is the queue of window rates, oldest first.\<close>

record meter =
  m_tot_len :: int
  m_tot_packet :: int
  m_tot_ippkt_len :: int
  m_start :: int
  m_nxt_end :: int
  m_last_time :: int
  m_q :: "dbl list"

definition meter_init :: meter where
  "meter_init = \<lparr>m_tot_len = 0, m_tot_packet = 0, m_tot_ippkt_len = 0, m_start = - 1, m_nxt_end = - 1,
     m_last_time = - 1, m_q = []\<rparr>"

definition PACKET_HEADER :: int where "PACKET_HEADER = 28"
definition QUEUE_SIZE :: nat where "QUEUE_SIZE = 4"

definition now_ms :: "timeval \<Rightarrow> int" where
  "now_ms tv = tv_sec tv * 1000 + tv_usec tv div 1000"

text \<open>Megabits per second of a window, and the queue that keeps the last \<open>QUEUE_SIZE\<close> of them.\<close>

definition window_ratio :: "int \<Rightarrow> int \<Rightarrow> dbl" where
  "window_ratio interval tot =
     ddiv (dmul (ddiv (dmul (Fin 1) (of_int_d tot)) (of_int_d interval)) (Fin 8)) (Fin 1000)"

definition push_ratio :: "dbl \<Rightarrow> dbl list \<Rightarrow> dbl list" where
  "push_ratio ratio q = (if length q < QUEUE_SIZE then q @ [ratio] else tl q @ [ratio])"

section \<open>The handler\<close>

text \<open>
  The start of a measurement and the jump over an idle gap. \<open>2*interval\<close> is computed as an \<open>int\<close>.
\<close>

definition open_window :: "int \<Rightarrow> int \<Rightarrow> meter \<Rightarrow> fault + meter" where
  "open_window interval now m =
     (let m1 = (if m_start m = - 1 then m\<lparr>m_start := now, m_nxt_end := now + interval\<rparr> else m) in
      bindE (add_int interval interval) (\<lambda>twice.
      Inr (if now - m_start m1 \<ge> twice
           then m1\<lparr>m_start := now, m_nxt_end := now + interval, m_tot_ippkt_len := 0\<rparr> else m1)))"

text \<open>
  The end of a window: the rate to print, if the window ends with this packet, and the new state.
\<close>

definition close_window :: "int \<Rightarrow> int \<Rightarrow> meter \<Rightarrow> fault + dbl option \<times> meter" where
  "close_window interval now m =
     (if now \<ge> m_nxt_end m then
        (let q = push_ratio (window_ratio interval (m_tot_ippkt_len m)) (m_q m) in
         bindE (get_ratio q) (\<lambda>smooth_ratio.
         Inr (Some smooth_ratio,
              m\<lparr>m_q := q, m_start := m_start m + interval, m_nxt_end := m_nxt_end m + interval, m_tot_ippkt_len := 0\<rparr>)))
      else Inr (None, m))"

definition count_packet :: "int \<Rightarrow> meter \<Rightarrow> fault + meter" where
  "count_packet len m =
     bindE (add_int (m_tot_ippkt_len m) (len - PACKET_HEADER)) (\<lambda>tot.
     bindE (add_int (m_tot_packet m) 1) (\<lambda>n.
     Inr (m\<lparr>m_tot_ippkt_len := tot, m_tot_packet := n\<rparr>)))"

definition speed_handle_IP :: "int \<Rightarrow> timeval \<Rightarrow> pcap_pkthdr \<Rightarrow> u8 list \<Rightarrow> meter
    \<Rightarrow> fault + dbl line list \<times> meter" where
  "speed_handle_IP interval tv pkthdr packet =
     handle_IP_frame pkthdr packet (Inr ((), [])) (\<lambda>_ len m.
       (let now = now_ms tv in
        bindE (open_window interval now m) (\<lambda>m1.
        bindE (close_window interval now (m1\<lparr>m_last_time := now\<rparr>)) (\<lambda>(out, m2).
        bindE (count_packet len m2) (\<lambda>m3.
        Inr (case out of None \<Rightarrow> [] | Some r \<Rightarrow> [Data r], m3))))))"

definition speed_callback :: "int \<Rightarrow> timeval \<times> pcap_pkthdr \<times> u8 list \<Rightarrow> meter
    \<Rightarrow> fault + dbl line list \<times> meter" where
  "speed_callback interval = (\<lambda>(tv, pkthdr, packet).
     my_callback pkthdr packet m_tot_len (\<lambda>n m. m\<lparr>m_tot_len := n\<rparr>) (speed_handle_IP interval tv pkthdr packet))"

section \<open>The variant that writes to a file\<close>

text \<open>
  \<open>speed2file.cpp\<close> prints the rates to the stream \<open>p\<close>, which is null when \<open>fopen\<close> failed (the code does
  not look), and flushes it. \<open>Data\<close> lines are what is in the file.
\<close>

definition fprintf_rate :: "bool \<Rightarrow> dbl option \<Rightarrow> fault + dbl line list" where
  "fprintf_rate file_open out =
     (case out of None \<Rightarrow> Inr [] | Some r \<Rightarrow> if file_open then Inr [Data r] else Inl NullDeref)"

definition s2f_handle_IP :: "bool \<Rightarrow> int \<Rightarrow> timeval \<Rightarrow> pcap_pkthdr \<Rightarrow> u8 list \<Rightarrow> meter
    \<Rightarrow> fault + dbl line list \<times> meter" where
  "s2f_handle_IP file_open interval tv pkthdr packet =
     handle_IP_frame pkthdr packet (Inr ((), [])) (\<lambda>_ len m.
       (let now = now_ms tv in
        bindE (open_window interval now m) (\<lambda>m1.
        bindE (close_window interval now (m1\<lparr>m_last_time := now\<rparr>)) (\<lambda>(out, m2).
        bindE (fprintf_rate file_open out) (\<lambda>ls.
        bindE (count_packet len m2) (\<lambda>m3.
        Inr (ls, m3)))))))"

definition s2f_callback :: "bool \<Rightarrow> int \<Rightarrow> timeval \<times> pcap_pkthdr \<times> u8 list \<Rightarrow> meter
    \<Rightarrow> fault + dbl line list \<times> meter" where
  "s2f_callback file_open interval = (\<lambda>(tv, pkthdr, packet).
     my_callback pkthdr packet m_tot_len (\<lambda>n m. m\<lparr>m_tot_len := n\<rparr>)
       (s2f_handle_IP file_open interval tv pkthdr packet))"

end
