(* ===== verification/Speed_Props.thy ===== *)
theory Speed_Props
  imports Speed Capture_Props
begin

text \<open>
  \<open>speed\<close> and \<open>speed2file\<close> measure what they mean to: the arrivals of a capture, the windows they open
  and close and the bytes in each window are functions of the capture alone; \<open>meter_means\<close> ties the
  program's counters to them, and the interface \<open>capture_program\<close> carries that over a whole capture.
\<close>

section \<open>The measurement as a function of the capture\<close>

text \<open>Time and length field of the IPv4 packets of a capture.\<close>

type_synonym capture = "(timeval \<times> pcap_pkthdr \<times> u8 list) list"

definition arrivals :: "capture \<Rightarrow> (int \<times> int) list" where
  "arrivals es = List.map_filter (\<lambda>(tv, _, packet). map_option (Pair (now_ms tv)) (ipv4_length packet)) es"

lemma arrivals_simps [simp]:
  "arrivals [] = []"
  "arrivals (es @ [(tv, pkthdr, packet)]) =
     arrivals es @ (case ipv4_length packet of None \<Rightarrow> [] | Some len \<Rightarrow> [(now_ms tv, len)])"
  by (simp_all add: arrivals_def List.map_filter_def split: option.split)

text \<open>
  The start of the current window: the first packet opens one; a packet an interval or more after its
  start moves it by one interval; a packet two intervals or more after it opens a new one there.
\<close>

fun next_start :: "int \<Rightarrow> int option \<Rightarrow> int \<Rightarrow> int" where
  "next_start i None t = t"
| "next_start i (Some s) t = (if t - s \<ge> 2 * i then t else if t \<ge> s + i then s + i else s)"

definition win_start :: "int \<Rightarrow> (int \<times> int) list \<Rightarrow> int option" where
  "win_start i as = foldl (\<lambda>s (t, _). Some (next_start i s t)) None as"

text \<open>The payload bytes of the packets from time \<open>s\<close> on.\<close>

definition bytes_since :: "int \<Rightarrow> (int \<times> int) list \<Rightarrow> int" where
  "bytes_since s as = sum_list (map (\<lambda>(t, len). if s \<le> t then len - 28 else 0) as)"

text \<open>The rate of the window that a packet at time \<open>t\<close> closes, if it closes one, and all closed ones.\<close>

definition closing :: "int \<Rightarrow> (int \<times> int) list \<Rightarrow> int \<Rightarrow> dbl option" where
  "closing i as t =
     (case win_start i as of
        None \<Rightarrow> None
      | Some s \<Rightarrow> if s + i \<le> t \<and> t < s + 2 * i then Some (window_ratio i (bytes_since s as)) else None)"

fun rates_rev :: "int \<Rightarrow> (int \<times> int) list \<Rightarrow> dbl list" where
  "rates_rev i [] = []"
| "rates_rev i (a # as) =
     rates_rev i as @ (case closing i (rev as) (fst a) of None \<Rightarrow> [] | Some r \<Rightarrow> [r])"

definition rates :: "int \<Rightarrow> (int \<times> int) list \<Rightarrow> dbl list" where
  "rates i as = rates_rev i (rev as)"

lemma rates_snoc [simp]:
  "rates i [] = []"
  "rates i (as @ [a]) = rates i as @ (case closing i as (fst a) of None \<Rightarrow> [] | Some r \<Rightarrow> [r])"
  by (simp_all add: rates_def)

text \<open>The queue keeps the last four rates; the estimate is made of them.\<close>

definition recent :: "dbl list \<Rightarrow> dbl list" where
  "recent rs = drop (length rs - QUEUE_SIZE) rs"

definition estimate :: "dbl list \<Rightarrow> dbl" where
  "estimate rs = (case get_ratio (recent rs) of Inl _ \<Rightarrow> NaN | Inr r \<Rightarrow> r)"

lemma recent_push: "push_ratio r (recent rs) = recent (rs @ [r])"
proof (cases "length rs < QUEUE_SIZE")
  case True
  then show ?thesis by (simp add: recent_def push_ratio_def)
next
  case False
  then have "tl (drop (length rs - QUEUE_SIZE) rs) = drop (Suc (length rs) - QUEUE_SIZE) rs"
    by (simp add: Suc_diff_le drop_Suc tl_drop)
  with False show ?thesis by (simp add: recent_def push_ratio_def Suc_diff_le QUEUE_SIZE_def)
qed

lemma get_ratio_recent:
  assumes "NaN \<notin> set rs" and "rs \<noteq> []"
  shows "get_ratio (recent rs) = Inr (estimate rs)"
proof -
  have ne: "recent rs \<noteq> []" using assms(2) by (cases rs) (simp_all add: recent_def QUEUE_SIZE_def)
  have "NaN \<notin> set (recent rs)" using assms(1) by (auto simp: recent_def dest: in_set_dropD)
  with ne obtain r where "get_ratio (recent rs) = Inr r" using get_ratio_ok by blast
  then show ?thesis by (simp add: estimate_def)
qed

lemma window_ratio_not_NaN: "i \<noteq> 0 \<Longrightarrow> \<bar>i\<bar> < 2 ^ 53 \<Longrightarrow> window_ratio i tot \<noteq> NaN"
proof -
  assume i: "i \<noteq> 0" "\<bar>i\<bar> < 2 ^ 53"
  have n: "x \<noteq> NaN \<Longrightarrow> y \<noteq> 0 \<Longrightarrow> dmul x (Fin y) \<noteq> NaN" "x \<noteq> NaN \<Longrightarrow> y \<noteq> 0 \<Longrightarrow> dmul (Fin y) x \<noteq> NaN"
    "x \<noteq> NaN \<Longrightarrow> y \<noteq> 0 \<Longrightarrow> ddiv x (Fin y) \<noteq> NaN" for x y
    by (cases x; simp add: inf_sgn_def)+
  have "of_int_d tot \<noteq> NaN" by (simp add: of_int_d_def)
  with i show ?thesis by (simp add: window_ratio_def n)
qed


section \<open>What the state means\<close>

definition meter_state :: "int \<Rightarrow> (int \<times> int) list \<Rightarrow> meter \<Rightarrow> bool" where
  "meter_state i as m \<longleftrightarrow>
     m_q m = recent (rates i as) \<and> NaN \<notin> set (rates i as) \<and> m_tot_packet m = int (length as) \<and>
     m_tot_ippkt_len m = bytes_since (m_start m) as \<and> \<bar>m_tot_ippkt_len m\<bar> \<le> 65535 * int (length as) \<and>
     (if as = [] then m_start m = - 1
      else win_start i as = Some (m_start m) \<and> m_nxt_end m = m_start m + i \<and> 0 \<le> m_start m \<and>
        m_start m \<le> m_last_time m \<and> m_last_time m < m_nxt_end m \<and> m_last_time m = fst (last as) \<and>
        (\<forall>a \<in> set as. fst a \<le> m_last_time m))"

definition meter_means :: "int \<Rightarrow> capture \<Rightarrow> meter \<Rightarrow> bool" where
  "meter_means i past m \<longleftrightarrow> meter_state i (arrivals past) m"

lemma arrivals_length: "length (arrivals es) \<le> length es"
  by (simp add: arrivals_def List.map_filter_def)

text \<open>
  The side of the environment: frames as \<open>libpcap\<close> delivers them, a clock that does not go back, and
  fewer than 32768 frames, so that no \<open>int\<close> overflows.
\<close>

definition meter_ok :: "int \<Rightarrow> capture \<Rightarrow> timeval \<times> pcap_pkthdr \<times> u8 list \<Rightarrow> bool" where
  "meter_ok i past = (\<lambda>(tv, pkthdr, packet).
     0 < i \<and> 2 * i < 2147483648 \<and> is_frame pkthdr packet \<and> 0 \<le> now_ms tv \<and>
     (\<forall>a \<in> set (arrivals past). fst a \<le> now_ms tv) \<and> length past < 32767)"

definition meter_spec :: "int \<Rightarrow> capture \<Rightarrow> timeval \<times> pcap_pkthdr \<times> u8 list \<Rightarrow> dbl list" where
  "meter_spec i past = (\<lambda>(tv, pkthdr, packet).
     (case ipv4_length packet of
        None \<Rightarrow> []
      | Some _ \<Rightarrow> (case closing i (arrivals past) (now_ms tv) of
                    None \<Rightarrow> []
                  | Some r \<Rightarrow> [estimate (rates i (arrivals past) @ [r])])))"

lemma ipv4_length_bounds:
  assumes "ipv4_length packet = Some len"
  shows "0 \<le> len" and "len \<le> 65535"
proof -
  have "0 \<le> uint (packet ! 16)" "uint (packet ! 16) < 256" "0 \<le> uint (packet ! 17)" "uint (packet ! 17) < 256"
    using uint_lt2p [of "packet ! 16"] uint_lt2p [of "packet ! 17"] by simp_all
  then show "0 \<le> len" and "len \<le> 65535" using assms by (auto simp: ipv4_length_def split: if_splits)
qed

lemma win_start_snoc [simp]:
  "win_start i [] = None"
  "win_start i (as @ [(t, len)]) = Some (next_start i (win_start i as) t)"
  by (simp_all add: win_start_def)

lemma bytes_since_snoc [simp]:
  "bytes_since s [] = 0"
  "bytes_since s (as @ [(t, len)]) = bytes_since s as + (if s \<le> t then len - 28 else 0)"
  by (simp_all add: bytes_since_def)

text \<open>No packet has come yet at a time the window starts after.\<close>

lemma bytes_since_none: "\<forall>a \<in> set as. fst a < s \<Longrightarrow> bytes_since s as = 0"
  by (induction as) (auto simp: bytes_since_def)

text \<open>The part of \<open>speed_handle_IP\<close> behind the checks.\<close>

definition measure_packet :: "int \<Rightarrow> int \<Rightarrow> int \<Rightarrow> meter \<Rightarrow> fault + dbl option \<times> meter" where
  "measure_packet i now len m =
     bindE (open_window i now m) (\<lambda>m1.
     bindE (close_window i now (m1\<lparr>m_last_time := now\<rparr>)) (\<lambda>(out, m2).
     bindE (count_packet len m2) (\<lambda>m3. Inr (out, m3))))"

lemma open_window_eq:
  assumes "0 < i" and "2 * i < 2147483648"
  shows "open_window i now m = Inr
    (if m_start m = - 1 \<or> now - m_start m \<ge> 2 * i
     then m\<lparr>m_start := now, m_nxt_end := now + i,
       m_tot_ippkt_len := (if now - m_start m \<ge> 2 * i \<and> m_start m \<noteq> - 1 then 0 else m_tot_ippkt_len m)\<rparr> else m)"
  using assms by (simp add: open_window_def add_int_def Let_def)

lemma count_packet_eq:
  assumes "\<bar>m_tot_ippkt_len m\<bar> \<le> 65535 * int n" and "n < 32767" and "0 \<le> len" and "len \<le> 65535"
    and "m_tot_packet m = int n"
  shows "count_packet len m =
    Inr (m\<lparr>m_tot_ippkt_len := m_tot_ippkt_len m + (len - 28), m_tot_packet := m_tot_packet m + 1\<rparr>)"
proof -
  have "- 2147319810 \<le> m_tot_ippkt_len m" "m_tot_ippkt_len m \<le> 2147319810" using assms(1,2) by linarith+
  with assms(2-5) show ?thesis by (simp add: count_packet_def add_int_def PACKET_HEADER_def)
qed

lemma measure_packet_state:
  assumes "meter_state i as m" and "0 < i" and "2 * i < 2147483648" and "0 \<le> now"
    and "\<forall>a \<in> set as. fst a \<le> now" and "length as < 32767" and "0 \<le> len" and "len \<le> 65535"
  shows "\<exists>m'. measure_packet i now len m =
      Inr (map_option (\<lambda>r. estimate (rates i as @ [r])) (closing i as now), m') \<and>
    meter_state i (as @ [(now, len)]) m'"
proof -
  from assms(1) have S: "m_q m = recent (rates i as)" "NaN \<notin> set (rates i as)" "m_tot_packet m = int (length as)"
    "m_tot_ippkt_len m = bytes_since (m_start m) as" "\<bar>m_tot_ippkt_len m\<bar> \<le> 65535 * int (length as)"
    unfolding meter_state_def by blast+
  have ratio: "window_ratio i tot \<noteq> NaN" for tot using assms(2,3) by (intro window_ratio_not_NaN) simp_all
  show ?thesis
  proof (cases "as = []")
    case True
    let ?m = "m\<lparr>m_start := now, m_nxt_end := now + i, m_last_time := now, m_tot_ippkt_len := len - 28,
      m_tot_packet := 1\<rparr>"
    have "m_start m = - 1" using assms(1) True by (simp add: meter_state_def)
    then have "measure_packet i now len m = Inr (None, ?m)"
      using True S assms by (simp add: measure_packet_def open_window_eq close_window_def count_packet_eq [where n = 0])
    moreover have c: "closing i as now = None" by (simp add: True closing_def)
    moreover have "meter_state i (as @ [(now, len)]) ?m"
      using True S(1,2) c assms rates_snoc(2) [of i "[]" "(now, len)"]
      by (simp add: meter_state_def bytes_since_def win_start_def abs_le_iff)
    ultimately show ?thesis by auto
  next
    case False
    then have W: "win_start i as = Some (m_start m)" "m_nxt_end m = m_start m + i" "0 \<le> m_start m"
      "\<forall>a \<in> set as. fst a < m_start m + i" "m_start m \<le> m_last_time m" "m_start m \<noteq> - 1"
      using assms(1) by (auto simp: meter_state_def)
    let ?s = "m_start m"
    consider (idle) "2 * i \<le> now - ?s" | (close) "?s + i \<le> now" "now < ?s + 2 * i" | (inside) "now < ?s + i"
      by linarith
    then show ?thesis
    proof cases
      case idle
      let ?m = "m\<lparr>m_start := now, m_nxt_end := now + i, m_last_time := now, m_tot_ippkt_len := len - 28,
        m_tot_packet := m_tot_packet m + 1\<rparr>"
      have "\<forall>a \<in> set as. fst a < now" using W(4) idle assms(2) by fastforce
      then have b: "bytes_since now as = 0" by (rule bytes_since_none)
      have "measure_packet i now len m = Inr (None, ?m)"
        using idle S W assms by (simp add: measure_packet_def open_window_eq close_window_def count_packet_eq [where n = "length as"])
      moreover have c: "closing i as now = None" using idle by (simp add: W(1) closing_def)
      moreover have "meter_state i (as @ [(now, len)]) ?m"
        using S(1-3) W(1) b c idle assms by (simp add: meter_state_def)
      ultimately show ?thesis by auto
    next
      case close
      let ?r = "window_ratio i (bytes_since ?s as)"
      let ?m = "m\<lparr>m_start := ?s + i, m_nxt_end := ?s + i + i, m_last_time := now, m_tot_ippkt_len := len - 28,
        m_q := recent (rates i as @ [?r]), m_tot_packet := m_tot_packet m + 1\<rparr>"
      have b: "bytes_since (?s + i) as = 0" using W(4) by (intro bytes_since_none) simp
      have c: "closing i as now = Some ?r" using close by (simp add: W(1) closing_def)
      have g: "get_ratio (recent (rates i as @ [?r])) = Inr (estimate (rates i as @ [?r]))"
        using S(2) ratio [of "bytes_since ?s as"] by (intro get_ratio_recent) auto
      have "measure_packet i now len m = Inr (Some (estimate (rates i as @ [?r])), ?m)"
        using close S W g assms by (simp add: measure_packet_def open_window_eq close_window_def
            count_packet_eq [where n = "length as"] recent_push S(4) [symmetric])
      moreover have "meter_state i (as @ [(now, len)]) ?m"
        using S(1-3) W b c close assms ratio [of "bytes_since ?s as"] by (auto simp: meter_state_def)
      ultimately show ?thesis using c by auto
    next
      case inside
      let ?m = "m\<lparr>m_last_time := now, m_tot_ippkt_len := m_tot_ippkt_len m + (len - 28),
        m_tot_packet := m_tot_packet m + 1\<rparr>"
      have "?s \<le> now"
      proof -
        have "m_last_time m = fst (last as)" using assms(1) False by (simp add: meter_state_def)
        also have "\<dots> \<le> now" using assms(5) last_in_set [OF False] by blast
        finally show ?thesis using W(5) by simp
      qed
      have "measure_packet i now len m = Inr (None, ?m)"
        using inside S W assms by (simp add: measure_packet_def open_window_eq close_window_def
            count_packet_eq [where n = "length as"])
      moreover have c: "closing i as now = None" using inside by (simp add: W(1) closing_def)
      moreover have "meter_state i (as @ [(now, len)]) ?m"
        using S W c inside assms \<open>?s \<le> now\<close> by (auto simp: meter_state_def)
      ultimately show ?thesis by auto
    qed
  qed
qed


text \<open>The part of \<open>speed_handle_IP\<close> behind the checks is \<open>measure_packet\<close> and the print.\<close>

lemma speed_rest:
  "(let now = now_ms tv in
    bindE (open_window i now m) (\<lambda>m1.
    bindE (close_window i now (m1\<lparr>m_last_time := now\<rparr>)) (\<lambda>(out, m2).
    bindE (count_packet len m2) (\<lambda>m3.
    Inr (case out of None \<Rightarrow> [] | Some r \<Rightarrow> [Data r], m3))))) =
   bindE (measure_packet i (now_ms tv) len m) (\<lambda>(out, m'). Inr (map Data (case out of None \<Rightarrow> [] | Some r \<Rightarrow> [r]), m'))"
  unfolding measure_packet_def Let_def by (auto simp: bindE_def split: sum.split option.split)

lemma meter_state_tot_len [simp]: "meter_state i as (m\<lparr>m_tot_len := n\<rparr>) \<longleftrightarrow> meter_state i as m"
  by (simp add: meter_state_def)

text \<open>One frame: it is not IPv4 and only \<open>tot_len\<close> changes, or \<open>measure_packet\<close> runs.\<close>

lemma meter_frame:
  assumes "meter_means i past m" and "meter_ok i past (tv, pkthdr, packet)"
  obtains (other) s1 where
    "\<And>rest :: unit \<Rightarrow> int \<Rightarrow> meter \<Rightarrow> fault + dbl line list \<times> meter. \<exists>nts.
       my_callback pkthdr packet m_tot_len (\<lambda>n m. m\<lparr>m_tot_len := n\<rparr>)
         (handle_IP_frame pkthdr packet (Inr ((), [])) rest) m = Inr (map Note nts, s1)"
    "meter_spec i past (tv, pkthdr, packet) = []" "meter_means i (past @ [(tv, pkthdr, packet)]) s1"
  | (ipv4) len s1 out m' where
    "\<And>rest :: unit \<Rightarrow> int \<Rightarrow> meter \<Rightarrow> fault + dbl line list \<times> meter. \<exists>nts.
       my_callback pkthdr packet m_tot_len (\<lambda>n m. m\<lparr>m_tot_len := n\<rparr>)
         (handle_IP_frame pkthdr packet (Inr ((), [])) rest) m =
       bindE (rest () len s1) (\<lambda>(ls, s'). Inr (map Note nts @ ls, s'))"
    "measure_packet i (now_ms tv) len s1 = Inr (out, m')"
    "meter_spec i past (tv, pkthdr, packet) = (case out of None \<Rightarrow> [] | Some r \<Rightarrow> [r])"
    "meter_means i (past @ [(tv, pkthdr, packet)]) m'"
proof -
  from assms(2) have i: "0 < i" "2 * i < 2147483648" and frame: "is_frame pkthdr packet"
    and now: "0 \<le> now_ms tv" "\<forall>a \<in> set (arrivals past). fst a \<le> now_ms tv" and l: "length past < 32767"
    by (auto simp: meter_ok_def)
  define s1 where "s1 = m\<lparr>m_tot_len := c_int (m_tot_len m + uint (pkt_length pkthdr))\<rparr>"
  have st: "meter_state i (arrivals past) s1" using assms(1) by (simp add: s1_def meter_means_def)
  note F = my_callback_frame [where mid = "Inr ((), [])" and get_tl = m_tot_len and set_tl = "\<lambda>n m. m\<lparr>m_tot_len := n\<rparr>" and s = m,
      OF refl s1_def frame]
  show ?thesis
  proof (cases "ipv4_length packet")
    case None
    show ?thesis
    proof (rule other [of s1])
      fix rest :: "unit \<Rightarrow> int \<Rightarrow> meter \<Rightarrow> fault + dbl line list \<times> meter"
      show "\<exists>nts. my_callback pkthdr packet m_tot_len (\<lambda>n m. m\<lparr>m_tot_len := n\<rparr>)
         (handle_IP_frame pkthdr packet (Inr ((), [])) rest) m = Inr (map Note nts, s1)"
        using F(1) F(3) [OF _ refl None] by fastforce
    qed (use None st in \<open>simp_all add: meter_spec_def meter_means_def\<close>)
  next
    case (Some len)
    then have ip: "ip_frame packet" by (auto simp: ipv4_length_def split: if_splits)
    have "length (arrivals past) < 32767" using arrivals_length [of past] l by linarith
    from measure_packet_state [OF st i now this ipv4_length_bounds [OF Some]] obtain m' where
      mp: "measure_packet i (now_ms tv) len s1 = Inr (map_option (\<lambda>r. estimate (rates i (arrivals past) @ [r]))
        (closing i (arrivals past) (now_ms tv)), m')"
      and st': "meter_state i (arrivals past @ [(now_ms tv, len)]) m'" by blast
    show ?thesis
    proof (rule ipv4 [OF _ mp])
      show "\<exists>nts. my_callback pkthdr packet m_tot_len (\<lambda>n m. m\<lparr>m_tot_len := n\<rparr>)
         (handle_IP_frame pkthdr packet (Inr ((), [])) rest) m =
         bindE (rest () len s1) (\<lambda>(ls, s'). Inr (map Note nts @ ls, s'))"
        for rest :: "unit \<Rightarrow> int \<Rightarrow> meter \<Rightarrow> fault + dbl line list \<times> meter"
        using F(4) [OF ip refl Some] by simp
    qed (use Some st' in \<open>simp_all add: meter_spec_def meter_means_def split: option.split\<close>)
  qed
qed

lemma speed_callback_means:
  assumes "meter_means i past m" and "meter_ok i past e"
  shows "\<exists>ls m'. speed_callback i e m = Inr (ls, m') \<and> data_of ls = meter_spec i past e \<and>
    meter_means i (past @ [e]) m'"
proof -
  obtain tv pkthdr packet where e: "e = (tv, pkthdr, packet)" by (rule prod_cases3)
  from assms(1) assms(2) [unfolded e] show ?thesis
  proof (cases rule: meter_frame)
    case (other s1)
    then show ?thesis unfolding speed_callback_def e prod.case speed_handle_IP_def by fastforce
  next
    case (ipv4 len s1 out m')
    from ipv4(1) [of "\<lambda>_ len m. bindE (measure_packet i (now_ms tv) len m)
        (\<lambda>(out, m'). Inr (map Data (case out of None \<Rightarrow> [] | Some r \<Rightarrow> [r]), m'))"] ipv4(2) obtain nts where
      "speed_callback i e m = Inr (map Note nts @ map Data (case out of None \<Rightarrow> [] | Some r \<Rightarrow> [r]), m')"
      unfolding speed_callback_def e prod.case speed_handle_IP_def speed_rest by auto
    with ipv4(3,4) show ?thesis unfolding e by simp
  qed
qed

interpretation speed: capture_program "speed_callback i" "meter_means i" "meter_ok i" "meter_spec i" for i
  by unfold_locales (rule speed_callback_means)

lemma meter_init_means: "meter_means i [] meter_init"
  by (simp add: meter_means_def meter_state_def meter_init_def recent_def)

section \<open>The variant that writes to a file\<close>

lemma s2f_rest:
  assumes "measure_packet i (now_ms tv) len m = Inr (out, m')"
  shows "(let now = now_ms tv in
    bindE (open_window i now m) (\<lambda>m1.
    bindE (close_window i now (m1\<lparr>m_last_time := now\<rparr>)) (\<lambda>(out, m2).
    bindE (fprintf_rate f out) (\<lambda>ls.
    bindE (count_packet len m2) (\<lambda>m3.
    Inr (ls, m3)))))) =
   (if f \<or> out = None then Inr (map Data (case out of None \<Rightarrow> [] | Some r \<Rightarrow> [r]), m') else Inl NullDeref)"
  using assms unfolding measure_packet_def Let_def
  by (auto simp: bindE_def fprintf_rate_def split: sum.splits option.splits)

lemma s2f_callback_means:
  assumes "meter_means i past m" and "meter_ok i past e"
  shows "if f \<or> meter_spec i past e = []
    then \<exists>ls m'. s2f_callback f i e m = Inr (ls, m') \<and> data_of ls = meter_spec i past e \<and> meter_means i (past @ [e]) m'
    else s2f_callback f i e m = Inl NullDeref"
proof -
  obtain tv pkthdr packet where e: "e = (tv, pkthdr, packet)" by (rule prod_cases3)
  from assms(1) assms(2) [unfolded e] show ?thesis
  proof (cases rule: meter_frame)
    case (other s1)
    then show ?thesis unfolding s2f_callback_def e prod.case s2f_handle_IP_def by fastforce
  next
    case (ipv4 len s1 out m')
    from ipv4(1) [of "\<lambda>_ len m. (let now = now_ms tv in
        bindE (open_window i now m) (\<lambda>m1.
        bindE (close_window i now (m1\<lparr>m_last_time := now\<rparr>)) (\<lambda>(out, m2).
        bindE (fprintf_rate f out) (\<lambda>ls.
        bindE (count_packet len m2) (\<lambda>m3.
        Inr (ls, m3))))))", unfolded s2f_rest [OF ipv4(2)]] obtain nts where
      "s2f_callback f i e m = bindE (if f \<or> out = None
         then Inr (map Data (case out of None \<Rightarrow> [] | Some r \<Rightarrow> [r]), m') else Inl NullDeref)
       (\<lambda>(ls, s'). Inr (map Note nts @ ls, s'))"
      unfolding s2f_callback_def e prod.case s2f_handle_IP_def by blast
    with ipv4(3,4) show ?thesis unfolding e by (cases out) auto
  qed
qed

interpretation s2f: capture_program "s2f_callback True i" "meter_means i" "meter_ok i" "meter_spec i" for i
  by unfold_locales (use s2f_callback_means [where f = True] in simp)

lemma s2f_loop_closed:
  assumes "meter_means i past m" and "run_ok (meter_ok i) past es"
  shows "pcap_loop (s2f_callback False i) es m = Inl NullDeref \<longleftrightarrow> spec_run (meter_spec i) past es \<noteq> []"
  using assms
proof (induction es arbitrary: past m)
  case Nil
  then show ?case by simp
next
  case (Cons e es)
  from Cons.prems have ok: "meter_ok i past e" and rest: "run_ok (meter_ok i) (past @ [e]) es" by simp_all
  show ?case
  proof (cases "meter_spec i past e = []")
    case True
    then obtain ls m' where st: "s2f_callback False i e m = Inr (ls, m')" "meter_means i (past @ [e]) m'"
      using s2f_callback_means [OF Cons.prems(1) ok, of False] by auto
    from Cons.IH [OF st(2) rest] True st(1) show ?thesis
      by (cases "pcap_loop (s2f_callback False i) es m'") auto
  next
    case False
    then show ?thesis using s2f_callback_means [OF Cons.prems(1) ok, of False] by simp
  qed
qed

section \<open>An example\<close>

text \<open>A frame of 64 bytes: IPv4 with the length field 1028.\<close>

definition ex_frame :: "u8 list" where
  "ex_frame = replicate 12 0 @ [8, 0, 0x45, 0, 4, 4] @ replicate 46 0"

definition ex_hdr :: pcap_pkthdr where
  "ex_hdr = \<lparr>caplen = 64, pkt_length = 64\<rparr>"

lemma ex_frame_facts:
  "is_frame ex_hdr ex_frame" "ipv4_length ex_frame = Some 1028" "ip_frame ex_frame"
proof -
  have l: "length ex_frame = 64" by (simp add: ex_frame_def)
  then show "is_frame ex_hdr ex_frame" by (simp add: is_frame_def ex_hdr_def)
  have n: "ex_frame ! 12 = 8" "ex_frame ! 13 = 0" "ex_frame ! 14 = 0x45" "ex_frame ! 16 = 4" "ex_frame ! 17 = 4"
    unfolding ex_frame_def by (simp_all add: nth_append)
  then show ip: "ip_frame ex_frame" using l by (simp add: ip_frame_def)
  have "drop_bit 4 (0x45 :: u8) = 4" by (simp add: drop_bit_eq_div)
  then show "ipv4_length ex_frame = Some 1028" using ip by (simp add: ipv4_length_def n)
qed

definition ex_event :: "int \<Rightarrow> timeval \<times> pcap_pkthdr \<times> u8 list" where
  "ex_event sec = (\<lparr>tv_sec = sec, tv_usec = 0\<rparr>, ex_hdr, ex_frame)"

lemma ex_events:
  "arrivals (past @ [ex_event n]) = arrivals past @ [(n * 1000, 1028)]"
  "arrivals [ex_event n] = [(n * 1000, 1028)]"
  "meter_ok 1000 past (ex_event n) \<longleftrightarrow> 0 \<le> n \<and> (\<forall>a \<in> set (arrivals past). fst a \<le> n * 1000) \<and> length past < 32767"
  using arrivals_simps(2) [of past "\<lparr>tv_sec = n, tv_usec = 0\<rparr>" ex_hdr ex_frame]
    arrivals_simps(2) [of "[]" "\<lparr>tv_sec = n, tv_usec = 0\<rparr>" ex_hdr ex_frame]
  by (simp_all add: ex_event_def ex_frame_facts now_ms_def meter_ok_def)

lemma ex_speed_spec:
  "spec_run (meter_spec 1000) [] [ex_event 5, ex_event 6] = [estimate [window_ratio 1000 1000]]"
proof -
  have c: "closing 1000 [(5000, 1028)] 6000 = Some (window_ratio 1000 1000)"
    by (simp add: closing_def win_start_def bytes_since_def)
  have e: "rates 1000 [(5000, 1028)] = []"
    using rates_snoc(2) [of 1000 "[]" "(5000, 1028)"] by (simp add: closing_def win_start_def)
  show ?thesis using c e ex_events(2) [of 5]
    by (simp add: meter_spec_def ex_event_def ex_frame_facts now_ms_def closing_def win_start_def)
qed

section \<open>Properties\<close>

text \<open>
  What \<open>speed\<close> prints is the measurement it means. For every capture (malformed and non-IP frames
  included) under a clock that does not go back, with fewer than 32768 frames and a positive interval
  below \<open>2^30\<close>, the program never faults and the rates it prints are exactly, for each packet that
  closes a window, the estimate over the last four window rates, each computed from the payload bytes of
  the packets that arrived since that window's start; and its state afterwards means the same.
\<close>

theorem speed_measures:
  assumes "run_ok (meter_ok i) [] es"
  shows "\<exists>ls m. pcap_loop (speed_callback i) es meter_init = Inr (ls, m) \<and>
    data_of ls = spec_run (meter_spec i) [] es \<and> meter_means i es m"
  using speed.loop_means [OF meter_init_means assms] by simp

theorem speed_measures_witness:
  "\<exists>ls m. pcap_loop (speed_callback 1000) [ex_event 5, ex_event 6] meter_init = Inr (ls, m) \<and>
     data_of ls = [estimate [window_ratio 1000 1000]] \<and> m_tot_ippkt_len m = 1000"
proof -
  have "run_ok (meter_ok 1000) [] [ex_event 5, ex_event 6]" by (simp add: ex_events)
  from speed_measures [OF this] obtain ls m where
    r: "pcap_loop (speed_callback 1000) [ex_event 5, ex_event 6] meter_init = Inr (ls, m)"
      "data_of ls = spec_run (meter_spec 1000) [] [ex_event 5, ex_event 6]"
      "meter_means 1000 [ex_event 5, ex_event 6] m" by blast
  have a: "arrivals [ex_event 5, ex_event 6] = [(5000, 1028), (6000, 1028)]"
    using ex_events(1) [of "[ex_event 5]" 6] ex_events(2) [of 5] by simp
  have "m_tot_ippkt_len m = 1000"
    using r(3) by (simp add: meter_means_def meter_state_def a win_start_def bytes_since_def)
  with r ex_speed_spec show ?thesis by metis
qed

text \<open>
  A pause loses the bytes before it. When the next packet comes two intervals or more after the
  start of the window, nothing is printed for that window: its bytes are thrown away, the new window
  starts with this packet, and the queue of rates gets no entry for the pause.
\<close>

theorem speed_pause_loses_bytes:
  assumes "meter_means i past m" and "meter_ok i past (tv, pkthdr, packet)" and "ipv4_length packet = Some len"
    and "win_start i (arrivals past) = Some s" and "s + 2 * i \<le> now_ms tv"
  shows "\<exists>ls m'. speed_callback i (tv, pkthdr, packet) m = Inr (ls, m') \<and> data_of ls = [] \<and>
    m_tot_ippkt_len m' = len - 28 \<and> m_q m' = m_q m \<and> m_start m' = now_ms tv"
proof -
  let ?as = "arrivals past"
  from speed_callback_means [OF assms(1,2)] obtain ls m' where
    r: "speed_callback i (tv, pkthdr, packet) m = Inr (ls, m')" "data_of ls = meter_spec i past (tv, pkthdr, packet)"
      "meter_means i (past @ [(tv, pkthdr, packet)]) m'" by blast
  have c: "closing i ?as (now_ms tv) = None" using assms(4,5) by (simp add: closing_def)
  have st: "meter_state i (?as @ [(now_ms tv, len)]) m'" using r(3) assms(3) by (simp add: meter_means_def)
  have ne: "?as \<noteq> []" using assms(4) by (auto simp: win_start_def)
  have i: "0 < i" using assms(2) by (simp add: meter_ok_def)
  have "\<forall>a \<in> set ?as. fst a < s + i" using assms(1,4) ne by (auto simp: meter_means_def meter_state_def)
  then have "\<forall>a \<in> set ?as. fst a < now_ms tv" using assms(5) i by fastforce
  then have b: "bytes_since (now_ms tv) ?as = 0" by (rule bytes_since_none)
  have s': "m_start m' = now_ms tv" using st assms(4,5) by (simp add: meter_state_def)
  with st b c assms(1) have "m_tot_ippkt_len m' = len - 28" "m_q m' = m_q m"
    by (simp_all add: meter_state_def meter_means_def)
  moreover have "data_of ls = []" using r(2) c assms(3) by (simp add: meter_spec_def)
  ultimately show ?thesis using r(1) s' by blast
qed

theorem speed_pause_loses_bytes_witness:
  "\<exists>ls0 m ls m'. pcap_loop (speed_callback 1000) [ex_event 5] meter_init = Inr (ls0, m) \<and> m_tot_ippkt_len m = 1000 \<and>
     speed_callback 1000 (ex_event 7) m = Inr (ls, m') \<and> data_of ls = [] \<and> m_tot_ippkt_len m' = 1000 \<and> m_q m' = []"
proof -
  have "run_ok (meter_ok 1000) [] [ex_event 5]" by (simp add: ex_events)
  from speed.loop_means [OF meter_init_means this] obtain ls0 m where
    l: "pcap_loop (speed_callback 1000) [ex_event 5] meter_init = Inr (ls0, m)" and m: "meter_means 1000 [ex_event 5] m"
    by auto
  have "m_tot_ippkt_len m = 1000" "m_q m = []"
    using m rates_snoc(2) [of 1000 "[]" "(5000, 1028)"]
    by (simp_all add: meter_means_def meter_state_def ex_events win_start_def bytes_since_def closing_def recent_def)
  moreover have "win_start 1000 (arrivals [ex_event 5]) = Some 5000" by (simp add: ex_events win_start_def)
  moreover have "meter_ok 1000 [ex_event 5] (ex_event 7)" by (simp add: ex_events)
  ultimately show ?thesis
    using l speed_pause_loses_bytes [OF m, where len = 1028 and s = 5000] unfolding ex_event_def
    by (fastforce simp: ex_frame_facts now_ms_def)
qed

end
