(* ===== verification/Nstream.thy ===== *)
theory Nstream
  imports Speed
begin

text \<open>
  \<open>src/MeasureRate/nstream.cpp\<close>, the rate of each stream (a pair of ports), and \<open>count_burst.cpp\<close>, the
  bytes of all streams together. The packets only count; a timer closes the windows of all streams. Here
  the handlers run to the end before the next event; the theory \<open>Burst_Race\<close> has the timer signal in the
  middle of a packet handler.
\<close>

section \<open>State\<close>

type_synonym ports = "u16 \<times> u16"

text \<open>
  The globals. The arrays have \<open>qn\<close> = 65536 cells, and \<open>cell\<close> checks an index; \<open>n_mp\<close> is the
  \<open>std::map\<close>, whose missing entries read 0.
\<close>

record streams =
  n_tot_len :: int
  n_tot_packet :: int
  n_mp :: "ports \<rightharpoonup> int"
  n_stream_id :: int
  n_tot_ippkt_len :: "nat \<Rightarrow> int"
  n_q :: "nat \<Rightarrow> dbl list"
  n_start :: "nat \<Rightarrow> dbl"
  n_nxt :: "nat \<Rightarrow> dbl"

definition streams_init :: streams where
  "streams_init = \<lparr>n_tot_len = 0, n_tot_packet = 0, n_mp = Map.empty, n_stream_id = 0,
     n_tot_ippkt_len = (\<lambda>_. 0), n_q = (\<lambda>_. []), n_start = (\<lambda>_. Fin (- 1)), n_nxt = (\<lambda>_. Fin (- 1))\<rparr>"

definition qn :: int where "qn = 65536"

definition cell :: "int \<Rightarrow> fault + nat" where
  "cell i = (if 0 \<le> i \<and> i < qn then Inr (nat i) else Inl OutOfBounds)"

definition mp_get :: "ports \<Rightarrow> streams \<Rightarrow> int" where
  "mp_get k st = (case n_mp st k of None \<Rightarrow> 0 | Some n \<Rightarrow> n)"

section \<open>The timer handler\<close>

text \<open>The body of the loop of \<open>test_func\<close>: the smoothed rate of one stream, whose window is closed.\<close>

definition roll_stream :: "int \<Rightarrow> int \<Rightarrow> streams \<Rightarrow> fault + dbl \<times> streams" where
  "roll_stream interval now_id st =
     bindE (cell now_id) (\<lambda>k.
     (let q = push_ratio (window_ratio interval (n_tot_ippkt_len st k)) (n_q st k) in
      bindE (get_ratio q) (\<lambda>smooth_ratio.
      Inr (smooth_ratio,
        st\<lparr>n_q := (n_q st)(k := q),
           n_start := (n_start st)(k := dadd (n_start st k) (of_int_d interval)),
           n_nxt := (n_nxt st)(k := dadd (n_nxt st k) (of_int_d interval)),
           n_tot_ippkt_len := (n_tot_ippkt_len st)(k := 0)\<rparr>))))"

fun test_func_loop :: "int \<Rightarrow> int list \<Rightarrow> streams \<Rightarrow> fault + (int \<times> dbl) list \<times> streams" where
  "test_func_loop interval [] st = Inr ([], st)"
| "test_func_loop interval (now_id # ids) st =
     bindE (roll_stream interval now_id st) (\<lambda>(r, st1).
     bindE (test_func_loop interval ids st1) (\<lambda>(out, st2).
     Inr ((now_id, r) # out, st2)))"

definition nstream_test_func :: "int \<Rightarrow> streams \<Rightarrow> fault + (int \<times> dbl) line list \<times> streams" where
  "nstream_test_func interval st =
     bindE (test_func_loop interval [1 .. n_stream_id st] st) (\<lambda>(out, st'). Inr (map Data out, st'))"

text \<open>\<open>count_burst\<close> adds up the bytes of the streams, closes their windows and prints only the sum.\<close>

fun burst_loop :: "int \<Rightarrow> int list \<Rightarrow> int \<Rightarrow> streams \<Rightarrow> fault + int \<times> streams" where
  "burst_loop interval [] tot_byte st = Inr (tot_byte, st)"
| "burst_loop interval (now_id # ids) tot_byte st =
     bindE (cell now_id) (\<lambda>k.
     bindE (add_int tot_byte (n_tot_ippkt_len st k)) (\<lambda>tot_byte'.
     bindE (roll_stream interval now_id st) (\<lambda>(_, st1).
     burst_loop interval ids tot_byte' st1)))"

definition burst_test_func :: "int \<Rightarrow> streams \<Rightarrow> fault + int line list \<times> streams" where
  "burst_test_func interval st =
     bindE (burst_loop interval [1 .. n_stream_id st] 0 st) (\<lambda>(tot_byte, st'). Inr ([Data tot_byte], st'))"

text \<open>\<open>init_time\<close>: seconds and microseconds of the timer's period.\<close>

definition nstream_init_time :: "int \<Rightarrow> int \<times> int" where
  "nstream_init_time interval = (interval sdiv 1000, (interval smod 1000) * 1000)"

definition burst_init_time :: "int \<Rightarrow> int \<times> int" where
  "burst_init_time interval = (interval sdiv 1000, interval smod 1000)"

section \<open>The packet handler\<close>

text \<open>
  Before the checks both programs write the two addresses into a buffer they never print and read the
  ports behind an IP header without options.
\<close>

definition read_ports :: "u8 list \<Rightarrow> fault + ports \<times> 'o line list" where
  "read_ports packet =
     bindE (load32 packet 26) (\<lambda>src.
     bindE (toStringIP src) (\<lambda>_.
     bindE (load32 packet 30) (\<lambda>dst.
     bindE (toStringIP dst) (\<lambda>_.
     bindE (load16 packet 34) (\<lambda>sp.
     bindE (load16 packet 36) (\<lambda>dstp.
     Inr ((big2small sp, big2small dstp), [])))))))"

definition stream_of :: "ports \<Rightarrow> streams \<Rightarrow> fault + int \<times> streams" where
  "stream_of k st =
     bindE (if mp_get k st = 0
            then bindE (add_int (n_stream_id st) 1) (\<lambda>n. Inr (st\<lparr>n_stream_id := n, n_mp := (n_mp st)(k \<mapsto> n)\<rparr>))
            else Inr st) (\<lambda>st1.
     Inr (mp_get k st1, st1))"

definition count_bytes :: "int \<Rightarrow> int \<Rightarrow> streams \<Rightarrow> fault + streams" where
  "count_bytes now_id n st =
     bindE (cell now_id) (\<lambda>k.
     bindE (add_int (n_tot_ippkt_len st k) n) (\<lambda>tot.
     bindE (add_int (n_tot_packet st) 1) (\<lambda>p.
     Inr (st\<lparr>n_tot_ippkt_len := (n_tot_ippkt_len st)(k := tot), n_tot_packet := p\<rparr>))))"

definition nstream_handle_IP :: "pcap_pkthdr \<Rightarrow> u8 list \<Rightarrow> streams \<Rightarrow> fault + 'o line list \<times> streams" where
  "nstream_handle_IP pkthdr packet =
     handle_IP_frame pkthdr packet (read_ports packet) (\<lambda>k len st.
       bindE (stream_of k st) (\<lambda>(now_id, st1).
       bindE (count_bytes now_id (len - PACKET_HEADER) st1) (\<lambda>st2.
       Inr ([], st2))))"

definition burst_handle_IP :: "pcap_pkthdr \<Rightarrow> u8 list \<Rightarrow> streams \<Rightarrow> fault + 'o line list \<times> streams" where
  "burst_handle_IP pkthdr packet =
     handle_IP_frame pkthdr packet (read_ports packet) (\<lambda>k len st.
       bindE (stream_of k st) (\<lambda>(now_id, st1).
       bindE (count_bytes now_id len st1) (\<lambda>st2.
       Inr ([], st2))))"

section \<open>Events\<close>

datatype event = Packet pcap_pkthdr "u8 list" | Expiry

definition nstream_callback :: "pcap_pkthdr \<Rightarrow> u8 list \<Rightarrow> streams \<Rightarrow> fault + 'o line list \<times> streams" where
  "nstream_callback pkthdr packet =
     my_callback pkthdr packet n_tot_len (\<lambda>n st. st\<lparr>n_tot_len := n\<rparr>) (nstream_handle_IP pkthdr packet)"

definition burst_callback :: "pcap_pkthdr \<Rightarrow> u8 list \<Rightarrow> streams \<Rightarrow> fault + 'o line list \<times> streams" where
  "burst_callback pkthdr packet =
     my_callback pkthdr packet n_tot_len (\<lambda>n st. st\<lparr>n_tot_len := n\<rparr>) (burst_handle_IP pkthdr packet)"

fun nstream_event :: "int \<Rightarrow> event \<Rightarrow> streams \<Rightarrow> fault + (int \<times> dbl) line list \<times> streams" where
  "nstream_event interval (Packet pkthdr packet) st = nstream_callback pkthdr packet st"
| "nstream_event interval Expiry st = nstream_test_func interval st"

fun burst_event :: "int \<Rightarrow> event \<Rightarrow> streams \<Rightarrow> fault + int line list \<times> streams" where
  "burst_event interval (Packet pkthdr packet) st = burst_callback pkthdr packet st"
| "burst_event interval Expiry st = burst_test_func interval st"

end
