(* ===== verification/Nstream_Props.thy ===== *)
theory Nstream_Props
  imports Nstream Numbers Speed_Props
begin

text \<open>
  \<open>nstream\<close> and \<open>count_burst\<close> keep their accounts: the table of streams refines functions of the history
  of frames and timer expiries, and both programs are instances of the interface \<open>capture_program\<close>. The
  bytes of a packet count from \<open>h\<close> bytes of header on: 28 in \<open>nstream\<close>, none in \<open>count_burst\<close>.
\<close>

section \<open>The streams of a capture\<close>

text \<open>The ports (most significant byte first) and the length field of an IPv4 packet.\<close>

definition stream_len :: "u8 list \<Rightarrow> (ports \<times> int) option" where
  "stream_len packet = map_option (Pair (word_cat (packet ! 34) (packet ! 35), word_cat (packet ! 36) (packet ! 37)))
     (ipv4_length packet)"

text \<open>
  Functions of a history of events, latest first: the streams in the order of their first packet, the
  bytes of a stream (without \<open>h\<close> bytes of header for each packet) since the last expiry, the window
  rates of a stream, the bytes of all streams since the last expiry.
\<close>

fun known_rev :: "event list \<Rightarrow> ports list" where
  "known_rev [] = []"
| "known_rev (Expiry # es) = known_rev es"
| "known_rev (Packet _ packet # es) =
     (case stream_len packet of
        None \<Rightarrow> known_rev es
      | Some (k, _) \<Rightarrow> if k \<in> set (known_rev es) then known_rev es else known_rev es @ [k])"

fun pending_rev :: "int \<Rightarrow> ports \<Rightarrow> event list \<Rightarrow> int" where
  "pending_rev h k [] = 0"
| "pending_rev h k (Expiry # es) = 0"
| "pending_rev h k (Packet _ packet # es) =
     pending_rev h k es + (case stream_len packet of None \<Rightarrow> 0 | Some (k', len) \<Rightarrow> if k = k' then len - h else 0)"

fun stream_rates_rev :: "int \<Rightarrow> int \<Rightarrow> ports \<Rightarrow> event list \<Rightarrow> dbl list" where
  "stream_rates_rev h i k [] = []"
| "stream_rates_rev h i k (Expiry # es) =
     stream_rates_rev h i k es @ (if k \<in> set (known_rev es) then [window_ratio i (pending_rev h k es)] else [])"
| "stream_rates_rev h i k (Packet _ _ # es) = stream_rates_rev h i k es"

fun burst_rev :: "event list \<Rightarrow> int" where
  "burst_rev [] = 0"
| "burst_rev (Expiry # es) = 0"
| "burst_rev (Packet _ packet # es) = burst_rev es + (case stream_len packet of None \<Rightarrow> 0 | Some (_, len) \<Rightarrow> len)"

lemma event_induct [case_names Nil Expiry Packet]:
  assumes "P []" and "\<And>es. P es \<Longrightarrow> P (Expiry # es)" and "\<And>hdr packet es. P es \<Longrightarrow> P (Packet hdr packet # es)"
  shows "P es"
proof (induction es)
  case (Cons e es)
  then show ?case using assms(2,3) by (cases e) auto
qed (rule assms(1))

lemma known_rev_distinct: "distinct (known_rev es)"
  by (induction es rule: event_induct) (auto split: option.split)

lemma known_rev_length: "length (known_rev es) \<le> length es"
  by (induction es rule: event_induct) (auto split: option.split)

lemma pending_unknown: "k \<notin> set (known_rev es) \<Longrightarrow> pending_rev h k es = 0 \<and> stream_rates_rev h i k es = []"
  by (induction es rule: event_induct) (auto split: option.splits if_splits)

lemma stream_len_bounds: "stream_len packet = Some (k, len) \<Longrightarrow> 0 \<le> len \<and> len \<le> 65535"
  using ipv4_length_bounds by (auto simp: stream_len_def)

lemma pending_bound: "0 \<le> h \<Longrightarrow> h \<le> 28 \<Longrightarrow> \<bar>pending_rev h k es\<bar> \<le> 65535 * int (length es)"
proof (induction es rule: event_induct)
  case (Packet hdr packet es)
  have b: "- 65535 \<le> len - h \<and> len - h \<le> 65535" if "stream_len packet = Some (k', len)" for k' len
    using stream_len_bounds [OF that] Packet by linarith
  from Packet show ?case by (auto simp: abs_le_iff dest: b split: option.split)
qed simp_all

text \<open>The bytes of all streams are the sum over the known ones.\<close>

lemma burst_sum: "burst_rev es = (\<Sum>k \<leftarrow> known_rev es. pending_rev 0 k es)"
proof (induction es rule: event_induct)
  case (Packet hdr packet es)
  show ?case
  proof (cases "stream_len packet")
    case (Some v)
    then obtain k len where s: "stream_len packet = Some (k, len)" by (cases v) auto
    have add: "(\<Sum>k' \<leftarrow> ks. pending_rev 0 k' es + (if k' = k then len else 0)) =
        (\<Sum>k' \<leftarrow> ks. pending_rev 0 k' es) + (if k \<in> set ks then len else 0)" if "distinct ks" for ks
      using that by (induction ks) auto
    have "(\<Sum>k' \<leftarrow> known_rev (Packet hdr packet # es). pending_rev 0 k' (Packet hdr packet # es)) =
        (\<Sum>k' \<leftarrow> known_rev es. pending_rev 0 k' es + (if k' = k then len else 0)) + (if k \<in> set (known_rev es) then 0 else len)"
      using s pending_unknown [of k es 0] by (simp add: if_distrib cong: if_cong)
    then show ?thesis using Packet s add [OF known_rev_distinct] by simp
  qed (use Packet in simp)
qed simp_all


section \<open>The table of streams\<close>

text \<open>
  The state as a table over the streams \<open>ks\<close>: stream \<open>ks ! j\<close> has the number \<open>j + 1\<close>, its cell holds
  \<open>tot\<close> bytes and the recent ones of its rates; every cell beyond is fresh.
\<close>

definition stream_table :: "ports list \<Rightarrow> (ports \<Rightarrow> int) \<Rightarrow> (ports \<Rightarrow> dbl list) \<Rightarrow> streams \<Rightarrow> bool" where
  "stream_table ks tot rs st \<longleftrightarrow>
     distinct ks \<and> length ks < 32768 \<and> n_stream_id st = int (length ks) \<and>
     (\<forall>j < length ks. n_mp st (ks ! j) = Some (int j + 1) \<and> n_tot_ippkt_len st (Suc j) = tot (ks ! j) \<and>
        n_q st (Suc j) = recent (rs (ks ! j))) \<and>
     (\<forall>k. k \<notin> set ks \<longrightarrow> n_mp st k = None) \<and>
     (\<forall>j > length ks. n_tot_ippkt_len st j = 0 \<and> n_q st j = [])"

lemma cell_Suc: "j < 32768 \<Longrightarrow> cell (int j + 1) = Inr (Suc j)"
  by (simp add: cell_def qn_def nat_add_distrib)

lemma stream_of_table:
  assumes "stream_table ks tot rs st" and "length ks < 32767" and "k \<notin> set ks \<Longrightarrow> tot k = 0 \<and> rs k = []"
    and "ks' = (if k \<in> set ks then ks else ks @ [k])"
  shows "\<exists>j st1. stream_of k st = Inr (int j + 1, st1) \<and> j < length ks' \<and> ks' ! j = k \<and>
    stream_table ks' tot rs st1 \<and> n_tot_packet st1 = n_tot_packet st"
proof (cases "k \<in> set ks")
  case True
  then obtain j where j: "j < length ks" "ks ! j = k" by (auto simp: in_set_conv_nth)
  with assms(1) have "n_mp st k = Some (int j + 1)" by (auto simp: stream_table_def)
  then have "stream_of k st = Inr (int j + 1, st)" by (simp add: stream_of_def mp_get_def)
  with True j assms(1,4) show ?thesis by auto
next
  case False
  let ?st = "st\<lparr>n_stream_id := int (length ks) + 1, n_mp := (n_mp st)(k \<mapsto> int (length ks) + 1)\<rparr>"
  from False assms(1) have m: "n_mp st k = None" and n: "n_stream_id st = int (length ks)"
    unfolding stream_table_def by blast+
  have "stream_of k st = Inr (int (length ks) + 1, ?st)"
    using assms(2) by (simp add: stream_of_def mp_get_def m n add_int_def)
  moreover have "stream_table ks' tot rs ?st"
    using assms False by (auto simp: stream_table_def nth_append recent_def less_Suc_eq)
  ultimately show ?thesis using False assms(4) by (intro exI [of _ "length ks"] exI [of _ ?st]) simp
qed

lemma count_bytes_table:
  assumes "stream_table ks tot rs st" and "j < length ks" and "ks ! j = k"
    and "- 2147483648 \<le> tot k + n" and "tot k + n < 2147483648" and "0 \<le> n_tot_packet st" and "n_tot_packet st < 32768"
  shows "\<exists>st'. count_bytes (int j + 1) n st = Inr st' \<and> stream_table ks (tot(k := tot k + n)) rs st' \<and>
    n_tot_packet st' = n_tot_packet st + 1"
proof -
  let ?st = "st\<lparr>n_tot_ippkt_len := (n_tot_ippkt_len st)(Suc j := tot k + n), n_tot_packet := n_tot_packet st + 1\<rparr>"
  have c: "cell (int j + 1) = Inr (Suc j)" and t: "n_tot_ippkt_len st (Suc j) = tot k"
    using assms(1-3) by (auto simp: stream_table_def intro: cell_Suc)
  then have "count_bytes (int j + 1) n st = Inr ?st" using assms(4-7) by (simp add: count_bytes_def add_int_def)
  moreover have "stream_table ks (tot(k := tot k + n)) rs ?st"
    using assms(1-3) by (auto simp: stream_table_def nth_eq_iff_index_eq)
  ultimately show ?thesis by auto
qed

lemma roll_stream_table:
  assumes "stream_table ks tot rs st" and "j < length ks" and "ks ! j = k" and "NaN \<notin> set (rs k)"
    and "i \<noteq> 0" and "\<bar>i\<bar> < 2 ^ 53" and "r = window_ratio i (tot k)"
  shows "\<exists>st'. roll_stream i (int j + 1) st = Inr (estimate (rs k @ [r]), st') \<and>
    stream_table ks (tot(k := 0)) (rs(k := rs k @ [r])) st' \<and> n_tot_packet st' = n_tot_packet st"
proof -
  have c: "cell (int j + 1) = Inr (Suc j)" and t: "n_tot_ippkt_len st (Suc j) = tot k" "n_q st (Suc j) = recent (rs k)"
    using assms(1-3) by (auto simp: stream_table_def intro: cell_Suc)
  have "get_ratio (recent (rs k @ [r])) = Inr (estimate (rs k @ [r]))"
    using assms(4) window_ratio_not_NaN [OF assms(5,6), of "tot k"] by (intro get_ratio_recent) (auto simp: assms(7))
  then obtain st' where st': "roll_stream i (int j + 1) st = Inr (estimate (rs k @ [r]), st')"
    "n_tot_ippkt_len st' = (n_tot_ippkt_len st)(Suc j := 0)" "n_q st' = (n_q st)(Suc j := recent (rs k @ [r]))"
    "n_mp st' = n_mp st" "n_stream_id st' = n_stream_id st" "n_tot_packet st' = n_tot_packet st"
    by (simp add: roll_stream_def c t recent_push assms(7))
  moreover have "stream_table ks (tot(k := 0)) (rs(k := rs k @ [r])) st'"
    using assms(1-3) by (auto simp: stream_table_def st'(2-5) nth_eq_iff_index_eq)
  ultimately show ?thesis by blast
qed


section \<open>The timer handlers\<close>

lemma ids_upto: "[1 .. int n] = map (\<lambda>j. int j + 1) [0 ..< n]"
  by (rule nth_equalityI) (simp_all add: nth_upto)

text \<open>The loop over the streams from the \<open>a\<close>-th on, for both programs.\<close>

lemma roll_loops:
  assumes "stream_table ks tot rs st" and "a \<le> length ks" and "\<forall>k. NaN \<notin> set (rs k)"
    and "i \<noteq> 0" and "\<bar>i\<bar> < 2 ^ 53"
  defines "rest \<equiv> set (drop a ks)" and "new \<equiv> \<lambda>k. rs k @ [window_ratio i (tot k)]"
  shows "\<exists>st'. test_func_loop i (map (\<lambda>j. int j + 1) [a ..< length ks]) st =
      Inr (map (\<lambda>j. (int j + 1, estimate (new (ks ! j)))) [a ..< length ks], st') \<and>
    (\<forall>t. (\<forall>j. a \<le> j \<and> j \<le> length ks \<longrightarrow> \<bar>t + (\<Sum>k \<leftarrow> take (j - a) (drop a ks). tot k)\<bar> < 2147483648) \<longrightarrow>
      burst_loop i (map (\<lambda>j. int j + 1) [a ..< length ks]) t st = Inr (t + (\<Sum>k \<leftarrow> drop a ks. tot k), st')) \<and>
    stream_table ks (\<lambda>k. if k \<in> rest then 0 else tot k) (\<lambda>k. if k \<in> rest then new k else rs k) st' \<and>
    n_tot_packet st' = n_tot_packet st"
  using assms(1-3) unfolding rest_def new_def
proof (induction "length ks - a" arbitrary: a tot rs st)
  case 0
  then show ?case by simp
next
  case (Suc n)
  then have a: "a < length ks" and n: "n = length ks - Suc a" by simp_all
  let ?k = "ks ! a" and ?ks = "drop (Suc a) ks"
  let ?r = "window_ratio i (tot ?k)"
  have d: "drop a ks = ?k # ?ks" and u: "[a ..< length ks] = a # [Suc a ..< length ks]"
    using a by (simp_all add: Cons_nth_drop_Suc upt_conv_Cons)
  have dist: "distinct (?k # ?ks)" using Suc.prems(1) unfolding d [symmetric] stream_table_def by simp
  from Suc.prems(3) have "NaN \<notin> set (rs ?k)" by blast
  from roll_stream_table [OF Suc.prems(1) a refl this assms(4,5) refl] obtain st1 where
    roll: "roll_stream i (int a + 1) st = Inr (estimate (rs ?k @ [?r]), st1)"
    and tab: "stream_table ks (tot(?k := 0)) (rs(?k := rs ?k @ [?r])) st1" and tp: "n_tot_packet st1 = n_tot_packet st"
    by blast
  have nan: "\<forall>k. NaN \<notin> set ((rs(?k := rs ?k @ [?r])) k)"
    using Suc.prems(3) window_ratio_not_NaN [OF assms(4,5), of "tot ?k"] by (simp del: split_paired_All)
  obtain st' where IH1: "test_func_loop i (map (\<lambda>j. int j + 1) [Suc a ..< length ks]) st1 =
      Inr (map (\<lambda>j. (int j + 1, estimate ((rs(?k := rs ?k @ [?r])) (ks ! j) @ [window_ratio i ((tot(?k := 0)) (ks ! j))])))
        [Suc a ..< length ks], st')"
    and IH2: "\<forall>t. (\<forall>j. Suc a \<le> j \<and> j \<le> length ks \<longrightarrow>
        \<bar>t + (\<Sum>k \<leftarrow> take (j - Suc a) ?ks. (tot(?k := 0)) k)\<bar> < 2147483648) \<longrightarrow>
      burst_loop i (map (\<lambda>j. int j + 1) [Suc a ..< length ks]) t st1 = Inr (t + (\<Sum>k \<leftarrow> ?ks. (tot(?k := 0)) k), st')"
    and IH3: "stream_table ks (\<lambda>k. if k \<in> set ?ks then 0 else (tot(?k := 0)) k)
      (\<lambda>k. if k \<in> set ?ks then (rs(?k := rs ?k @ [?r])) k @ [window_ratio i ((tot(?k := 0)) k)]
           else (rs(?k := rs ?k @ [?r])) k) st'"
    and IH4: "n_tot_packet st' = n_tot_packet st1"
    using Suc.hyps(1) [OF n tab Suc_leI [OF a] nan] by blast
  have ne: "k \<noteq> ?k" if "k \<in> set ?ks" for k using dist that by auto
  have tot': "(tot(?k := 0)) k = tot k" if "k \<in> set ?ks" for k using ne [OF that] by simp
  have sum: "(\<Sum>k \<leftarrow> ls. (tot(?k := 0)) k) = (\<Sum>k \<leftarrow> ls. tot k)" if "set ls \<subseteq> set ?ks" for ls
    using that by (intro arg_cong [of _ _ sum_list] map_cong [OF refl] tot') blast
  have in_ks: "ks ! j \<in> set ?ks" if "j \<in> set [Suc a ..< length ks]" for j
  proof -
    from that have "j - Suc a < length ?ks" by auto
    moreover from that have "ks ! j = ?ks ! (j - Suc a)" by simp
    ultimately show ?thesis by (metis nth_mem)
  qed
  have "test_func_loop i (map (\<lambda>j. int j + 1) [a ..< length ks]) st =
      Inr (map (\<lambda>j. (int j + 1, estimate (rs (ks ! j) @ [window_ratio i (tot (ks ! j))]))) [a ..< length ks], st')"
    using IH1 ne [OF in_ks] unfolding u by (simp add: roll)
  moreover have "burst_loop i (map (\<lambda>j. int j + 1) [a ..< length ks]) t st = Inr (t + (\<Sum>k \<leftarrow> drop a ks. tot k), st')"
    if t: "\<forall>j. a \<le> j \<and> j \<le> length ks \<longrightarrow> \<bar>t + (\<Sum>k \<leftarrow> take (j - a) (drop a ks). tot k)\<bar> < 2147483648" for t
  proof -
    from t [rule_format, of "Suc a"] a have "\<bar>t + tot ?k\<bar> < 2147483648" unfolding d by simp
    then have add: "add_int t (tot ?k) = Inr (t + tot ?k)" by (simp add: add_int_def abs_less_iff)
    have "a < 32768" using Suc.prems(1) a by (simp add: stream_table_def)
    then have c: "cell (int a + 1) = Inr (Suc a)" by (rule cell_Suc)
    have c': "n_tot_ippkt_len st (Suc a) = tot ?k" using Suc.prems(1) a by (simp add: stream_table_def)
    have "\<bar>t + tot ?k + (\<Sum>k \<leftarrow> take (j - Suc a) ?ks. (tot(?k := 0)) k)\<bar> < 2147483648"
      if "Suc a \<le> j" "j \<le> length ks" for j
    proof -
      have "take (j - a) (drop a ks) = ?k # take (j - Suc a) ?ks" using that(1) unfolding d by (simp add: take_Cons')
      with t [rule_format, of j] that show ?thesis
        by (subst sum [OF set_take_subset]) (simp add: add.assoc)
    qed
    with IH2 have "burst_loop i (map (\<lambda>j. int j + 1) [Suc a ..< length ks]) (t + tot ?k) st1 =
        Inr (t + tot ?k + (\<Sum>k \<leftarrow> ?ks. tot k), st')" unfolding sum [OF order_refl] by blast
    then show ?thesis unfolding u d by (simp add: c c' add roll add.assoc)
  qed
  moreover have "(\<lambda>k. if k \<in> set ?ks then 0 else (tot(?k := 0)) k) = (\<lambda>k. if k \<in> set (drop a ks) then 0 else tot k)"
    unfolding d by auto
  moreover have "(\<lambda>k. if k \<in> set ?ks then (rs(?k := rs ?k @ [?r])) k @ [window_ratio i ((tot(?k := 0)) k)]
      else (rs(?k := rs ?k @ [?r])) k) = (\<lambda>k. if k \<in> set (drop a ks) then rs k @ [window_ratio i (tot k)] else rs k)"
    unfolding d using ne by fastforce
  ultimately show ?case using IH3 IH4 tp by auto
qed


section \<open>Reading the addresses and the ports\<close>

text \<open>
  The frames whose addresses fit into the four-character buffers and which are long enough for ports.
\<close>

definition readable :: "u8 list \<Rightarrow> bool" where
  "readable packet \<longleftrightarrow> 38 \<le> length packet \<and>
     (\<forall>i < 3. unat (packet ! (26 + i)) < 100 \<and> unat (packet ! (30 + i)) < 100)"

lemma load32_ok:
  "i + 3 < length packet \<Longrightarrow> load32 packet i =
     Inr (word_cat (word_cat (packet ! (i + 3)) (packet ! (i + 2)) :: u16) (word_cat (packet ! (i + 1)) (packet ! i) :: u16))"
  by (simp add: load32_def load16_ok numeral_3_eq_3 numeral_2_eq_2)

lemma octet_cat:
  fixes b0 b1 b2 b3 :: u8
  defines "w \<equiv> word_cat (word_cat b3 b2 :: u16) (word_cat b1 b0 :: u16) :: u32"
  shows "octet 0 w = b0" and "octet 1 w = b1" and "octet 2 w = b2" and "octet 3 w = b3"
  unfolding w_def octet_def by (rule bit_word_eqI; auto simp: bit_simps bit_word_cat_iff)+

lemma less_3: "(\<forall>i < 3. P i) \<longleftrightarrow> P 0 \<and> P 1 \<and> P (2 :: nat)" "(\<exists>i < 3. P i) \<longleftrightarrow> P 0 \<or> P 1 \<or> P (2 :: nat)"
  by (auto simp: numeral_3_eq_3 less_Suc_eq numeral_2_eq_2)

lemma toStringIP_load:
  assumes "i + 3 < length packet"
  shows "\<exists>w. load32 packet i = Inr w \<and>
    toStringIP w = (if \<forall>j < 3. unat (packet ! (i + j)) < 100 then Inr (dotted w) else Inl OutOfBounds)"
proof -
  define w where "w = (word_cat (word_cat (packet ! (i + 3)) (packet ! (i + 2)) :: u16)
    (word_cat (packet ! (i + 1)) (packet ! i) :: u16) :: u32)"
  have o: "octet 0 w = packet ! (i + 0)" "octet 1 w = packet ! (i + 1)" "octet 2 w = packet ! (i + 2)"
    unfolding w_def by (simp_all only: octet_cat add_0_right)
  have "(\<exists>j < 3. 100 \<le> unat (octet j w)) \<longleftrightarrow> \<not> (\<forall>j < 3. unat (packet ! (i + j)) < 100)"
    unfolding less_3 o by (simp only: not_less de_Morgan_conj)
  moreover have "load32 packet i = Inr w" using assms by (simp only: w_def load32_ok)
  ultimately show ?thesis by (simp only: toStringIP_eq if_not_P) auto
qed

lemma read_ports_eq:
  assumes "ip_frame packet"
  shows "read_ports packet = (if readable packet
    then Inr ((word_cat (packet ! 34) (packet ! 35), word_cat (packet ! 36) (packet ! 37)), []) else Inl OutOfBounds)"
proof -
  have l: "34 \<le> length packet" using assms by (simp add: ip_frame_def)
  obtain src dst where s: "load32 packet 26 = Inr src"
      "toStringIP src = (if \<forall>j < 3. unat (packet ! (26 + j)) < 100 then Inr (dotted src) else Inl OutOfBounds)"
    and d: "load32 packet 30 = Inr dst"
      "toStringIP dst = (if \<forall>j < 3. unat (packet ! (30 + j)) < 100 then Inr (dotted dst) else Inl OutOfBounds)"
    using toStringIP_load [of 26 packet] toStringIP_load [of 30 packet] l by auto
  have p: "load16 packet j = (if j + 1 < length packet then Inr (word_cat (packet ! (j + 1)) (packet ! j)) else Inl OutOfBounds)" for j
    by (simp add: load16_def byte_at_def)
  have r: "readable packet \<longleftrightarrow> 38 \<le> length packet \<and> (\<forall>j < 3. unat (packet ! (26 + j)) < 100) \<and>
      (\<forall>j < 3. unat (packet ! (30 + j)) < 100)" by (auto simp: readable_def)
  show ?thesis
    unfolding r by (simp add: read_ports_def s d p big2small_ntohs ntohs_cat)
qed


section \<open>What the state means\<close>

definition known :: "event list \<Rightarrow> ports list" where
  "known past = known_rev (rev past)"

definition pending :: "int \<Rightarrow> event list \<Rightarrow> ports \<Rightarrow> int" where
  "pending h past k = pending_rev h k (rev past)"

definition stream_rates :: "int \<Rightarrow> int \<Rightarrow> event list \<Rightarrow> ports \<Rightarrow> dbl list" where
  "stream_rates h i past k = stream_rates_rev h i k (rev past)"

definition streams_means :: "int \<Rightarrow> int \<Rightarrow> event list \<Rightarrow> streams \<Rightarrow> bool" where
  "streams_means h i past st \<longleftrightarrow>
     stream_table (known past) (pending h past) (stream_rates h i past) st \<and>
     0 \<le> n_tot_packet st \<and> n_tot_packet st \<le> int (length past)"

text \<open>
  The side of the environment: fewer than 32768 events, and only frames whose addresses and ports can
  be read.
\<close>

definition stream_ok :: "int \<Rightarrow> event list \<Rightarrow> event \<Rightarrow> bool" where
  "stream_ok i past e \<longleftrightarrow> 0 < i \<and> i < 2147483648 \<and> length past < 32767 \<and>
     (case e of Expiry \<Rightarrow> True
      | Packet pkthdr packet \<Rightarrow> is_frame pkthdr packet \<and> (ip_frame packet \<longrightarrow> readable packet))"

definition nstream_spec :: "int \<Rightarrow> event list \<Rightarrow> event \<Rightarrow> (int \<times> dbl) list" where
  "nstream_spec i past e =
     (case e of Packet _ _ \<Rightarrow> []
      | Expiry \<Rightarrow> map (\<lambda>j. let k = known past ! j in
          (int j + 1, estimate (stream_rates 28 i past k @ [window_ratio i (pending 28 past k)]))) [0 ..< length (known past)])"

definition burst_spec :: "event list \<Rightarrow> event \<Rightarrow> int list" where
  "burst_spec past e = (case e of Packet _ _ \<Rightarrow> [] | Expiry \<Rightarrow> [burst_rev (rev past)])"

lemma stream_table_tot_len [simp]: "stream_table ks tot rs (st\<lparr>n_tot_len := n\<rparr>) \<longleftrightarrow> stream_table ks tot rs st"
  by (simp add: stream_table_def)

text \<open>One packet, with \<open>h\<close> bytes of header taken off.\<close>

lemma stream_packet:
  assumes "streams_means h i past st" and "stream_ok i past (Packet pkthdr packet)" and "0 \<le> h" and "h \<le> 28"
  shows "\<exists>(ls :: 'o line list) st'. my_callback pkthdr packet n_tot_len (\<lambda>n st. st\<lparr>n_tot_len := n\<rparr>)
      (handle_IP_frame pkthdr packet (read_ports packet) (\<lambda>k len st.
         bindE (stream_of k st) (\<lambda>(now_id, st1).
         bindE (count_bytes now_id (len - h) st1) (\<lambda>st2. Inr ([], st2))))) st = Inr (ls, st') \<and>
    data_of ls = [] \<and> streams_means h i (past @ [Packet pkthdr packet]) st'"
proof -
  let ?e = "Packet pkthdr packet" and ?es = "rev past"
  let ?rest = "\<lambda>k len st. bindE (stream_of k st) (\<lambda>(now_id, st1).
         bindE (count_bytes now_id (len - h) st1) (\<lambda>st2. Inr ([] :: 'o line list, st2)))"
  from assms(2) have frame: "is_frame pkthdr packet" and rd: "ip_frame packet \<Longrightarrow> readable packet" and l: "length past < 32767"
    by (auto simp: stream_ok_def)
  define s1 where "s1 = st\<lparr>n_tot_len := c_int (n_tot_len st + uint (pkt_length pkthdr))\<rparr>"
  have tab: "stream_table (known_rev ?es) (\<lambda>k. pending_rev h k ?es) (\<lambda>k. stream_rates_rev h i k ?es) s1"
    and n: "0 \<le> n_tot_packet s1" "n_tot_packet s1 \<le> int (length past)"
    using assms(1) by (simp_all add: s1_def streams_means_def known_def pending_def [abs_def] stream_rates_def [abs_def])
  note F = my_callback_frame [where get_tl = n_tot_len and set_tl = "\<lambda>n st. st\<lparr>n_tot_len := n\<rparr>" and s = st
      and mid = "read_ports packet" and rest = ?rest, OF refl s1_def frame]
  show ?thesis
  proof (cases "stream_len packet")
    case None
    then have no: "ipv4_length packet = None" by (simp add: stream_len_def)
    from None tab n have "streams_means h i (past @ [?e]) s1"
      by (simp add: streams_means_def known_def pending_def [abs_def] stream_rates_def [abs_def])
    moreover have "\<exists>nts. my_callback pkthdr packet n_tot_len (\<lambda>n st. st\<lparr>n_tot_len := n\<rparr>)
        (handle_IP_frame pkthdr packet (read_ports packet) ?rest) st = Inr (map Note nts, s1)"
      using F(1) F(3) [OF _ _ no] rd read_ports_eq [of packet] by (cases "ip_frame packet") fastforce+
    ultimately show ?thesis by fastforce
  next
    case (Some v)
    then obtain k len where sl: "stream_len packet = Some (k, len)" by (cases v) auto
    then have ipv4: "ipv4_length packet = Some len" and k: "k = (word_cat (packet ! 34) (packet ! 35), word_cat (packet ! 36) (packet ! 37))"
      by (auto simp: stream_len_def)
    then have ip: "ip_frame packet" by (auto simp: ipv4_length_def split: if_splits)
    have rp: "read_ports packet = Inr (k, [])" using read_ports_eq [OF ip] rd [OF ip] k by simp
    have "length (known_rev ?es) < 32767" using known_rev_length [of ?es] l by simp
    from stream_of_table [OF tab this _ refl, of k] pending_unknown [of k ?es h i] obtain j st1 where
      so: "stream_of k s1 = Inr (int j + 1, st1)" and j: "j < length (known_rev (?e # ?es))" "known_rev (?e # ?es) ! j = k"
      and tab1: "stream_table (known_rev (?e # ?es)) (\<lambda>k. pending_rev h k ?es) (\<lambda>k. stream_rates_rev h i k ?es) st1"
      and n1: "n_tot_packet st1 = n_tot_packet s1" using sl by auto
    have b: "\<bar>pending_rev h k ?es\<bar> \<le> 65535 * int (length ?es)" using pending_bound [OF assms(3,4)] .
    then have "\<bar>pending_rev h k ?es\<bar> \<le> 2147319810" using l by simp
    then have "- 2147483648 \<le> pending_rev h k ?es + (len - h)" "pending_rev h k ?es + (len - h) < 2147483648"
      using stream_len_bounds [OF sl] assms(3,4) by linarith+
    moreover have "0 \<le> n_tot_packet st1" "n_tot_packet st1 < 32768" using n n1 l by linarith+
    ultimately obtain st2 where cb: "count_bytes (int j + 1) (len - h) st1 = Inr st2"
      and tab2: "stream_table (known_rev (?e # ?es)) ((\<lambda>k. pending_rev h k ?es)(k := pending_rev h k ?es + (len - h)))
        (\<lambda>k. stream_rates_rev h i k ?es) st2" and n2: "n_tot_packet st2 = n_tot_packet st1 + 1"
      using count_bytes_table [OF tab1 j] by blast
    have "(\<lambda>k. pending_rev h k ?es)(k := pending_rev h k ?es + (len - h)) = (\<lambda>k. pending_rev h k (?e # ?es))"
      using sl by auto
    with tab2 n n1 n2 have "streams_means h i (past @ [?e]) st2"
      by (simp add: streams_means_def known_def pending_def [abs_def] stream_rates_def [abs_def])
    moreover from F(4) [OF ip rp ipv4] obtain nts where "my_callback pkthdr packet n_tot_len (\<lambda>n st. st\<lparr>n_tot_len := n\<rparr>)
        (handle_IP_frame pkthdr packet (read_ports packet) ?rest) st = Inr (map Note nts, st2)"
      by (auto simp: so cb)
    ultimately show ?thesis by fastforce
  qed
qed

text \<open>One expiry.\<close>

lemma stream_rates_not_NaN:
  assumes "0 < i" and "i < 2147483648"
  shows "NaN \<notin> set (stream_rates_rev h i k es)"
proof (induction es rule: event_induct)
  case (Expiry es)
  then show ?case using assms window_ratio_not_NaN [of i "pending_rev h k es"] by auto
qed simp_all

lemma stream_expiry:
  assumes "streams_means h i past st" and "stream_ok i past Expiry"
  shows "\<exists>st'. test_func_loop i [1 .. n_stream_id st] st =
      Inr (map (\<lambda>j. let k = known past ! j in
        (int j + 1, estimate (stream_rates h i past k @ [window_ratio i (pending h past k)]))) [0 ..< length (known past)], st') \<and>
    streams_means h i (past @ [Expiry]) st' \<and>
    ((\<forall>j \<le> length (known past). \<bar>\<Sum>k \<leftarrow> take j (known past). pending h past k\<bar> < 2147483648) \<longrightarrow>
       burst_loop i [1 .. n_stream_id st] 0 st = Inr (\<Sum>k \<leftarrow> known past. pending h past k, st'))"
proof -
  from assms(2) have i: "0 < i" "i < 2147483648" by (simp_all add: stream_ok_def)
  have tab: "stream_table (known past) (pending h past) (stream_rates h i past) st"
    and n: "0 \<le> n_tot_packet st" "n_tot_packet st \<le> int (length past)"
    using assms(1) by (simp_all add: streams_means_def)
  have ids: "[1 .. n_stream_id st] = map (\<lambda>j. int j + 1) [0 ..< length (known past)]"
    using tab by (simp add: stream_table_def ids_upto)
  have nan: "\<forall>k. NaN \<notin> set (stream_rates h i past k)" using stream_rates_not_NaN [OF i] by (simp add: stream_rates_def)
  have i': "i \<noteq> 0" "\<bar>i\<bar> < 2 ^ 53" using i by simp_all
  from roll_loops [OF tab le0 nan i'] obtain st' where
    t: "test_func_loop i [1 .. n_stream_id st] st = Inr (map (\<lambda>j. (int j + 1,
        estimate (stream_rates h i past (known past ! j) @ [window_ratio i (pending h past (known past ! j))]))) [0 ..< length (known past)], st')"
    and b: "(\<forall>j \<le> length (known past). \<bar>0 + (\<Sum>k \<leftarrow> take j (known past). pending h past k)\<bar> < 2147483648) \<Longrightarrow>
      burst_loop i [1 .. n_stream_id st] 0 st = Inr (0 + (\<Sum>k \<leftarrow> known past. pending h past k), st')"
    and tab': "stream_table (known past) (\<lambda>k. if k \<in> set (known past) then 0 else pending h past k)
       (\<lambda>k. if k \<in> set (known past) then stream_rates h i past k @ [window_ratio i (pending h past k)] else stream_rates h i past k) st'"
    and n': "n_tot_packet st' = n_tot_packet st"
    unfolding ids drop_0 by auto
  have "(\<lambda>k. if k \<in> set (known past) then 0 else pending h past k) = pending h (past @ [Expiry])"
    using pending_unknown by (auto simp: pending_def known_def)
  moreover have "(\<lambda>k. if k \<in> set (known past) then stream_rates h i past k @ [window_ratio i (pending h past k)]
      else stream_rates h i past k) = stream_rates h i (past @ [Expiry])"
    by (auto simp: stream_rates_def known_def pending_def)
  ultimately have "streams_means h i (past @ [Expiry]) st'"
    using tab' n n' by (simp add: streams_means_def known_def)
  with t b show ?thesis by (auto simp: Let_def)
qed

lemma nstream_event_means:
  assumes "streams_means 28 i past st" and "stream_ok i past e"
  shows "\<exists>ls st'. nstream_event i e st = Inr (ls, st') \<and> data_of ls = nstream_spec i past e \<and>
    streams_means 28 i (past @ [e]) st'"
proof (cases e)
  case (Packet pkthdr packet)
  with assms(2) stream_packet [OF assms(1), of pkthdr packet] show ?thesis
    by (simp add: nstream_callback_def nstream_handle_IP_def nstream_spec_def PACKET_HEADER_def)
next
  case Expiry
  with assms(2) have "stream_ok i past Expiry" by simp
  from stream_expiry [OF assms(1) this] obtain st' where
    "test_func_loop i [1 .. n_stream_id st] st = Inr (nstream_spec i past Expiry, st')"
    "streams_means 28 i (past @ [Expiry]) st'" unfolding nstream_spec_def event.case by blast
  with Expiry show ?thesis by (simp add: nstream_test_func_def)
qed

interpretation nstream: capture_program "nstream_event i" "streams_means 28 i" "stream_ok i" "nstream_spec i" for i
  by unfold_locales (rule nstream_event_means)

lemma burst_bound: "0 \<le> burst_rev es \<and> burst_rev es \<le> 65535 * int (length es)"
proof (induction es rule: event_induct)
  case (Packet hdr packet es)
  then show ?case by (auto dest: stream_len_bounds split: option.split)
qed simp_all

lemma pending_nonneg: "0 \<le> pending_rev 0 k es"
proof (induction es rule: event_induct)
  case (Packet hdr packet es)
  then show ?case by (auto dest: stream_len_bounds split: option.split)
qed simp_all

lemma burst_event_means:
  assumes "streams_means 0 i past st" and "stream_ok i past e"
  shows "\<exists>ls st'. burst_event i e st = Inr (ls, st') \<and> data_of ls = burst_spec past e \<and>
    streams_means 0 i (past @ [e]) st'"
proof (cases e)
  case (Packet pkthdr packet)
  with assms(2) stream_packet [OF assms(1), of pkthdr packet] show ?thesis
    by (simp add: burst_callback_def burst_handle_IP_def burst_spec_def)
next
  case Expiry
  have total: "(\<Sum>k \<leftarrow> known past. pending 0 past k) = burst_rev (rev past)"
    by (simp add: known_def pending_def [abs_def] burst_sum)
  have "\<bar>\<Sum>k \<leftarrow> take j (known past). pending 0 past k\<bar> < 2147483648" for j
  proof -
    have nn: "0 \<le> (\<Sum>k \<leftarrow> ks. pending 0 past k)" for ks by (induction ks) (simp_all add: pending_def pending_nonneg)
    have "(\<Sum>k \<leftarrow> known past. pending 0 past k) =
        (\<Sum>k \<leftarrow> take j (known past). pending 0 past k) + (\<Sum>k \<leftarrow> drop j (known past). pending 0 past k)"
      by (simp flip: sum_list_append map_append)
    moreover have "burst_rev (rev past) \<le> 2147385345"
      using burst_bound [of "rev past"] assms(2) by (simp add: stream_ok_def)
    ultimately show ?thesis using nn [of "take j (known past)"] nn [of "drop j (known past)"] total by simp
  qed
  moreover from assms(2) Expiry have "stream_ok i past Expiry" by simp
  ultimately obtain st' where "burst_loop i [1 .. n_stream_id st] 0 st = Inr (burst_rev (rev past), st')"
    "streams_means 0 i (past @ [Expiry]) st'" using stream_expiry [OF assms(1)] unfolding total by blast
  with Expiry show ?thesis by (simp add: burst_test_func_def burst_spec_def)
qed

interpretation burst: capture_program "burst_event i" "streams_means 0 i" "stream_ok i" burst_spec for i
  by unfold_locales (rule burst_event_means)

lemma streams_init_means: "streams_means h i [] streams_init"
  by (simp add: streams_means_def stream_table_def streams_init_def known_def)

section \<open>Properties\<close>

text \<open>
  \<open>nstream\<close> measures every stream on its own. For every sequence of frames and timer expiries (fewer
  than 32768, frames with readable addresses and ports, a positive interval), the program never faults
  and prints at each expiry, for the streams in the order of their first packet and numbered from 1,
  the estimate over the last four window rates of that stream, the newest of them computed from exactly
  the payload bytes of that stream since the previous expiry.
\<close>

theorem nstream_measures:
  assumes "run_ok (stream_ok i) [] es"
  shows "\<exists>ls st. pcap_loop (nstream_event i) es streams_init = Inr (ls, st) \<and>
    data_of ls = spec_run (nstream_spec i) [] es \<and> streams_means 28 i es st"
  using nstream.loop_means [OF streams_init_means assms] by simp

lemma ex_stream: "stream_len ex_frame = Some ((0, 0), 1028)" "readable ex_frame"
proof -
  have z: "ex_frame ! j = 0" if "18 \<le> j" "j < 64" for j using that unfolding ex_frame_def by (simp add: nth_append)
  have "word_cat (0 :: u8) (0 :: u8) = (0 :: u16)" by (simp only: word_uint_eq_iff uint_cat) simp
  then show "stream_len ex_frame = Some ((0, 0), 1028)" by (simp add: stream_len_def ex_frame_facts z)
  show "readable ex_frame" using z by (simp add: readable_def) (simp add: ex_frame_def)
qed

lemma ex_known: "known [Packet ex_hdr ex_frame] = [(0, 0)]" "pending h [Packet ex_hdr ex_frame] (0, 0) = 1028 - h"
  "stream_rates h i [Packet ex_hdr ex_frame] (0, 0) = []" "burst_rev [Packet ex_hdr ex_frame] = 1028"
  by (simp_all add: known_def pending_def stream_rates_def ex_stream)

lemma ex_stream_run: "run_ok (stream_ok 1000) [] [Packet ex_hdr ex_frame, Expiry]"
  by (simp add: stream_ok_def ex_frame_facts ex_stream)

theorem nstream_measures_witness:
  "\<exists>ls st. pcap_loop (nstream_event 1000) [Packet ex_hdr ex_frame, Expiry] streams_init = Inr (ls, st) \<and>
     data_of ls = [(1, estimate [window_ratio 1000 1000])]"
  using nstream_measures [OF ex_stream_run] by (auto simp: nstream_spec_def ex_known)

text \<open>
  \<open>count_burst\<close> prints the bytes of each timer interval. Under the same conditions every expiry
  prints one number, the sum of the length fields of the IPv4 packets since the previous expiry,
  whatever streams they belong to; the loop over the streams misses none and counts none twice.
\<close>

theorem burst_measures:
  assumes "run_ok (stream_ok i) [] es"
  shows "\<exists>ls st. pcap_loop (burst_event i) es streams_init = Inr (ls, st) \<and>
    data_of ls = spec_run burst_spec [] es"
  using burst.loop_means [OF streams_init_means assms] by auto

theorem burst_measures_witness:
  "\<exists>ls st. pcap_loop (burst_event 1000) [Packet ex_hdr ex_frame, Expiry] streams_init = Inr (ls, st) \<and>
     data_of ls = [1028]"
  using burst_measures [OF ex_stream_run] by (auto simp: burst_spec_def ex_known ex_stream)

text \<open>
  Unreadable frames break both programs. A frame of type IP (of any version) whose source or
  destination has 100 or more in one of its first three octets, or that ends before the ports, makes
  \<open>handle_IP\<close> access memory out of bounds before any check of the header.
\<close>

theorem streams_unreadable_frame:
  assumes "is_frame pkthdr packet" and "ip_frame packet" and "\<not> readable packet"
  shows "nstream_callback pkthdr packet st = Inl OutOfBounds \<and> burst_callback pkthdr packet st = Inl OutOfBounds"
  unfolding nstream_callback_def nstream_handle_IP_def burst_callback_def burst_handle_IP_def
  by (intro conjI my_callback_frame(2) [OF refl refl assms(1,2)])
    (simp_all add: read_ports_eq [OF assms(2)] assms(3))

theorem streams_unreadable_frame_witness:
  "nstream_callback ex_hdr (ex_frame[26 := 192, 27 := 168]) streams_init = Inl OutOfBounds"
proof -
  have l: "length ex_frame = 64" by (simp add: ex_frame_def)
  have "is_frame ex_hdr (ex_frame[26 := 192, 27 := 168])" using ex_frame_facts(1) by (simp add: is_frame_def)
  moreover have "ip_frame (ex_frame[26 := 192, 27 := 168])" using ex_frame_facts(3) by (simp add: ip_frame_def)
  moreover have "\<not> readable (ex_frame[26 := 192, 27 := 168])" by (simp add: readable_def less_3 l)
  ultimately show ?thesis using streams_unreadable_frame by blast
qed

text \<open>
  The timers. \<open>nstream\<close>'s period is \<open>interval\<close> milliseconds; \<open>count_burst\<close> takes the remainder of the
  milliseconds for microseconds, so its period is right only for whole seconds.
\<close>

theorem timer_periods:
  assumes "0 \<le> i"
  shows "(case nstream_init_time i of (s, us) \<Rightarrow> s * 1000000 + us = i * 1000 \<and> us < 1000000) \<and>
    (case burst_init_time i of (s, us) \<Rightarrow> s * 1000000 + us = i * 1000 \<longleftrightarrow> i mod 1000 = 0)"
proof -
  have d: "i sdiv 1000 = i div 1000" "i smod 1000 = i mod 1000"
    using assms by (simp_all add: signed_divide_int_def signed_modulo_int_def sgn_if)
  obtain q r where i: "i = q * 1000 + r" "q = i div 1000" "r = i mod 1000" "0 \<le> r" "r < 1000" by simp
  then have "nstream_init_time i = (q, r * 1000)" "burst_init_time i = (q, r)" "(i mod 1000 = 0) = (r = 0)"
    by (simp_all only: nstream_init_time_def burst_init_time_def d)
  then show ?thesis using i(1,4,5) by auto
qed

theorem timer_periods_witness: "(case burst_init_time 10 of (s, us) \<Rightarrow> s * 1000000 + us \<noteq> 10 * 1000)"
  using timer_periods [of 10] by auto

end
