(* ===== verification/FiveTuple.thy ===== *)
theory FiveTuple
  imports Speed
begin

text \<open>
  \<open>src/RateLimiter/5tuple.cpp\<close>, which prints protocol, addresses and ports of every IP frame, and
  \<open>src/MeasureRate/count_interval.c\<close>, which prints the time between one IPv4 packet and the next.
  (\<open>get_ratio\<close> is also in \<open>5tuple.cpp\<close>, where nothing calls it.)
\<close>

section \<open>The five-tuples\<close>

record tuple_state =
  f_tot_len :: int

type_synonym five_tuple = "u8 \<times> string \<times> string \<times> u16 \<times> u16"

text \<open>The tuple is printed before the version is checked.\<close>

definition print_tuple :: "u8 list \<Rightarrow> fault + unit \<times> five_tuple line list" where
  "print_tuple packet =
     bindE (ip_addresses packet) (\<lambda>(ip_p, src, dst).
     bindE (toStringIP src) (\<lambda>s.
     bindE (toStringIP dst) (\<lambda>d.
     bindE (load16 packet 34) (\<lambda>sp.
     bindE (load16 packet 36) (\<lambda>dstp.
     Inr ((), [Data (ip_p, s, d, big2small sp, big2small dstp)]))))))"

definition tuple_handle_IP :: "pcap_pkthdr \<Rightarrow> u8 list \<Rightarrow> tuple_state \<Rightarrow> fault + five_tuple line list \<times> tuple_state" where
  "tuple_handle_IP pkthdr packet = handle_IP_frame pkthdr packet (print_tuple packet) (\<lambda>_ _ s. Inr ([], s))"

definition tuple_callback :: "pcap_pkthdr \<times> u8 list \<Rightarrow> tuple_state \<Rightarrow> fault + five_tuple line list \<times> tuple_state" where
  "tuple_callback = (\<lambda>(pkthdr, packet).
     my_callback pkthdr packet f_tot_len (\<lambda>n s. s\<lparr>f_tot_len := n\<rparr>) (tuple_handle_IP pkthdr packet))"

section \<open>The gaps between packets\<close>

record gap_state =
  g_tot_len :: int
  g_start :: dbl

definition gap_init :: gap_state where
  "gap_init = \<lparr>g_tot_len = 0, g_start = Fin (- 1)\<rparr>"

text \<open>Milliseconds as a \<open>double\<close>.\<close>

definition gap_now :: "timeval \<Rightarrow> dbl" where
  "gap_now tv = dadd (of_int_d (tv_sec tv * 1000)) (ddiv (dmul (Fin 1) (of_int_d (tv_usec tv))) (Fin 1000))"

definition gap_handle_IP :: "timeval \<Rightarrow> pcap_pkthdr \<Rightarrow> u8 list \<Rightarrow> gap_state \<Rightarrow> fault + dbl line list \<times> gap_state" where
  "gap_handle_IP tv pkthdr packet =
     handle_IP_frame pkthdr packet (Inr ((), [])) (\<lambda>_ _ s.
       (let now = gap_now tv in
        if deq (g_start s) (Fin (- 1)) then Inr ([], s\<lparr>g_start := now\<rparr>)
        else Inr ([Data (dsub now (g_start s))], s\<lparr>g_start := now\<rparr>)))"

definition gap_callback :: "timeval \<times> pcap_pkthdr \<times> u8 list \<Rightarrow> gap_state \<Rightarrow> fault + dbl line list \<times> gap_state" where
  "gap_callback = (\<lambda>(tv, pkthdr, packet).
     my_callback pkthdr packet g_tot_len (\<lambda>n s. s\<lparr>g_tot_len := n\<rparr>) (gap_handle_IP tv pkthdr packet))"

end
