(* ===== verification/FiveTuple_Props.thy ===== *)
theory FiveTuple_Props
  imports FiveTuple Nstream_Props
begin

text \<open>
  \<open>5tuple\<close> prints exactly the tuples of the IP frames, \<open>count_interval\<close> the gaps between IPv4 packets to
  within half a microsecond.
\<close>

section \<open>The five-tuples\<close>

definition octets :: "u8 list \<Rightarrow> nat \<Rightarrow> string" where
  "octets packet i = show_u8 (packet ! i) @ ''.'' @ show_u8 (packet ! (i + 1)) @ ''.'' @
     show_u8 (packet ! (i + 2)) @ ''.'' @ show_u8 (packet ! (i + 3))"

definition tuple_of :: "u8 list \<Rightarrow> five_tuple" where
  "tuple_of packet = (packet ! 23, octets packet 26, octets packet 30,
     word_cat (packet ! 34) (packet ! 35), word_cat (packet ! 36) (packet ! 37))"

lemma dotted_load: "i + 3 < length packet \<Longrightarrow> load32 packet i = Inr w \<Longrightarrow> dotted w = octets packet i"
  by (auto simp: load32_ok dotted_def octet_cat octets_def simp del: One_nat_def add_2_eq_Suc')

lemma print_tuple_eq:
  assumes "ip_frame packet"
  shows "print_tuple packet = (if readable packet then Inr ((), [Data (tuple_of packet)]) else Inl OutOfBounds)"
proof -
  have l: "34 \<le> length packet" using assms by (simp add: ip_frame_def)
  obtain src dst where s: "load32 packet 26 = Inr src"
      "toStringIP src = (if \<forall>j < 3. unat (packet ! (26 + j)) < 100 then Inr (dotted src) else Inl OutOfBounds)"
    and d: "load32 packet 30 = Inr dst"
      "toStringIP dst = (if \<forall>j < 3. unat (packet ! (30 + j)) < 100 then Inr (dotted dst) else Inl OutOfBounds)"
    using toStringIP_load [of 26 packet] toStringIP_load [of 30 packet] l by auto
  have dot: "dotted src = octets packet 26" "dotted dst = octets packet 30"
    using dotted_load [OF _ s(1)] dotted_load [OF _ d(1)] l by simp_all
  have p: "load16 packet j = (if j + 1 < length packet then Inr (word_cat (packet ! (j + 1)) (packet ! j)) else Inl OutOfBounds)" for j
    by (simp add: load16_def byte_at_def)
  have r: "readable packet \<longleftrightarrow> 38 \<le> length packet \<and> (\<forall>j < 3. unat (packet ! (26 + j)) < 100) \<and>
      (\<forall>j < 3. unat (packet ! (30 + j)) < 100)" by (auto simp: readable_def)
  have "byte_at packet 23 = Inr (packet ! 23)" using l by (simp add: byte_at_def)
  then show ?thesis
    unfolding r by (simp add: print_tuple_def ip_addresses_def s d p big2small_ntohs ntohs_cat tuple_of_def dot)
qed

definition tuple_ok :: "(pcap_pkthdr \<times> u8 list) list \<Rightarrow> pcap_pkthdr \<times> u8 list \<Rightarrow> bool" where
  "tuple_ok past = (\<lambda>(pkthdr, packet). is_frame pkthdr packet \<and> (ip_frame packet \<longrightarrow> readable packet))"

definition tuple_spec :: "(pcap_pkthdr \<times> u8 list) list \<Rightarrow> pcap_pkthdr \<times> u8 list \<Rightarrow> five_tuple list" where
  "tuple_spec past = (\<lambda>(_, packet). if ip_frame packet then [tuple_of packet] else [])"

interpretation tuple: capture_program tuple_callback "\<lambda>_ _. True" tuple_ok tuple_spec
proof unfold_locales
  fix past s and e :: "pcap_pkthdr \<times> u8 list"
  assume ok: "tuple_ok past e"
  obtain pkthdr packet where e: "e = (pkthdr, packet)" by (cases e)
  from ok have frame: "is_frame pkthdr packet" and rd: "ip_frame packet \<Longrightarrow> readable packet"
    by (simp_all add: tuple_ok_def e)
  note F = my_callback_frame [OF refl refl frame, where mid = "print_tuple packet"]
  show "\<exists>ls s'. tuple_callback e s = Inr (ls, s') \<and> data_of ls = tuple_spec past e \<and> True"
  proof (cases "ip_frame packet")
    case True
    then have "print_tuple packet = Inr ((), [Data (tuple_of packet)])" using print_tuple_eq rd by simp
    note F34 = F(3,4) [OF True this, where get_tl = f_tot_len and set_tl = "\<lambda>n s. s\<lparr>f_tot_len := n\<rparr>"
        and s = s and rest = "\<lambda>_ _ s. Inr ([], s)"]
    have "\<exists>nts s'. tuple_callback e s = Inr ([Data (tuple_of packet)] @ map Note nts, s')"
    proof (cases "ipv4_length packet")
      case None
      from F34(1) [OF this] show ?thesis
        unfolding e tuple_callback_def tuple_handle_IP_def prod.case by blast
    next
      case (Some len)
      from F34(2) [OF this] show ?thesis
        unfolding e tuple_callback_def tuple_handle_IP_def prod.case bindE_simps by auto
    qed
    then show ?thesis using True by (auto simp: tuple_spec_def e)
  next
    case False
    from F(1) [OF this] False show ?thesis
      unfolding e tuple_callback_def tuple_handle_IP_def tuple_spec_def prod.case by fastforce
  qed
qed

lemma tuple_spec_run: "spec_run tuple_spec past es = map (\<lambda>(_, packet). tuple_of packet) (filter (\<lambda>(_, packet). ip_frame packet) es)"
  by (induction es arbitrary: past) (auto simp: tuple_spec_def)

lemma tuple_run_ok: "run_ok tuple_ok past es \<longleftrightarrow> (\<forall>(pkthdr, packet) \<in> set es. is_frame pkthdr packet \<and> (ip_frame packet \<longrightarrow> readable packet))"
  by (induction es arbitrary: past) (auto simp: tuple_ok_def)

section \<open>The gaps between packets\<close>

definition exact_ms :: "timeval \<Rightarrow> rat" where
  "exact_ms tv = of_int (tv_sec tv) * 1000 + of_int (tv_usec tv) / 1000"

definition clock_reading :: "timeval \<Rightarrow> bool" where
  "clock_reading tv \<longleftrightarrow> 0 \<le> tv_sec tv \<and> tv_sec tv < 2147483648 \<and> 0 \<le> tv_usec tv \<and> tv_usec tv < 1000000"

lemma gap_now_error:
  assumes "clock_reading tv"
  shows "\<exists>y. gap_now tv = Fin y \<and> 0 \<le> y \<and> y < 2 ^ 41 \<and> \<bar>y - exact_ms tv\<bar> \<le> 1 / 8000"
proof -
  let ?u = "tv_usec tv" and ?s = "tv_sec tv"
  have c: "0 \<le> ?s" "?s \<le> 2147483647" "0 \<le> ?u" "?u \<le> 999999" using assms by (simp_all add: clock_reading_def)
  have u: "dmul (Fin 1) (of_int_d ?u) = Fin (of_int ?u)" "of_int_d (?s * 1000) = Fin (of_int (?s * 1000))"
    using c rnd_of_int [of ?u] by simp_all
  have u1: "0 \<le> (of_int ?u / 1000 :: rat)" "of_int ?u / 1000 \<le> (999999 / 1000 :: rat)"
  proof -
    have "(of_int ?u :: rat) \<le> of_int 999999" using c by (simp only: of_int_le_iff)
    then show "0 \<le> (of_int ?u / 1000 :: rat)" "of_int ?u / 1000 \<le> (999999 / 1000 :: rat)" using c by simp_all
  qed
  then have "\<bar>of_int ?u / 1000 :: rat\<bar> < 2 powi 10" by simp
  from rnd_error [OF this] obtain q where q: "rnd (of_int ?u / 1000) = Fin q" "\<bar>q - of_int ?u / 1000\<bar> \<le> 1 / 17592186044416"
    by (auto simp: power_int_minus)
  have "rnd 0 \<le> rnd (of_int ?u / 1000)" using u1 by (intro rnd_mono) simp
  then have q0: "0 \<le> q" unfolding q(1) by (auto simp: less_eq_dbl_def less_dbl_def)
  have s: "0 \<le> (of_int ?s :: rat)" "(of_int ?s :: rat) \<le> 2147483647" using c by simp_all
  let ?S = "of_int (?s * 1000) + q"
  have "q \<le> 999999 / 1000 + 1 / 17592186044416" using abs_le_D1 [OF q(2)] u1(2) by linarith
  with s q0 have S: "0 \<le> ?S" "?S < 2147483648000" by simp_all
  then have "\<bar>?S\<bar> < 2 powi 41" by simp
  from rnd_error [OF this] obtain y where y: "rnd ?S = Fin y" "\<bar>y - ?S\<bar> \<le> 1 / 8192"
    by (auto simp: power_int_minus)
  have "rnd 0 \<le> rnd ?S" using S by (intro rnd_mono) simp
  then have "0 \<le> y" unfolding y(1) by (auto simp: less_eq_dbl_def less_dbl_def)
  moreover have "y < 2 ^ 41" using abs_le_D1 [OF y(2)] S by simp
  moreover have "gap_now tv = Fin y" using y(1) by (simp add: gap_now_def u q(1))
  moreover have "\<bar>y - exact_ms tv\<bar> \<le> 1 / 8000"
    using abs_le_D1 [OF y(2)] abs_le_D2 [OF y(2)] abs_le_D1 [OF q(2)] abs_le_D2 [OF q(2)]
    by (intro abs_leI) (simp_all add: exact_ms_def)
  ultimately show ?thesis by blast
qed

lemma gap_error:
  assumes "clock_reading tv" and "clock_reading tv'"
  shows "\<exists>y. dsub (gap_now tv') (gap_now tv) = Fin y \<and> \<bar>y - (exact_ms tv' - exact_ms tv)\<bar> \<le> 1 / 2048"
proof -
  from gap_now_error [OF assms(1)] obtain a where a: "gap_now tv = Fin a" "0 \<le> a" "a < 2 ^ 41" "\<bar>a - exact_ms tv\<bar> \<le> 1 / 8000" by blast
  from gap_now_error [OF assms(2)] obtain b where b: "gap_now tv' = Fin b" "0 \<le> b" "b < 2 ^ 41" "\<bar>b - exact_ms tv'\<bar> \<le> 1 / 8000" by blast
  have "\<bar>b - a\<bar> < 2 powi 41" using a(2,3) b(2,3) by (simp add: abs_less_iff)
  from rnd_error [OF this] obtain y where y: "rnd (b - a) = Fin y" "\<bar>y - (b - a)\<bar> \<le> 1 / 8192"
    by (auto simp: power_int_minus)
  have "\<bar>y - (exact_ms tv' - exact_ms tv)\<bar> \<le> 1 / 2048"
    using abs_le_D1 [OF a(4)] abs_le_D2 [OF a(4)] abs_le_D1 [OF b(4)] abs_le_D2 [OF b(4)] abs_le_D1 [OF y(2)] abs_le_D2 [OF y(2)]
    by (intro abs_leI) linarith+
  with y(1) show ?thesis by (simp add: a(1) b(1) dsub_def)
qed

type_synonym gap_event = "timeval \<times> pcap_pkthdr \<times> u8 list"

text \<open>The times of the IPv4 packets of a capture, and the gaps between neighbours.\<close>

definition gap_times :: "gap_event list \<Rightarrow> timeval list" where
  "gap_times es = map fst (filter (\<lambda>(_, _, packet). ipv4_length packet \<noteq> None) es)"

fun gaps :: "timeval list \<Rightarrow> dbl list" where
  "gaps (a # b # ts) = dsub (gap_now b) (gap_now a) # gaps (b # ts)"
| "gaps ts = []"

definition gap_means :: "gap_event list \<Rightarrow> gap_state \<Rightarrow> bool" where
  "gap_means past s \<longleftrightarrow> (\<forall>tv \<in> set (gap_times past). clock_reading tv) \<and>
     g_start s = (if gap_times past = [] then Fin (- 1) else gap_now (last (gap_times past)))"

definition gap_ok :: "gap_event list \<Rightarrow> gap_event \<Rightarrow> bool" where
  "gap_ok past = (\<lambda>(tv, pkthdr, packet). is_frame pkthdr packet \<and> clock_reading tv)"

definition gap_spec :: "gap_event list \<Rightarrow> gap_event \<Rightarrow> dbl list" where
  "gap_spec past = (\<lambda>(tv, pkthdr, packet).
     if ipv4_length packet = None \<or> gap_times past = [] then []
     else [dsub (gap_now tv) (gap_now (last (gap_times past)))])"

lemma gap_times_snoc: "gap_times (es @ [(tv, pkthdr, packet)]) = gap_times es @ (if ipv4_length packet = None then [] else [tv])"
  by (simp add: gap_times_def)

interpretation gap: capture_program gap_callback gap_means gap_ok gap_spec
proof unfold_locales
  fix past s and e :: gap_event
  assume means: "gap_means past s" and ok: "gap_ok past e"
  obtain tv pkthdr packet where e: "e = (tv, pkthdr, packet)" by (rule prod_cases3)
  from ok have frame: "is_frame pkthdr packet" and tv: "clock_reading tv" by (simp_all add: gap_ok_def e)
  define s1 where "s1 = s\<lparr>g_tot_len := c_int (g_tot_len s + uint (pkt_length pkthdr))\<rparr>"
  note F = my_callback_frame [where mid = "Inr ((), [])" and get_tl = g_tot_len and set_tl = "\<lambda>n s. s\<lparr>g_tot_len := n\<rparr>"
      and s = s, OF refl s1_def frame]
  have start: "deq (g_start s) (Fin (- 1)) \<longleftrightarrow> gap_times past = []"
  proof (cases "gap_times past = []")
    case False
    then have "clock_reading (last (gap_times past))" using means by (simp add: gap_means_def)
    from gap_now_error [OF this] False means show ?thesis by (auto simp: gap_means_def deq_def)
  qed (use means in \<open>simp add: gap_means_def deq_def\<close>)
  show "\<exists>ls s'. gap_callback e s = Inr (ls, s') \<and> data_of ls = gap_spec past e \<and> gap_means (past @ [e]) s'"
  proof (cases "ipv4_length packet")
    case None
    have "\<exists>nts. gap_callback e s = Inr (map Note nts, s1)"
      unfolding gap_callback_def e prod.case gap_handle_IP_def using F(1) F(3) [OF _ refl None] by fastforce
    then show ?thesis using None means by (auto simp: gap_spec_def e gap_means_def gap_times_snoc s1_def)
  next
    case (Some len)
    then have ip: "ip_frame packet" by (auto simp: ipv4_length_def split: if_splits)
    let ?rest = "\<lambda>_ :: unit. \<lambda>_ :: int. \<lambda>s. (let now = gap_now tv in
        if deq (g_start s) (Fin (- 1)) then Inr ([], s\<lparr>g_start := now\<rparr>)
        else Inr ([Data (dsub now (g_start s))], s\<lparr>g_start := now\<rparr>))"
    have "g_start s1 = g_start s" by (simp add: s1_def)
    then have r: "?rest () len s1 = Inr (map Data (gap_spec past e), s1\<lparr>g_start := gap_now tv\<rparr>)"
      using start Some means by (simp add: Let_def gap_spec_def gap_means_def e)
    from F(4) [OF ip refl Some, of ?rest, unfolded r] obtain nts where
      "gap_callback e s = Inr (map Note nts @ map Data (gap_spec past e), s1\<lparr>g_start := gap_now tv\<rparr>)"
      unfolding gap_callback_def e prod.case gap_handle_IP_def by auto
    moreover have "gap_means (past @ [e]) (s1\<lparr>g_start := gap_now tv\<rparr>)"
      using means Some tv by (simp add: gap_means_def gap_times_snoc e)
    ultimately show ?thesis by fastforce
  qed
qed

lemma gap_init_means: "gap_means [] gap_init"
  by (simp add: gap_means_def gap_times_def gap_init_def)

lemma gap_spec_run:
  "spec_run gap_spec past es =
     gaps ((if gap_times past = [] then [] else [last (gap_times past)]) @ gap_times es)"
proof (induction es arbitrary: past)
  case Nil
  then show ?case by (simp add: gap_times_def)
next
  case (Cons e es)
  obtain tv pkthdr packet where e: "e = (tv, pkthdr, packet)" by (rule prod_cases3)
  have "gap_times (e # es) = (if ipv4_length packet = None then [] else [tv]) @ gap_times es" by (simp add: gap_times_def e)
  then show ?case using Cons [of "past @ [e]"] by (simp add: e gap_times_snoc gap_spec_def)
qed

lemma gaps_nth: "Suc k < length ts \<Longrightarrow> k < length (gaps ts) \<and> gaps ts ! k = dsub (gap_now (ts ! Suc k)) (gap_now (ts ! k))"
  by (induction ts arbitrary: k rule: gaps.induct) (auto simp: nth_Cons split: nat.split)

lemma gap_run_clock: "run_ok gap_ok past es \<Longrightarrow> e \<in> set es \<Longrightarrow> clock_reading (fst e)"
  by (induction es arbitrary: past) (auto simp: gap_ok_def)

section \<open>Whole captures\<close>

lemma five_tuple_loop:
  assumes "\<forall>(pkthdr, packet) \<in> set es. is_frame pkthdr packet \<and> (ip_frame packet \<longrightarrow> readable packet)"
  shows "\<exists>ls s'. pcap_loop tuple_callback es s = Inr (ls, s') \<and>
    data_of ls = map (\<lambda>(_, packet). tuple_of packet) (filter (\<lambda>(_, packet). ip_frame packet) es)"
  using tuple.loop_means [OF TrueI, of "[]" es s] assms by (simp add: tuple_run_ok tuple_spec_run)

lemma gap_loop:
  assumes "run_ok gap_ok [] es"
  shows "\<exists>ls s. pcap_loop gap_callback es gap_init = Inr (ls, s) \<and> data_of ls = gaps (gap_times es) \<and>
    (\<forall>k. Suc k < length (gap_times es) \<longrightarrow> k < length (data_of ls) \<and> (\<exists>y. data_of ls ! k = Fin y \<and>
       \<bar>y - (exact_ms (gap_times es ! Suc k) - exact_ms (gap_times es ! k))\<bar> \<le> 1 / 2048))"
proof -
  have run: "spec_run gap_spec [] es = gaps (gap_times es)" by (simp add: gap_spec_run gap_times_def)
  have c: "clock_reading tv" if "tv \<in> set (gap_times es)" for tv
    using that gap_run_clock [OF assms] unfolding gap_times_def by fastforce
  have e: "k < length (gaps (gap_times es)) \<and> (\<exists>y. gaps (gap_times es) ! k = Fin y \<and>
       \<bar>y - (exact_ms (gap_times es ! Suc k) - exact_ms (gap_times es ! k))\<bar> \<le> 1 / 2048)"
    if "Suc k < length (gap_times es)" for k
    using gaps_nth [OF that] gap_error [of "gap_times es ! k" "gap_times es ! Suc k"] c that by simp
  from gap.loop_means [OF gap_init_means assms] obtain ls s where
    "pcap_loop gap_callback es gap_init = Inr (ls, s)" "data_of ls = gaps (gap_times es)" unfolding run by blast
  with e show ?thesis by auto
qed

end
