(* ===== verification/Retrans.thy ===== *)
theory Retrans
  imports Capture
begin

text \<open>
  \<open>src/benchmark/retransmission_loss.cpp\<close>: every IP frame is looked up by the four bytes at offset 38
  (where TCP has its sequence number); one seen before counts as a loss and is printed. The map
  changes before the header is checked, so this \<open>handle_IP\<close> is not an instance of the skeleton.
\<close>

text \<open>\<open>x_mp\<close>: the numbers whose entry in the map is true.\<close>

record retr_state =
  x_tot_len :: int
  x_mp :: "u32 \<Rightarrow> bool"
  x_tot_packet1 :: int
  x_loss_packet :: int

definition retr_init :: retr_state where
  "retr_init = \<lparr>x_tot_len = 0, x_mp = (\<lambda>_. False), x_tot_packet1 = 0, x_loss_packet = 0\<rparr>"

definition look_up :: "u32 \<Rightarrow> retr_state \<Rightarrow> fault + (int \<times> int) line list \<times> retr_state" where
  "look_up n s =
     (if \<not> x_mp s n then
        bindE (add_int (x_tot_packet1 s) 1) (\<lambda>t. Inr ([], s\<lparr>x_mp := (x_mp s)(n := True), x_tot_packet1 := t\<rparr>))
      else
        bindE (add_int (x_loss_packet s) 1) (\<lambda>l. Inr ([Data (l, x_tot_packet1 s)], s\<lparr>x_loss_packet := l\<rparr>)))"

definition retr_handle_IP :: "pcap_pkthdr \<Rightarrow> u8 list \<Rightarrow> retr_state \<Rightarrow> fault + (int \<times> int) line list \<times> retr_state" where
  "retr_handle_IP pkthdr packet s =
     (if ip_length pkthdr < 20 then Inr ([Note (TruncatedIp (ip_length pkthdr))], s)
      else
        bindE (ip_header packet) (\<lambda>ip.
        bindE (load32 packet 26) (\<lambda>src.
        bindE (toStringIP src) (\<lambda>_.
        bindE (load32 packet 30) (\<lambda>dst.
        bindE (toStringIP dst) (\<lambda>_.
        bindE (load32 packet 38) (\<lambda>n.
        bindE (look_up n s) (\<lambda>(ls, s').
        Inr (ls @ map Note (snd (ip_checks pkthdr ip)), s')))))))))"

definition retr_callback :: "pcap_pkthdr \<times> u8 list \<Rightarrow> retr_state \<Rightarrow> fault + (int \<times> int) line list \<times> retr_state" where
  "retr_callback = (\<lambda>(pkthdr, packet).
     my_callback pkthdr packet x_tot_len (\<lambda>n s. s\<lparr>x_tot_len := n\<rparr>) (retr_handle_IP pkthdr packet))"

end
