(* ===== verification/Programs.thy ===== *)
theory Programs
  imports Speed Nstream FiveTuple Retrans
begin

text \<open>
  The functions \<open>main\<close> of the capture programs, again one skeleton: the device is the first argument, a
  filter the second, the interval the third. \<open>libpcap\<close> is the parameter \<open>pcap\<close>: whether a device opens,
  a filter compiles and is set, and the events its loop hands to the callback until it ends.
\<close>

section \<open>The skeleton\<close>

text \<open>
  The events may depend on device, filter and, in the programs that set a timer, on its period in
  seconds and microseconds.
\<close>

record 'e pcap =
  p_open_live :: "string \<Rightarrow> bool"
  p_compile :: "string \<Rightarrow> bool"
  p_setfilter :: "string \<Rightarrow> bool"
  p_events :: "string \<Rightarrow> string option \<Rightarrow> (int \<times> int) option \<Rightarrow> 'e list"

datatype 'o main_out = Out "'o line" | OpenLiveError | CompileError | SetfilterError | Finished

text \<open>An argument as its characters, which are signed.\<close>

definition chars :: "string \<Rightarrow> int list" where
  "chars s = map (\<lambda>c. let n = int (of_char c) in if n \<ge> 128 then n - 256 else n) s"

text \<open>
  Without an argument \<open>argv[1]\<close> is null and the code prints \<open>errbuf\<close>, which nothing has written yet. The
  result is the exit status and the output.
\<close>

definition capture_main :: "'e pcap \<Rightarrow> (int \<Rightarrow> (int \<times> int) option) \<Rightarrow> (int \<Rightarrow> 'e \<Rightarrow> 's \<Rightarrow> fault + 'o line list \<times> 's)
    \<Rightarrow> 's \<Rightarrow> string list \<Rightarrow> fault + int \<times> 'o main_out list" where
  "capture_main P timer callback s argv =
     (if length argv < 2 then Inl Undefined
      else
        (let dev = argv ! 1; filter = (if length argv > 2 then Some (argv ! 2) else None) in
         if \<not> p_open_live P dev then Inr (1, [OpenLiveError])
         else if length argv > 2 \<and> \<not> p_compile P (argv ! 2) then Inr (1, [CompileError])
         else if length argv > 2 \<and> \<not> p_setfilter P (argv ! 2) then Inr (1, [SetfilterError])
         else
           bindE (if length argv > 3 then c2number (chars (argv ! 3)) else Inr 1000) (\<lambda>interval.
           bindE (pcap_loop (callback interval) (p_events P dev filter (timer interval)) s) (\<lambda>(ls, _).
           Inr (0, map Out ls @ [Finished])))))"

section \<open>The programs\<close>

definition speed_main :: "(timeval \<times> pcap_pkthdr \<times> u8 list) pcap \<Rightarrow> string list \<Rightarrow> fault + int \<times> dbl main_out list" where
  "speed_main P = capture_main P (\<lambda>_. None) speed_callback meter_init"

text \<open>\<open>file_open\<close>: whether \<open>fopen\<close>, the first statement of this \<open>main\<close>, returned a stream.\<close>

definition s2f_main :: "(timeval \<times> pcap_pkthdr \<times> u8 list) pcap \<Rightarrow> bool \<Rightarrow> string list \<Rightarrow> fault + int \<times> dbl main_out list" where
  "s2f_main P file_open = capture_main P (\<lambda>_. None) (s2f_callback file_open) meter_init"

definition nstream_main :: "event pcap \<Rightarrow> string list \<Rightarrow> fault + int \<times> (int \<times> dbl) main_out list" where
  "nstream_main P = capture_main P (\<lambda>interval. Some (nstream_init_time interval)) nstream_event streams_init"

definition burst_main :: "event pcap \<Rightarrow> string list \<Rightarrow> fault + int \<times> int main_out list" where
  "burst_main P = capture_main P (\<lambda>interval. Some (burst_init_time interval)) burst_event streams_init"

definition tuple_main :: "(pcap_pkthdr \<times> u8 list) pcap \<Rightarrow> string list \<Rightarrow> fault + int \<times> five_tuple main_out list" where
  "tuple_main P = capture_main P (\<lambda>_. None) (\<lambda>_. tuple_callback) \<lparr>f_tot_len = 0\<rparr>"

definition gap_main :: "(timeval \<times> pcap_pkthdr \<times> u8 list) pcap \<Rightarrow> string list \<Rightarrow> fault + int \<times> dbl main_out list" where
  "gap_main P = capture_main P (\<lambda>_. None) (\<lambda>_. gap_callback) gap_init"

definition retr_main :: "(pcap_pkthdr \<times> u8 list) pcap \<Rightarrow> string list \<Rightarrow> fault + int \<times> (int \<times> int) main_out list" where
  "retr_main P = capture_main P (\<lambda>_. None) (\<lambda>_. retr_callback) retr_init"

end
