(* ===== verification/Retrans_Props.thy ===== *)
theory Retrans_Props
  imports Retrans Nstream_Props
begin

text \<open>
  \<open>retransmission_loss\<close> counts repetitions: its counters are the number of different values and the
  number of repetitions among the four bytes at offset 38 of all IP frames.
\<close>

type_synonym retr_event = "pcap_pkthdr \<times> u8 list"

text \<open>The value an IP frame is looked up by, least significant byte first.\<close>

definition seq_of :: "u8 list \<Rightarrow> u32" where
  "seq_of packet = word_cat (word_cat (packet ! 41) (packet ! 40) :: u16) (word_cat (packet ! 39) (packet ! 38) :: u16)"

definition seqs :: "retr_event list \<Rightarrow> u32 list" where
  "seqs es = map (\<lambda>(_, packet). seq_of packet) (filter (\<lambda>(_, packet). ip_frame packet) es)"

lemma seqs_snoc: "seqs (es @ [(pkthdr, packet)]) = seqs es @ (if ip_frame packet then [seq_of packet] else [])"
  by (simp add: seqs_def)

definition retr_means :: "retr_event list \<Rightarrow> retr_state \<Rightarrow> bool" where
  "retr_means past s \<longleftrightarrow> (\<forall>n. x_mp s n \<longleftrightarrow> n \<in> set (seqs past)) \<and>
     x_tot_packet1 s = int (card (set (seqs past))) \<and>
     x_loss_packet s = int (length (seqs past)) - int (card (set (seqs past)))"

definition retr_ok :: "retr_event list \<Rightarrow> retr_event \<Rightarrow> bool" where
  "retr_ok past = (\<lambda>(pkthdr, packet). is_frame pkthdr packet \<and> length past < 2147483647 \<and>
     (ip_frame packet \<longrightarrow> readable packet \<and> 42 \<le> length packet))"

text \<open>A repetition prints the repetitions so far, this one included, and the different values so far.\<close>

definition retr_spec :: "retr_event list \<Rightarrow> retr_event \<Rightarrow> (int \<times> int) list" where
  "retr_spec past = (\<lambda>(_, packet).
     if ip_frame packet \<and> seq_of packet \<in> set (seqs past)
     then [(int (length (seqs past)) + 1 - int (card (set (seqs past))), int (card (set (seqs past))))] else [])"

lemma look_up_means:
  assumes "retr_means past s" and "length past < 2147483647" and "ip_frame packet"
  shows "\<exists>ls s'. look_up (seq_of packet) s = Inr (ls, s') \<and> data_of ls = retr_spec past (pkthdr, packet) \<and>
    retr_means (past @ [(pkthdr, packet)]) s'"
proof -
  let ?xs = "seqs past" and ?x = "seq_of packet"
  have l: "length ?xs \<le> length past" by (simp add: seqs_def)
  have c: "card (set ?xs) \<le> length ?xs" by (rule card_length)
  note A = assms(1) [unfolded retr_means_def]
  show ?thesis
  proof (cases "?x \<in> set ?xs")
    case True
    then have "set (?xs @ [?x]) = set ?xs" by auto
    with A assms(2,3) l c True show ?thesis
      by (auto simp: look_up_def add_int_def retr_spec_def retr_means_def seqs_snoc insert_absorb)
  next
    case False
    with A assms(2,3) l c show ?thesis
      by (auto simp: look_up_def add_int_def retr_spec_def retr_means_def seqs_snoc)
  qed
qed

interpretation retr: capture_program retr_callback retr_means retr_ok retr_spec
proof unfold_locales
  fix past s and e :: retr_event
  assume means: "retr_means past s" and ok: "retr_ok past e"
  obtain pkthdr packet where e: "e = (pkthdr, packet)" by (cases e)
  from ok have frame: "is_frame pkthdr packet" and l: "length past < 2147483647"
    and rd: "ip_frame packet \<Longrightarrow> readable packet \<and> 42 \<le> length packet"
    by (simp_all add: retr_ok_def e)
  obtain type nts where he: "handle_ethernet pkthdr packet (x_tot_len s) = Inr (type, nts, c_int (x_tot_len s + uint (pkt_length pkthdr)))"
    and type: "type = ETHERTYPE_IP \<longleftrightarrow> 14 \<le> length packet \<and> packet ! 12 = 8 \<and> packet ! 13 = 0"
    using handle_ethernet_frame [OF frame] by blast
  let ?s = "s\<lparr>x_tot_len := c_int (x_tot_len s + uint (pkt_length pkthdr))\<rparr>"
  have ms: "retr_means past ?s" using means by (simp add: retr_means_def)
  have cb: "retr_callback e s = (if type = ETHERTYPE_IP
      then bindE (retr_handle_IP pkthdr packet ?s) (\<lambda>(ls, s2). Inr (map Note nts @ ls, s2))
      else Inr (map Note nts, ?s))"
    by (simp add: retr_callback_def e my_callback_def he Let_def)
  show "\<exists>ls s'. retr_callback e s = Inr (ls, s') \<and> data_of ls = retr_spec past e \<and> retr_means (past @ [e]) s'"
  proof (cases "ip_frame packet")
    case True
    then have t: "type = ETHERTYPE_IP" and l34: "34 \<le> length packet" using type by (auto simp: ip_frame_def)
    have nt: "\<not> ip_length pkthdr < 20" using ip_length_frame [OF frame] l34 by simp
    obtain ls s' where lu: "look_up (seq_of packet) ?s = Inr (ls, s')" "data_of ls = retr_spec past (pkthdr, packet)"
      "retr_means (past @ [(pkthdr, packet)]) s'" using look_up_means [OF ms l True] by blast
    obtain src dst where sd: "load32 packet 26 = Inr src" "toStringIP src = Inr (dotted src)"
      "load32 packet 30 = Inr dst" "toStringIP dst = Inr (dotted dst)"
      using toStringIP_load [of 26 packet] toStringIP_load [of 30 packet] rd [OF True] l34 by (auto simp: readable_def)
    have "load32 packet 38 = Inr (seq_of packet)" using rd [OF True] by (simp add: load32_ok seq_of_def)
    then obtain nts' where "retr_handle_IP pkthdr packet ?s = Inr (ls @ map Note nts', s')"
      using nt sd lu(1) by (simp add: retr_handle_IP_def ip_header_ok [OF l34])
    then have "retr_callback e s = Inr (map Note nts @ ls @ map Note nts', s')" using t by (simp add: cb)
    with lu(2,3) show ?thesis by (simp add: e)
  next
    case False
    have "\<exists>nts'. retr_callback e s = Inr (map Note nts', ?s)"
    proof (cases "type = ETHERTYPE_IP")
      case True
      with type False have "14 \<le> length packet" "length packet < 34" by (simp_all add: ip_frame_def)
      then have "ip_length pkthdr < 20" using ip_length_frame [OF frame] by blast
      then have "retr_callback e s = Inr (map Note (nts @ [TruncatedIp (ip_length pkthdr)]), ?s)"
        unfolding cb using True by (simp add: retr_handle_IP_def)
      then show ?thesis by blast
    qed (auto simp: cb)
    moreover have "seqs (past @ [e]) = seqs past" "retr_spec past e = []" using False by (simp_all add: e seqs_snoc retr_spec_def)
    ultimately show ?thesis using ms by (auto simp: retr_means_def)
  qed
qed

lemma retr_init_means: "retr_means [] retr_init"
  by (simp add: retr_means_def retr_init_def seqs_def)

end
