(* ===== verification/Programs_Props.thy ===== *)
theory Programs_Props
  imports Programs FiveTuple_Props Retrans_Props
begin

text \<open>
  The programs as a whole, from the command line to the output: the arguments, the skeleton of \<open>main\<close>
  and the interface \<open>capture_program\<close> put together.
\<close>

text \<open>The library accepts what it is given.\<close>

definition pcap_works :: "'e pcap \<Rightarrow> bool" where
  "pcap_works P \<longleftrightarrow> (\<forall>s. p_open_live P s \<and> p_compile P s \<and> p_setfilter P s)"

lemma capture_main_runs:
  assumes "pcap_works P" and "chars arg = decimal n" and "n + 48 < 2147483648"
    and "pcap_loop (callback (int n)) (p_events P dev (Some flt) (timer (int n))) s = Inr (ls, s')"
  shows "capture_main P timer callback s [prog, dev, flt, arg] = Inr (0, map Out ls @ [Finished])"
proof -
  have "c2number (chars arg) = Inr (int n)" using assms(2,3) by (simp add: c2number_reads)
  with assms(1,4) show ?thesis by (simp add: capture_main_def pcap_works_def numeral_3_eq_3)
qed

lemma capture_main_faults:
  assumes "pcap_works P" and "chars arg = decimal n" and "n + 48 < 2147483648"
    and "pcap_loop (callback (int n)) (p_events P dev (Some flt) (timer (int n))) s = Inl e"
  shows "capture_main P timer callback s [prog, dev, flt, arg] = Inl e"
proof -
  have "c2number (chars arg) = Inr (int n)" using assms(2,3) by (simp add: c2number_reads)
  with assms(1,4) show ?thesis by (simp add: capture_main_def pcap_works_def numeral_3_eq_3)
qed






definition ex_pcap :: "'e list \<Rightarrow> 'e pcap" where
  "ex_pcap es = \<lparr>p_open_live = \<lambda>_. True, p_compile = \<lambda>_. True, p_setfilter = \<lambda>_. True, p_events = \<lambda>_ _ _. es\<rparr>"

lemma ex_pcap_facts: "pcap_works (ex_pcap es)" "p_events (ex_pcap es) dev flt t = es"
  by (simp_all add: ex_pcap_def pcap_works_def)

lemma ex_interval: "chars ''1000'' = decimal 1000" "(1000 :: nat) + 48 < 2147483648"
  by (simp_all add: chars_def decimal.simps)


text \<open>
  C35. \<open>count_interval\<close> prints the gaps, to within half a microsecond. Over every capture with clock readings
  before the year 2038 the program never faults and ends with status 0, and for \<open>n\<close> IPv4 packets prints the
  \<open>n - 1\<close> differences of neighbouring times; the two conversions to \<open>double\<close> and the subtraction together
  are off by at most \<open>1/2048\<close> milliseconds from the exact difference of the two clock readings.
\<close>

theorem count_interval_gaps:
  assumes "pcap_works P" and "chars arg = decimal n" and "n + 48 < 2147483648"
    and "run_ok gap_ok [] (p_events P dev (Some flt) None)" and "ts = gap_times (p_events P dev (Some flt) None)"
  shows "\<exists>ls. gap_main P [prog, dev, flt, arg] = Inr (0, map Out ls @ [Finished]) \<and> data_of ls = gaps ts \<and>
    (\<forall>k. Suc k < length ts \<longrightarrow> k < length (data_of ls) \<and> (\<exists>y. data_of ls ! k = Fin y \<and>
       \<bar>y - (exact_ms (ts ! Suc k) - exact_ms (ts ! k))\<bar> \<le> 1 / 2048))"
proof -
  from gap_loop [OF assms(4), folded assms(5)] obtain ls s where
    l: "pcap_loop gap_callback (p_events P dev (Some flt) None) gap_init = Inr (ls, s)" "data_of ls = gaps ts"
      "\<forall>k. Suc k < length ts \<longrightarrow> k < length (data_of ls) \<and> (\<exists>y. data_of ls ! k = Fin y \<and>
       \<bar>y - (exact_ms (ts ! Suc k) - exact_ms (ts ! k))\<bar> \<le> 1 / 2048)" by blast
  from capture_main_runs [where callback = "\<lambda>_. gap_callback" and timer = "\<lambda>_. None", OF assms(1-3) l(1)] l(2,3)
  show ?thesis unfolding gap_main_def by blast
qed

theorem count_interval_gaps_witness:
  "\<exists>ls y. gap_main (ex_pcap [ex_event 5, ex_event 6]) [''count_interval'', ''eth0'', ''ip'', ''1000''] =
       Inr (0, map Out ls @ [Finished]) \<and> data_of ls ! 0 = Fin y \<and> \<bar>y - 1000\<bar> \<le> 1 / 2048"
proof -
  have ok: "run_ok gap_ok [] (p_events (ex_pcap [ex_event 5, ex_event 6]) ''eth0'' (Some ''ip'') None)"
    by (simp add: ex_pcap_facts(2) gap_ok_def ex_event_def ex_frame_facts clock_reading_def)
  have t: "[\<lparr>tv_sec = 5, tv_usec = 0\<rparr>, \<lparr>tv_sec = 6, tv_usec = 0\<rparr>] =
      gap_times (p_events (ex_pcap [ex_event 5, ex_event 6]) ''eth0'' (Some ''ip'') None)"
    by (simp add: ex_pcap_facts(2) gap_times_def ex_event_def ex_frame_facts)
  from count_interval_gaps [OF ex_pcap_facts(1) ex_interval ok t, of "''count_interval''"] obtain ls where
    l: "gap_main (ex_pcap [ex_event 5, ex_event 6]) [''count_interval'', ''eth0'', ''ip'', ''1000''] = Inr (0, map Out ls @ [Finished])"
    and "\<exists>y. data_of ls ! 0 = Fin y \<and> \<bar>y - 1000\<bar> \<le> 1 / 2048" by (auto simp: exact_ms_def)
  then show ?thesis by blast
qed

text \<open>
  C36. \<open>speed2file\<close> writes the same rates, and dies when its file is not open. With the file open the program
  ends with status 0 and the rates in the file are those \<open>speed\<close> prints; when \<open>fopen\<close> failed (the path is
  \<open>/root/speed_data.txt\<close>), it follows the null stream exactly when the capture closes a window.
\<close>

theorem speed2file_null_stream:
  assumes "pcap_works P" and "chars arg = decimal n" and "n + 48 < 2147483648"
    and "run_ok (meter_ok (int n)) [] (p_events P dev (Some flt) None)"
  shows "(\<exists>ls. s2f_main P True [prog, dev, flt, arg] = Inr (0, map Out ls @ [Finished]) \<and>
      data_of ls = spec_run (meter_spec (int n)) [] (p_events P dev (Some flt) None)) \<and>
    (s2f_main P False [prog, dev, flt, arg] = Inl NullDeref \<longleftrightarrow>
      spec_run (meter_spec (int n)) [] (p_events P dev (Some flt) None) \<noteq> [])"
proof
  from s2f.loop_means [OF meter_init_means assms(4)] obtain ls m where
    l: "pcap_loop (s2f_callback True (int n)) (p_events P dev (Some flt) None) meter_init = Inr (ls, m)"
      "data_of ls = spec_run (meter_spec (int n)) [] (p_events P dev (Some flt) None)" by blast
  from capture_main_runs [where callback = "s2f_callback True" and timer = "\<lambda>_. None", OF assms(1-3) l(1)] l(2)
  show "\<exists>ls. s2f_main P True [prog, dev, flt, arg] = Inr (0, map Out ls @ [Finished]) \<and>
      data_of ls = spec_run (meter_spec (int n)) [] (p_events P dev (Some flt) None)"
    unfolding s2f_main_def by blast
  let ?run = "pcap_loop (s2f_callback False (int n)) (p_events P dev (Some flt) None) meter_init"
  have c: "?run = Inl NullDeref \<longleftrightarrow> spec_run (meter_spec (int n)) [] (p_events P dev (Some flt) None) \<noteq> []"
    by (rule s2f_loop_closed [OF meter_init_means assms(4)])
  show "s2f_main P False [prog, dev, flt, arg] = Inl NullDeref \<longleftrightarrow>
      spec_run (meter_spec (int n)) [] (p_events P dev (Some flt) None) \<noteq> []"
  proof (cases ?run)
    case (Inl e)
    from capture_main_faults [where callback = "s2f_callback False" and timer = "\<lambda>_. None", OF assms(1-3) Inl] Inl c
    show ?thesis unfolding s2f_main_def by simp
  next
    case (Inr r)
    obtain ls m where r: "r = (ls, m)" by (cases r)
    from capture_main_runs [where callback = "s2f_callback False" and timer = "\<lambda>_. None", OF assms(1-3) Inr [unfolded r]] Inr c
    show ?thesis unfolding s2f_main_def by simp
  qed
qed

theorem speed2file_null_stream_witness:
  "s2f_main (ex_pcap [ex_event 5, ex_event 6]) False [''speed2file'', ''eth0'', ''ip'', ''1000''] = Inl NullDeref"
proof -
  have ok: "run_ok (meter_ok (int 1000)) [] (p_events (ex_pcap [ex_event 5, ex_event 6]) ''eth0'' (Some ''ip'') None)"
    by (simp add: ex_pcap_facts(2) ex_events)
  have "spec_run (meter_spec (int 1000)) [] [ex_event 5, ex_event 6] \<noteq> []" unfolding of_nat_numeral ex_speed_spec by simp
  with speed2file_null_stream [OF ex_pcap_facts(1) ex_interval ok] show ?thesis unfolding ex_pcap_facts(2) by blast
qed

end
