(* ===== verification/Burst_Race.thy ===== *)
theory Burst_Race
  imports Nstream_Props
begin

text \<open>
  \<open>count_burst\<close> at the grain of its memory accesses: the signal \<open>SIGPROF\<close> may run \<open>test_func\<close> between any
  two of them, because \<open>handle_IP\<close> does not block it. The tail of \<open>handle_IP\<close> (from the lookup in \<open>mp\<close> to
  \<open>tot_packet++\<close>) becomes a step relation over the globals and a control point; \<open>a[i] += len\<close> is a load
  and a store. Calls into libraries (\<open>map\<close>, \<open>printf\<close>) are taken to be whole steps.
\<close>

section \<open>Steps\<close>

text \<open>
  Where the handler is: outside, at the lookup, before the new number is stored in \<open>mp\<close>, before the load,
  before the store of \<open>v\<close>, before \<open>tot_packet++\<close>; \<open>n\<close> is \<open>len\<close>.
\<close>

datatype point = Outside | Lookup ports int | Insert ports int | Load int int | Store int int int | Last

datatype label = Arrive ports int | Step | Stored int | Signal int

inductive burst_step :: "int \<Rightarrow> point \<times> streams \<Rightarrow> label \<Rightarrow> point \<times> streams \<Rightarrow> bool" for interval :: int where
  arrive: "burst_step interval (Outside, st) (Arrive k n) (Lookup k n, st)"
| new: "mp_get k st = 0 \<Longrightarrow> add_int (n_stream_id st) 1 = Inr i \<Longrightarrow>
    burst_step interval (Lookup k n, st) Step (Insert k n, st\<lparr>n_stream_id := i\<rparr>)"
| insert: "burst_step interval (Insert k n, st) Step
    (Load (n_stream_id st) n, st\<lparr>n_mp := (n_mp st)(k \<mapsto> n_stream_id st)\<rparr>)"
| found: "mp_get k st \<noteq> 0 \<Longrightarrow> burst_step interval (Lookup k n, st) Step (Load (mp_get k st) n, st)"
| load: "cell i = Inr a \<Longrightarrow> add_int (n_tot_ippkt_len st a) n = Inr v \<Longrightarrow>
    burst_step interval (Load i n, st) Step (Store i v n, st)"
| store: "cell i = Inr a \<Longrightarrow>
    burst_step interval (Store i v n, st) (Stored n) (Last, st\<lparr>n_tot_ippkt_len := (n_tot_ippkt_len st)(a := v)\<rparr>)"
| last: "add_int (n_tot_packet st) 1 = Inr p \<Longrightarrow>
    burst_step interval (Last, st) Step (Outside, st\<lparr>n_tot_packet := p\<rparr>)"
| signal: "burst_test_func interval st = Inr ([Data b], st') \<Longrightarrow> burst_step interval (pt, st) (Signal b) (pt, st')"

text \<open>A run lists the control points with the labels: \<open>twice\<close> needs to know where a signal came.\<close>

inductive burst_run :: "int \<Rightarrow> point \<times> streams \<Rightarrow> ((point \<times> streams) \<times> label) list \<Rightarrow> point \<times> streams \<Rightarrow> bool"
    for interval :: int where
  stop: "burst_run interval x [] x"
| move: "burst_step interval x l y \<Longrightarrow> burst_run interval y ls z \<Longrightarrow> burst_run interval x ((x, l) # ls) z"

inductive_cases outside_step: "burst_step interval (Outside, st) l y"
inductive_cases lookup_step: "burst_step interval (Lookup k n, st) l y"
inductive_cases insert_step: "burst_step interval (Insert k n, st) l y"
inductive_cases load_step: "burst_step interval (Load i n, st) l y"
inductive_cases store_step: "burst_step interval (Store i v n, st) l y"
inductive_cases last_step: "burst_step interval (Last, st) l y"

lemma burst_run_append:
  "burst_run interval x ls y \<Longrightarrow> burst_run interval y ms z \<Longrightarrow> burst_run interval x (ls @ ms) z"
  by (induction rule: burst_run.induct) (auto intro: burst_run.move)

text \<open>Without a signal the steps are the handler of the model of whole events.\<close>

lemma uninterrupted:
  assumes "bindE (stream_of k st) (\<lambda>(i, st1). count_bytes i n st1) = Inr st'"
  shows "\<exists>ls. burst_run interval (Outside, st) ls (Outside, st') \<and> (\<forall>b. Signal b \<notin> snd ` set ls) \<and>
    map snd ls = Arrive k n # (if mp_get k st = 0 then [Step, Step] else [Step]) @ [Step, Stored n, Step]"
proof -
  from assms obtain i st1 where so: "stream_of k st = Inr (i, st1)" and cb: "count_bytes i n st1 = Inr st'"
    by (auto simp: bindE_Inr_iff)
  from cb obtain a v p where c: "cell i = Inr a" "add_int (n_tot_ippkt_len st1 a) n = Inr v" "add_int (n_tot_packet st1) 1 = Inr p"
    and st': "st' = st1\<lparr>n_tot_ippkt_len := (n_tot_ippkt_len st1)(a := v), n_tot_packet := p\<rparr>"
    by (auto simp: count_bytes_def bindE_Inr_iff)
  let ?st2 = "st1\<lparr>n_tot_ippkt_len := (n_tot_ippkt_len st1)(a := v)\<rparr>"
  have "burst_step interval (Last, ?st2) Step (Outside, ?st2\<lparr>n_tot_packet := p\<rparr>)"
    by (rule burst_step.last) (use c(3) in simp)
  moreover have "?st2\<lparr>n_tot_packet := p\<rparr> = st'" by (simp add: st')
  ultimately have "burst_step interval (Last, ?st2) Step (Outside, st')" by simp
  then have tail: "burst_run interval (Load i n, st1)
      [((Load i n, st1), Step), ((Store i v n, st1), Stored n), ((Last, ?st2), Step)] (Outside, st')"
    by (rule burst_run.move [OF burst_step.load [OF c(1,2)] burst_run.move [OF burst_step.store [OF c(1)]
          burst_run.move [OF _ burst_run.stop]]])
  show ?thesis
  proof (cases "mp_get k st = 0")
    case True
    then obtain j where j: "add_int (n_stream_id st) 1 = Inr j"
      and st1: "st1 = (st\<lparr>n_stream_id := j\<rparr>)\<lparr>n_mp := (n_mp st)(k \<mapsto> j)\<rparr>" "i = j"
      using so by (auto simp: stream_of_def bindE_Inr_iff mp_get_def)
    have "burst_step interval (Insert k n, st\<lparr>n_stream_id := j\<rparr>) Step (Load i n, st1)"
      using burst_step.insert [of interval k n "st\<lparr>n_stream_id := j\<rparr>"] by (simp add: st1)
    with True j tail show ?thesis
      by (intro exI [of _ "[((Outside, st), Arrive k n), ((Lookup k n, st), Step), ((Insert k n, st\<lparr>n_stream_id := j\<rparr>), Step),
          ((Load i n, st1), Step), ((Store i v n, st1), Stored n), ((Last, ?st2), Step)]"])
        (auto intro!: burst_run.move intro: burst_step.intros)
  next
    case False
    then have st1: "st1 = st" "i = mp_get k st" using so by (auto simp: stream_of_def)
    with False tail show ?thesis
      by (intro exI [of _ "[((Outside, st), Arrive k n), ((Lookup k n, st), Step),
          ((Load i n, st1), Step), ((Store i v n, st1), Stored n), ((Last, ?st2), Step)]"])
        (auto intro!: burst_run.move intro: burst_step.intros)
  qed
qed

section \<open>The account\<close>

text \<open>
  What the signals printed, what the handler counted, and what was printed while the handler held an
  older value of the same counter in a register.
\<close>

definition printed :: "((point \<times> streams) \<times> label) list \<Rightarrow> int" where
  "printed ls = sum_list (map (\<lambda>(_, l). case l of Signal b \<Rightarrow> b | _ \<Rightarrow> 0) ls)"

definition counted :: "((point \<times> streams) \<times> label) list \<Rightarrow> int" where
  "counted ls = sum_list (map (\<lambda>(_, l). case l of Stored n \<Rightarrow> n | _ \<Rightarrow> 0) ls)"

definition held :: "point \<times> streams \<Rightarrow> int" where
  "held x = (case x of (Store i v n, st) \<Rightarrow> n_tot_ippkt_len st (nat i) | _ \<Rightarrow> 0)"

definition twice :: "((point \<times> streams) \<times> label) list \<Rightarrow> int" where
  "twice ls = sum_list (map (\<lambda>(x, l). case l of Signal _ \<Rightarrow> held x | _ \<Rightarrow> 0) ls)"

definition waiting_bytes :: "streams \<Rightarrow> int" where
  "waiting_bytes st = sum_list (map (\<lambda>i. n_tot_ippkt_len st (nat i)) [1 .. n_stream_id st])"

text \<open>Stream numbers are in range and unused counters zero; the control point holds a number in use.\<close>

definition table_ok :: "streams \<Rightarrow> bool" where
  "table_ok st \<longleftrightarrow> 0 \<le> n_stream_id st \<and> (\<forall>k i. n_mp st k = Some i \<longrightarrow> 1 \<le> i \<and> i \<le> n_stream_id st) \<and>
     (\<forall>a. n_stream_id st < int a \<longrightarrow> n_tot_ippkt_len st a = 0)"

definition point_ok :: "point \<Rightarrow> streams \<Rightarrow> bool" where
  "point_ok pt st = (case pt of
     Insert _ _ \<Rightarrow> 1 \<le> n_stream_id st
   | Load i _ \<Rightarrow> 1 \<le> i \<and> i \<le> n_stream_id st
   | Store i _ _ \<Rightarrow> 1 \<le> i \<and> i \<le> n_stream_id st
   | _ \<Rightarrow> True)"

text \<open>What the register is ahead of the counter, apart from the packet being counted.\<close>

definition ahead :: "point \<times> streams \<Rightarrow> int" where
  "ahead x = (case x of (Store i v n, st) \<Rightarrow> v - n - n_tot_ippkt_len st (nat i) | _ \<Rightarrow> 0)"

lemma roll_stream_effect:
  assumes "roll_stream interval i st = Inr (r, st')"
  shows "0 \<le> i \<and> n_tot_ippkt_len st' = (n_tot_ippkt_len st)(nat i := 0) \<and> n_stream_id st' = n_stream_id st \<and> n_mp st' = n_mp st"
  using assms by (auto simp: roll_stream_def bindE_Inr_iff Let_def cell_def split: if_splits)

lemma burst_loop_effect:
  assumes "burst_loop interval ids t st = Inr (b, st')" and "distinct ids" and "\<forall>i \<in> set ids. 0 \<le> i"
  shows "b = t + sum_list (map (\<lambda>i. n_tot_ippkt_len st (nat i)) ids) \<and>
    (\<forall>a. n_tot_ippkt_len st' a = (if int a \<in> set ids then 0 else n_tot_ippkt_len st a)) \<and>
    n_stream_id st' = n_stream_id st \<and> n_mp st' = n_mp st"
  using assms
proof (induction ids arbitrary: t st)
  case (Cons i ids)
  from Cons.prems obtain r st1 where roll: "roll_stream interval i st = Inr (r, st1)"
    and rest: "burst_loop interval ids (t + n_tot_ippkt_len st (nat i)) st1 = Inr (b, st')"
    by (auto simp: bindE_Inr_iff cell_def add_int_def split: if_splits)
  note E = roll_stream_effect [OF roll]
  have same: "map (\<lambda>j. n_tot_ippkt_len st1 (nat j)) ids = map (\<lambda>j. n_tot_ippkt_len st (nat j)) ids"
    using E Cons.prems(2,3) by (auto simp: nat_eq_iff)
  have "\<forall>a. n_tot_ippkt_len st' a = (if int a \<in> set ids then 0 else n_tot_ippkt_len st1 a)"
    using Cons.IH [OF rest] Cons.prems(2,3) by simp
  moreover have "int a = i \<longleftrightarrow> a = nat i" for a using E by auto
  moreover have "b = t + n_tot_ippkt_len st (nat i) + sum_list (map (\<lambda>j. n_tot_ippkt_len st (nat j)) ids)"
    using Cons.IH [OF rest] Cons.prems(2,3) unfolding same by simp
  moreover have "n_stream_id st' = n_stream_id st \<and> n_mp st' = n_mp st"
    using Cons.IH [OF rest] Cons.prems(2,3) E by simp
  ultimately show ?case using E by simp
qed simp

text \<open>What the signal handler does: it prints the sum of the counters in use and clears them.\<close>

lemma burst_signal_effect:
  assumes "burst_test_func interval st = Inr ([Data b], st')" and "table_ok st"
  shows "b = waiting_bytes st" and "n_tot_ippkt_len st' a = (if 1 \<le> a then 0 else n_tot_ippkt_len st a)"
    and "n_stream_id st' = n_stream_id st" and "n_mp st' = n_mp st"
proof -
  from assms(1) have "burst_loop interval [1 .. n_stream_id st] 0 st = Inr (b, st')"
    by (auto simp: burst_test_func_def bindE_Inr_iff)
  from burst_loop_effect [OF this] have E: "b = waiting_bytes st"
    "\<forall>a. n_tot_ippkt_len st' a = (if int a \<in> set [1 .. n_stream_id st] then 0 else n_tot_ippkt_len st a)"
    "n_stream_id st' = n_stream_id st" "n_mp st' = n_mp st" by (auto simp: waiting_bytes_def)
  then show "b = waiting_bytes st" "n_stream_id st' = n_stream_id st" "n_mp st' = n_mp st" by simp_all
  show "n_tot_ippkt_len st' a = (if 1 \<le> a then 0 else n_tot_ippkt_len st a)"
    using E(2) assms(2) by (auto simp: table_ok_def)
qed

lemma waiting_zero: "(\<And>a. 1 \<le> a \<Longrightarrow> n_tot_ippkt_len st a = 0) \<Longrightarrow> waiting_bytes st = 0"
  by (auto simp: waiting_bytes_def interv_sum_list_conv_sum_set_int intro!: sum.neutral)

lemma sum_list_update_id:
  fixes f :: "nat \<Rightarrow> int"
  assumes "1 \<le> i" and "i \<le> m"
  shows "sum_list (map (\<lambda>j. (f(nat i := v)) (nat j)) [1 .. m]) = sum_list (map (\<lambda>j. f (nat j)) [1 .. m]) + v - f (nat i)"
proof -
  have "(\<Sum>j \<in> {1 .. m}. (f(nat i := v)) (nat j)) = (\<Sum>j \<in> {1 .. m}. f (nat j) + (if j = i then v - f (nat i) else 0))"
    using assms by (intro sum.cong) (auto simp: nat_eq_iff)
  also have "\<dots> = (\<Sum>j \<in> {1 .. m}. f (nat j)) + (v - f (nat i))"
    using assms by (simp add: sum.distrib)
  finally show ?thesis by (simp add: interv_sum_list_conv_sum_set_int)
qed

lemma waiting_update:
  assumes "1 \<le> i" and "i \<le> n_stream_id st"
  shows "waiting_bytes (st\<lparr>n_tot_ippkt_len := (n_tot_ippkt_len st)(nat i := v)\<rparr>) =
    waiting_bytes st + v - n_tot_ippkt_len st (nat i)"
  using sum_list_update_id [OF assms] by (simp add: waiting_bytes_def)

lemma waiting_new_stream:
  assumes "table_ok st" and "i = n_stream_id st + 1"
  shows "waiting_bytes (st\<lparr>n_stream_id := i\<rparr>) = waiting_bytes st"
proof -
  have "[1 .. i] = [1 .. n_stream_id st] @ [i]"
    using assms upto_rec2 [of 1 i] by (simp add: table_ok_def)
  moreover have "n_tot_ippkt_len st (nat i) = 0" using assms by (simp add: table_ok_def)
  ultimately show ?thesis by (simp add: waiting_bytes_def)
qed

lemma cell_eq: "cell i = Inr a \<Longrightarrow> a = nat i"
  by (auto simp: cell_def split: if_splits)

lemma burst_step_account:
  assumes "burst_step interval x l y" and "table_ok (snd x)" and "point_ok (fst x) (snd x)"
  shows "table_ok (snd y) \<and> point_ok (fst y) (snd y) \<and>
    printed [(x, l)] + waiting_bytes (snd y) + ahead y + counted [] =
      waiting_bytes (snd x) + ahead x + counted [(x, l)] + twice [(x, l)]"
  using assms
proof (induction rule: burst_step.induct)
  case (new k st i n)
  then have i: "i = n_stream_id st + 1" by (auto simp: add_int_def split: if_splits)
  have "table_ok (st\<lparr>n_stream_id := i\<rparr>)" using new.prems(1) i by (fastforce simp: table_ok_def)
  moreover have "1 \<le> i" using new.prems(1) i by (simp add: table_ok_def)
  ultimately show ?case using waiting_new_stream [OF _ i] new.prems(1)
    by (simp add: point_ok_def printed_def counted_def twice_def ahead_def)
next
  case (insert k n st)
  then show ?case
    by (auto simp: table_ok_def point_ok_def printed_def counted_def twice_def ahead_def waiting_bytes_def)
next
  case (found k st n)
  then obtain i where "n_mp st k = Some i" "mp_get k st = i" by (auto simp: mp_get_def split: option.splits)
  moreover from this found.prems(1) have "1 \<le> i" "i \<le> n_stream_id st" unfolding table_ok_def snd_conv by blast+
  ultimately show ?case using found.prems(1)
    by (simp add: point_ok_def printed_def counted_def twice_def ahead_def)
next
  case (load i a st n v)
  from cell_eq [OF load.hyps(1)] load.hyps(2) have "v = n_tot_ippkt_len st (nat i) + n"
    by (simp add: add_int_def split: if_splits)
  with load show ?case by (auto simp: point_ok_def printed_def counted_def twice_def ahead_def)
next
  case (store i a v n st)
  from cell_eq [OF store.hyps] store.prems waiting_update [of i st v] show ?case
    by (auto simp: table_ok_def point_ok_def printed_def counted_def twice_def ahead_def)
next
  case (last st p)
  then show ?case
    by (auto simp: table_ok_def point_ok_def printed_def counted_def twice_def ahead_def waiting_bytes_def)
next
  case (signal st b st' pt)
  then have ok: "table_ok st" by simp
  note E = burst_signal_effect [OF signal.hyps ok]
  have "table_ok st'" using ok E(2-4) by (auto simp: table_ok_def)
  moreover have "point_ok pt st'" using signal.prems(2) E(3) by (auto simp: point_ok_def split: point.splits)
  moreover have "waiting_bytes st' = 0" by (rule waiting_zero) (simp add: E(2))
  moreover have "ahead (pt, st') = ahead (pt, st) + held (pt, st)"
    using signal.prems(2) E(2) by (auto simp: ahead_def held_def point_ok_def split: point.splits)
  ultimately show ?case using E(1) by (simp add: printed_def counted_def twice_def)
qed (auto simp: point_ok_def printed_def counted_def twice_def ahead_def)

lemma account_Cons:
  "printed (e # ls) = printed [e] + printed ls" "counted (e # ls) = counted [e] + counted ls"
  "twice (e # ls) = twice [e] + twice ls" "counted [] = 0" "printed [] = 0" "twice [] = 0"
  by (simp_all add: printed_def counted_def twice_def)

lemma burst_run_account:
  assumes "burst_run interval x ls y" and "table_ok (snd x)" and "point_ok (fst x) (snd x)"
  shows "printed ls + waiting_bytes (snd y) + ahead y = waiting_bytes (snd x) + ahead x + counted ls + twice ls"
  using assms
proof (induction rule: burst_run.induct)
  case (move x l y ls z)
  note A = burst_step_account [OF move.hyps(1) move.prems]
  from A move.IH show ?case unfolding account_Cons(1-3) [of "(x, l)" ls] by (simp add: account_Cons(4))
qed (simp add: account_Cons)

text \<open>
  C27. What an interrupted handler does to the measurement. Over every interleaving of packets and timer
  signals, signals in the middle of the packet handler included, the sums \<open>count_burst\<close> prints, with the
  bytes still waiting, are the bytes counted plus, for every signal between the load and the store of
  \<open>tot_ippkt_len[now_id] += len\<close>, the bytes of that stream before the packet: the store puts back the
  counter the signal has printed and cleared, so they are printed twice. No other point of the handler
  loses or repeats a byte.
\<close>

theorem burst_interrupted:
  assumes "burst_run interval (Outside, streams_init) ls (Outside, st)"
  shows "printed ls + waiting_bytes st = counted ls + twice ls \<and>
    ((\<forall>i v n s b. ((Store i v n, s), Signal b) \<notin> set ls) \<longrightarrow> twice ls = 0)"
proof
  have "table_ok streams_init" "point_ok Outside streams_init" by (simp_all add: table_ok_def streams_init_def point_ok_def)
  moreover have "waiting_bytes streams_init = 0" by (simp add: waiting_bytes_def streams_init_def)
  ultimately show "printed ls + waiting_bytes st = counted ls + twice ls"
    using burst_run_account [OF assms] by (simp add: ahead_def)
  show "(\<forall>i v n s b. ((Store i v n, s), Signal b) \<notin> set ls) \<longrightarrow> twice ls = 0"
  proof
    assume none: "\<forall>i v n s b. ((Store i v n, s), Signal b) \<notin> set ls"
    have "(case e of (x, l) \<Rightarrow> case l of Signal _ \<Rightarrow> held x | _ \<Rightarrow> 0) = 0" if "e \<in> set ls" for e
    proof -
      obtain pt s l where e: "e = ((pt, s), l)" by (cases e) auto
      with that none have "\<not> (\<exists>i v n b. pt = Store i v n \<and> l = Signal b)" by blast
      then show ?thesis by (cases l; cases pt) (auto simp: e held_def)
    qed
    then have m: "map (\<lambda>(x, l). case l of Signal _ \<Rightarrow> held x | _ \<Rightarrow> 0) ls = map (\<lambda>_. 0) ls" by (rule map_cong [OF refl])
    show "twice ls = 0" unfolding twice_def m by simp
  qed
qed

definition ex_race1 :: streams where
  "ex_race1 = streams_init\<lparr>n_stream_id := 1, n_mp := [(5, 6) \<mapsto> 1], n_tot_ippkt_len := (\<lambda>_. 0)(1 := 100), n_tot_packet := 1\<rparr>"

lemma ex_race_signal:
  "\<exists>st'. burst_test_func 1000 ex_race1 = Inr ([Data 100], st') \<and> n_tot_packet st' = 1"
proof -
  let ?tot = "\<lambda>k. if k = (5, 6) then 100 else (0 :: int)"
  have t: "stream_table [(5, 6)] ?tot (\<lambda>_. []) ex_race1"
    by (auto simp: stream_table_def ex_race1_def streams_init_def recent_def)
  have pre: "0 \<le> length [(5, 6) :: ports]" "\<forall>k :: ports. NaN \<notin> set []" "(1000 :: int) \<noteq> 0" "\<bar>1000 :: int\<bar> < 2 ^ 53"
    by simp_all
  have ids: "[1 .. n_stream_id ex_race1] = map (\<lambda>j. int j + 1) [0 ..< length [(5, 6) :: ports]]"
    by (simp add: ex_race1_def upto.simps)
  show ?thesis
    using roll_loops [OF t pre]
  proof (elim exE conjE, goal_cases)
    case (1 st')
    have b: "\<forall>j. 0 \<le> j \<and> j \<le> length [(5, 6) :: ports] \<longrightarrow>
        \<bar>0 + (\<Sum>k \<leftarrow> take (j - 0) (drop 0 [(5, 6)]). ?tot k)\<bar> < 2147483648"
      by (auto simp: le_Suc_eq)
    have "burst_loop 1000 [1 .. n_stream_id ex_race1] 0 ex_race1 = Inr (100, st')"
      unfolding ids 1(2) [THEN spec, of 0, THEN mp, OF b] by simp
    with 1(4) show ?case by (simp add: burst_test_func_def ex_race1_def)
  qed
qed

theorem burst_interrupted_witness:
  "\<exists>ls st. burst_run 1000 (Outside, streams_init) ls (Outside, st) \<and>
     counted ls = 200 \<and> twice ls = 100 \<and> printed ls + waiting_bytes st = 300"
proof -
  have "bindE (stream_of (5, 6) streams_init) (\<lambda>(i, st1). count_bytes i 100 st1) = Inr ex_race1"
    by (simp add: stream_of_def count_bytes_def streams_init_def mp_get_def add_int_def cell_def qn_def ex_race1_def)
  from exE [OF uninterrupted [OF this, of 1000]] obtain ls1 where run1: "burst_run 1000 (Outside, streams_init) ls1 (Outside, ex_race1)"
    and "map snd ls1 = Arrive (5, 6) 100 # (if mp_get (5, 6) streams_init = 0 then [Step, Step] else [Step]) @ [Step, Stored 100, Step]"
    by metis
  then have l1: "map snd ls1 = [Arrive (5, 6) 100, Step, Step, Step, Stored 100, Step]"
    by (simp add: mp_get_def streams_init_def)
  obtain st' where sig: "burst_test_func 1000 ex_race1 = Inr ([Data 100], st')" and p: "n_tot_packet st' = 1"
    using ex_race_signal by blast
  let ?st = "st'\<lparr>n_tot_ippkt_len := (n_tot_ippkt_len st')(1 := 200)\<rparr>" and ?at = "Store 1 200 100"
  let ?ls2 = "[((Outside, ex_race1), Arrive (5, 6) 100), ((Lookup (5, 6) 100, ex_race1), Step), ((Load 1 100, ex_race1), Step),
    ((?at, ex_race1), Signal 100), ((?at, st'), Stored 100), ((Last, ?st), Step)]"
  have m: "mp_get (5, 6) ex_race1 = 1" by (simp add: mp_get_def ex_race1_def)
  have 1: "burst_step 1000 (Lookup (5, 6) 100, ex_race1) Step (Load 1 100, ex_race1)"
    using burst_step.found [of "(5, 6)" ex_race1 1000 100] m by simp
  have 2: "burst_step 1000 (Load 1 100, ex_race1) Step (?at, ex_race1)"
    by (rule burst_step.load) (simp_all add: cell_def qn_def add_int_def ex_race1_def)
  have 3: "burst_step 1000 (?at, st') (Stored 100) (Last, ?st)"
    by (rule burst_step.store) (simp add: cell_def qn_def)
  have 4: "burst_step 1000 (Last, ?st) Step (Outside, ?st\<lparr>n_tot_packet := 2\<rparr>)"
    by (rule burst_step.last) (simp add: p add_int_def)
  have "burst_run 1000 (Outside, ex_race1) ?ls2 (Outside, ?st\<lparr>n_tot_packet := 2\<rparr>)"
    by (rule burst_run.move [OF burst_step.arrive burst_run.move [OF 1 burst_run.move [OF 2
      burst_run.move [OF burst_step.signal [OF sig] burst_run.move [OF 3 burst_run.move [OF 4 burst_run.stop]]]]]])
  with run1 have run: "burst_run 1000 (Outside, streams_init) (ls1 @ ?ls2) (Outside, ?st\<lparr>n_tot_packet := 2\<rparr>)"
    by (rule burst_run_append)
  have c1: "counted ls1 = sum_list (map (\<lambda>l. case l of Stored n \<Rightarrow> n | _ \<Rightarrow> 0) (map snd ls1))"
    unfolding counted_def map_map by (rule arg_cong [of _ _ sum_list]) (auto split: label.splits)
  have "\<forall>l \<in> set (map snd ls1). \<forall>b. l \<noteq> Signal b" unfolding l1 by simp
  then have t1: "twice ls1 = 0" using burst_interrupted [OF run1] by force
  have "counted (ls1 @ ?ls2) = 200" using c1 unfolding l1 by (simp add: counted_def)
  moreover have "twice (ls1 @ ?ls2) = 100" using t1 by (simp add: twice_def held_def ex_race1_def)
  ultimately show ?thesis using burst_interrupted [OF run] run by (intro exI conjI) auto
qed

end
