(* ===== verification/Signals.thy ===== *)
theory Signals
  imports Programs
begin

text \<open>
  The capture programs as processes: \<open>main\<close> is a list of statements, and between any two of them, and
  between any two packets of \<open>pcap_loop\<close>, a signal may come. \<open>signal\<close> and \<open>sigaction\<close> set the disposition of
  \<open>SIGINT\<close> and \<open>SIGPROF\<close>, whose default is to kill the process; \<open>SIGPROF\<close> comes only while the interval timer is
  armed. The handlers run to their end here; the theory \<open>Burst_Race\<close> has the signal in the middle of a
  packet.
\<close>

section \<open>The process\<close>

datatype signal = SIGINT | SIGPROF

text \<open>
  A handler that ends the process yields its exit status and may look at the stream \<open>p\<close> of \<open>speed2file\<close>
  (whether it is open); the handler of the timer works on the globals.
\<close>

datatype ('o, 's) action =
    SIG_DFL
  | Exits "bool \<Rightarrow> fault + int"
  | Runs "int \<Rightarrow> 's \<Rightarrow> fault + 'o line list \<times> 's"

text \<open>The statements of \<open>main\<close>, with what they pass on.\<close>

datatype ('f, 'o, 's) stmt =
    Signal_int "bool \<Rightarrow> fault + int"
  | Fopen bool
  | Open_live
  | Set_filter
  | Interval
  | Init_sigaction "int \<Rightarrow> 's \<Rightarrow> fault + 'o line list \<times> 's"
  | Init_time "int \<Rightarrow> int \<times> int"
  | Loop "bool \<Rightarrow> int \<Rightarrow> 'f \<Rightarrow> 's \<Rightarrow> fault + 'o line list \<times> 's"

record ('o, 's) setting =
  sa_int :: "('o, 's) action"
  sa_prof :: "('o, 's) action"
  itimer :: "(int \<times> int) option"
  stream_open :: bool
  ms_interval :: int

record ('f, 'o, 's) process = "('o, 's) setting" +
  todo :: "('f, 'o, 's) stmt list"
  globals :: 's
  written :: "'o line list"

datatype ('f, 'o, 's) config =
    Running "('f, 'o, 's) process"
  | Exited int "'o main_out list"
  | Killed signal
  | Faulted fault

definition start_process :: "('f, 'o, 's) stmt list \<Rightarrow> 's \<Rightarrow> ('f, 'o, 's) process" where
  "start_process main s = \<lparr>sa_int = SIG_DFL, sa_prof = SIG_DFL, itimer = None, stream_open = False, ms_interval = 1000,
     todo = main, globals = s, written = []\<rparr>"

text \<open>
  \<open>setitimer\<close>, as the system documents it: a field out of range is an error and changes nothing, a period of
  zero disarms the timer.
\<close>

definition setitimer :: "int \<times> int \<Rightarrow> (int \<times> int) option \<Rightarrow> (int \<times> int) option" where
  "setitimer val old =
     (case val of (sec, usec) \<Rightarrow>
        if sec < 0 \<or> usec < 0 \<or> 1000000 \<le> usec then old else if sec = 0 \<and> usec = 0 then None else Some val)"

section \<open>Statements and signals\<close>

definition write_out :: "('f, 'o, 's) process \<Rightarrow> fault + 'o line list \<times> 's \<Rightarrow> ('f, 'o, 's) config" where
  "write_out p r =
     (case r of Inl e \<Rightarrow> Faulted e | Inr (ls, s) \<Rightarrow> Running (p\<lparr>globals := s, written := written p @ ls\<rparr>))"

definition init_sigaction :: "(int \<Rightarrow> 's \<Rightarrow> fault + 'o line list \<times> 's) \<Rightarrow> ('f, 'o, 's) process \<Rightarrow> ('f, 'o, 's) process" where
  "init_sigaction test_func p = p\<lparr>sa_prof := Runs test_func\<rparr>"

text \<open>
  A statement. \<open>exit(1)\<close> after an error of the library prints its message. At the loop this is the step with
  which \<open>pcap_loop\<close> returns.
\<close>

definition exec_stmt :: "'e pcap \<Rightarrow> string list \<Rightarrow> ('f, 'o, 's) stmt \<Rightarrow> ('f, 'o, 's) process \<Rightarrow> ('f, 'o, 's) config" where
  "exec_stmt P argv st p =
     (let fail = (\<lambda>err. Exited 1 (map Out (written p) @ [err])) in
      case st of
        Signal_int handler \<Rightarrow> Running (p\<lparr>sa_int := Exits handler\<rparr>)
      | Fopen is_open \<Rightarrow> Running (p\<lparr>stream_open := is_open\<rparr>)
      | Open_live \<Rightarrow>
          if length argv < 2 then Faulted Undefined
          else if \<not> p_open_live P (argv ! 1) then fail OpenLiveError
          else Running p
      | Set_filter \<Rightarrow>
          if length argv > 2 \<and> \<not> p_compile P (argv ! 2) then fail CompileError
          else if length argv > 2 \<and> \<not> p_setfilter P (argv ! 2) then fail SetfilterError
          else Running p
      | Interval \<Rightarrow>
          if length argv > 3 then
            (case c2number (chars (argv ! 3)) of
               Inl e \<Rightarrow> Faulted e
             | Inr interval \<Rightarrow> Running (p\<lparr>ms_interval := interval\<rparr>))
          else Running p
      | Init_sigaction test_func \<Rightarrow> Running (init_sigaction test_func p)
      | Init_time init_time \<Rightarrow> Running (p\<lparr>itimer := setitimer (init_time (ms_interval p)) (itimer p)\<rparr>)
      | Loop callback \<Rightarrow> Running p)"

text \<open>A signal, by its disposition.\<close>

definition deliver :: "signal \<Rightarrow> ('f, 'o, 's) process \<Rightarrow> ('f, 'o, 's) config" where
  "deliver sg p =
     (case (case sg of SIGINT \<Rightarrow> sa_int p | SIGPROF \<Rightarrow> sa_prof p) of
        SIG_DFL \<Rightarrow> Killed sg
      | Exits handler \<Rightarrow>
          (case handler (stream_open p) of Inl e \<Rightarrow> Faulted e | Inr status \<Rightarrow> Exited status (map Out (written p)))
      | Runs test_func \<Rightarrow> write_out p (test_func (ms_interval p) (globals p)))"

datatype 'f move = Next | Got 'f | Deliver signal

inductive proc_step :: "'e pcap \<Rightarrow> string list \<Rightarrow> ('f, 'o, 's) config \<Rightarrow> 'f move \<Rightarrow> ('f, 'o, 's) config \<Rightarrow> bool"
  for P :: "'e pcap" and argv :: "string list" where
  stmt: "todo p = st # sts \<Longrightarrow> proc_step P argv (Running p) Next (exec_stmt P argv st (p\<lparr>todo := sts\<rparr>))"
| return: "todo p = [] \<Longrightarrow> proc_step P argv (Running p) Next (Exited 0 (map Out (written p) @ [Finished]))"
| packet: "todo p = Loop callback # sts \<Longrightarrow>
    proc_step P argv (Running p) (Got f) (write_out p (callback (stream_open p) (ms_interval p) f (globals p)))"
| sigint: "proc_step P argv (Running p) (Deliver SIGINT) (deliver SIGINT p)"
| sigprof: "itimer p \<noteq> None \<Longrightarrow> proc_step P argv (Running p) (Deliver SIGPROF) (deliver SIGPROF p)"

inductive proc_run :: "'e pcap \<Rightarrow> string list \<Rightarrow> ('f, 'o, 's) config \<Rightarrow> 'f move list \<Rightarrow> ('f, 'o, 's) config \<Rightarrow> bool"
  for P :: "'e pcap" and argv :: "string list" and c0 :: "('f, 'o, 's) config" where
  begin_run: "proc_run P argv c0 [] c0"
| add_step: "proc_run P argv c0 ls c \<Longrightarrow> proc_step P argv c l c' \<Longrightarrow> proc_run P argv c0 (ls @ [l]) c'"

inductive_cases running_step: "proc_step P argv (Running p) l c"
inductive_simps ended_step [simp]:
  "proc_step P argv (Exited st out) l c" "proc_step P argv (Killed sg) l c" "proc_step P argv (Faulted e) l c"
inductive_simps stmt_step: "proc_step P argv (Running p) Next c"
inductive_simps packet_step: "proc_step P argv (Running p) (Got f) c"
inductive_simps signal_step: "proc_step P argv (Running p) (Deliver sg) c"
inductive_cases no_step_run: "proc_run P argv c0 [] c"

text \<open>What a run brought: the packets and, as \<open>None\<close>, the expiries of the timer.\<close>

definition happened :: "'f move list \<Rightarrow> 'f option list" where
  "happened ls = concat (map (\<lambda>l. case l of Got f \<Rightarrow> [Some f] | Deliver SIGPROF \<Rightarrow> [None] | _ \<Rightarrow> []) ls)"

section \<open>The programs\<close>

definition exit_handler :: "bool \<Rightarrow> fault + int" where
  "exit_handler _ = Inr 0"

text \<open>\<open>speed2file\<close> closes its stream, which is null until \<open>fopen\<close> has succeeded.\<close>

definition s2f_handler :: "bool \<Rightarrow> fault + int" where
  "s2f_handler is_open = (if is_open then Inr 0 else Inl NullDeref)"

text \<open>
  The globals a process starts with are those of the functions \<open>main\<close>; the loop of \<open>nstream\<close> and \<open>count_burst\<close> that
  sets \<open>start\<close> and \<open>nxt\<close> runs before anything reads them and is part of \<open>streams_init\<close>.
\<close>

definition nstream_process :: "(pcap_pkthdr \<times> u8 list, int \<times> dbl, streams) stmt list" where
  "nstream_process =
     [Signal_int exit_handler, Open_live, Set_filter, Interval, Init_sigaction nstream_test_func, Init_time nstream_init_time,
      Loop (\<lambda>_ _ (pkthdr, packet). nstream_callback pkthdr packet)]"

definition burst_process :: "(pcap_pkthdr \<times> u8 list, int, streams) stmt list" where
  "burst_process =
     [Signal_int exit_handler, Open_live, Set_filter, Interval, Init_sigaction burst_test_func, Init_time burst_init_time,
      Loop (\<lambda>_ _ (pkthdr, packet). burst_callback pkthdr packet)]"

definition speed_process :: "(timeval \<times> pcap_pkthdr \<times> u8 list, dbl, meter) stmt list" where
  "speed_process = [Signal_int exit_handler, Open_live, Set_filter, Interval, Loop (\<lambda>_. speed_callback)]"

definition s2f_process :: "bool \<Rightarrow> (timeval \<times> pcap_pkthdr \<times> u8 list, dbl, meter) stmt list" where
  "s2f_process file_open =
     [Signal_int s2f_handler, Fopen file_open, Open_live, Set_filter, Interval, Loop s2f_callback]"

definition tuple_process :: "(pcap_pkthdr \<times> u8 list, five_tuple, tuple_state) stmt list" where
  "tuple_process = [Signal_int exit_handler, Open_live, Set_filter, Interval, Loop (\<lambda>_ _. tuple_callback)]"

definition retr_process :: "(pcap_pkthdr \<times> u8 list, int \<times> int, retr_state) stmt list" where
  "retr_process = [Signal_int exit_handler, Open_live, Set_filter, Interval, Loop (\<lambda>_ _. retr_callback)]"

text \<open>\<open>count_interval\<close> has no handler.\<close>

definition gap_process :: "(timeval \<times> pcap_pkthdr \<times> u8 list, dbl, gap_state) stmt list" where
  "gap_process = [Open_live, Set_filter, Interval, Loop (\<lambda>_ _. gap_callback)]"

end
