(* ===== verification/Signals_Props.thy ===== *)
theory Signals_Props
  imports Signals Programs_Props
begin

text \<open>
  What signals do to the capture programs. A \<open>main\<close> is a part that sets up and a loop; the interface
  \<open>capture_process\<close> says that the first statement installs the handler of \<open>SIGINT\<close> and that the timer is armed by
  the last statement before the loop, after its handler. Its lemmas follow a process through any run.
\<close>

section \<open>Settings\<close>

definition configure :: "string list \<Rightarrow> ('f, 'o, 's) stmt \<Rightarrow> ('o, 's) setting \<Rightarrow> ('o, 's) setting" where
  "configure argv st c =
     (case st of
        Signal_int handler \<Rightarrow> c\<lparr>sa_int := Exits handler\<rparr>
      | Fopen is_open \<Rightarrow> c\<lparr>stream_open := is_open\<rparr>
      | Interval \<Rightarrow>
          if length argv > 3 then
            (case c2number (chars (argv ! 3)) of Inl e \<Rightarrow> c | Inr interval \<Rightarrow> c\<lparr>ms_interval := interval\<rparr>)
          else c
      | Init_sigaction test_func \<Rightarrow> c\<lparr>sa_prof := Runs test_func\<rparr>
      | Init_time init_time \<Rightarrow> c\<lparr>itimer := setitimer (init_time (ms_interval c)) (itimer c)\<rparr>
      | _ \<Rightarrow> c)"

definition settings :: "string list \<Rightarrow> ('f, 'o, 's) stmt list \<Rightarrow> ('o, 's) setting" where
  "settings argv sts = fold (configure argv) sts
     \<lparr>sa_int = SIG_DFL, sa_prof = SIG_DFL, itimer = None, stream_open = False, ms_interval = 1000\<rparr>"

lemma settings_snoc [simp]: "settings argv (sts @ [st]) = configure argv st (settings argv sts)"
  by (simp add: settings_def)

lemma settings_Nil [simp]: "settings argv [] =
    \<lparr>sa_int = SIG_DFL, sa_prof = SIG_DFL, itimer = None, stream_open = False, ms_interval = 1000\<rparr>"
  by (simp add: settings_def)

lemma configure_loop [simp]: "configure argv (Loop callback) c = c"
  by (simp add: configure_def)

lemma setting_of [simp]:
  "sa_int (setting.truncate p) = sa_int p" "sa_prof (setting.truncate p) = sa_prof p" "itimer (setting.truncate p) = itimer p"
  "stream_open (setting.truncate p) = stream_open p" "ms_interval (setting.truncate p) = ms_interval p"
  by (simp_all add: setting.defs)

lemma setting_of_update [simp]:
  "setting.truncate (p\<lparr>todo := sts\<rparr>) = setting.truncate p" "setting.truncate (p\<lparr>globals := s\<rparr>) = setting.truncate p"
  "setting.truncate (p\<lparr>written := out\<rparr>) = setting.truncate p"
  by (simp_all add: setting.defs)

lemma exec_running:
  assumes "exec_stmt P argv st p = Running p'"
  shows "setting.truncate p' = configure argv st (setting.truncate p) \<and> todo p' = todo p \<and> globals p' = globals p \<and>
    written p' = written p"
  using assms by (cases st)
    (auto simp: exec_stmt_def init_sigaction_def configure_def Let_def setting.defs split: if_splits sum.splits)

lemma exec_loop: "exec_stmt P argv (Loop callback) p = Running p"
  by (simp add: exec_stmt_def)

lemma pcap_loop_snoc:
  "pcap_loop step (es @ [e]) s =
     bindE (pcap_loop step es s) (\<lambda>(ls, s'). bindE (step e s') (\<lambda>(ls', t). Inr (ls @ ls', t)))"
proof (induction es arbitrary: s)
  case Nil
  show ?case by (cases "step e s") auto
next
  case (Cons e' es)
  show ?case by (cases "step e' s") (auto simp: Cons bindE_def split: sum.splits)
qed

lemma pcap_loop_map: "pcap_loop step (map g es) s = pcap_loop (\<lambda>e. step (g e)) es s"
  by (induction es arbitrary: s) simp_all

lemma happened_simps [simp]:
  "happened [] = []" "happened (ls @ [Next]) = happened ls" "happened (ls @ [Got f]) = happened ls @ [Some f]"
  "happened (ls @ [Deliver SIGINT]) = happened ls" "happened (ls @ [Deliver SIGPROF]) = happened ls @ [None]"
  by (simp_all add: happened_def)

lemma past_end:
  assumes "xs @ [x] = ys @ y # zs" and "length xs \<le> length ys"
  shows "ys = xs \<and> y = x"
proof -
  have "length zs = 0" using arg_cong [OF assms(1), of length] assms(2) by simp
  with assms(1) show ?thesis by simp
qed

section \<open>The interface of a process\<close>

definition on_event :: "(int \<Rightarrow> 's \<Rightarrow> fault + 'o line list \<times> 's) \<Rightarrow> (bool \<Rightarrow> int \<Rightarrow> 'f \<Rightarrow> 's \<Rightarrow> fault + 'o line list \<times> 's)
    \<Rightarrow> ('o, 's) setting \<Rightarrow> 'f option \<Rightarrow> 's \<Rightarrow> fault + 'o line list \<times> 's" where
  "on_event test_func callback c e =
     (case e of None \<Rightarrow> test_func (ms_interval c) | Some f \<Rightarrow> callback (stream_open c) (ms_interval c) f)"

definition no_loop :: "('f, 'o, 's) stmt \<Rightarrow> bool" where
  "no_loop st = (case st of Loop _ \<Rightarrow> False | _ \<Rightarrow> True)"

text \<open>
  A process that has been given the command line of a measurement: what it has written, or wrote when it ended,
  is \<open>xs\<close>. Only \<open>SIGINT\<close>, as the very first move, kills it.
\<close>

definition reports :: "'f move list \<Rightarrow> 'o list \<Rightarrow> ('f, 'o, 's) config \<Rightarrow> bool" where
  "reports ls xs c \<longleftrightarrow>
     (\<exists>p. c = Running p \<and> data_of (written p) = xs) \<or> (ls = [Deliver SIGINT] \<and> c = Killed SIGINT) \<or>
     (\<exists>out. ls \<noteq> [] \<and> data_of out = xs \<and>
        c = Exited 0 (map Out out @ (if last ls = Deliver SIGINT then [] else [Finished])))"

text \<open>
  A process may be interrupted: whatever run brings the events \<open>hs\<close>, the report is \<open>xs\<close>; and some run brings
  them and then ends at \<open>SIGINT\<close>.
\<close>

definition interruptible :: "'e pcap \<Rightarrow> string list \<Rightarrow> ('f, 'o, 's) stmt list \<Rightarrow> 's \<Rightarrow> 'f option list \<Rightarrow> 'o list \<Rightarrow> bool" where
  "interruptible P argv main s hs xs \<longleftrightarrow>
     (\<forall>ls c. proc_run P argv (Running (start_process main s)) ls c \<and> happened ls = hs \<longrightarrow> reports ls xs c) \<and>
     (\<exists>ls out. proc_run P argv (Running (start_process main s)) (ls @ [Deliver SIGINT]) (Exited 0 (map Out out)) \<and>
        happened ls = hs \<and> data_of out = xs)"

locale capture_process =
  fixes pre :: "('f, 'o, 's) stmt list"
    and handler :: "bool \<Rightarrow> fault + int"
    and test_func :: "int \<Rightarrow> 's \<Rightarrow> fault + 'o line list \<times> 's"
    and callback :: "bool \<Rightarrow> int \<Rightarrow> 'f \<Rightarrow> 's \<Rightarrow> fault + 'o line list \<times> 's"
  assumes sets_up: "pre \<noteq> [] \<and> list_all no_loop pre"
    and handles: "pre = sts @ sts' \<Longrightarrow> sts \<noteq> [] \<Longrightarrow> sa_int (settings argv sts) = Exits handler"
    and times: "pre = sts @ sts' \<Longrightarrow> itimer (settings argv sts) \<noteq> None \<Longrightarrow>
      sts' = [] \<and> sa_prof (settings argv sts) = Runs test_func"
begin

text \<open>Where a process is: it has done a first part of \<open>main\<close>, and events came only after the set-up.\<close>

definition proc_inv :: "string list \<Rightarrow> 's \<Rightarrow> 'f move list \<Rightarrow> ('f, 'o, 's) process \<Rightarrow> bool" where
  "proc_inv argv s ls p \<longleftrightarrow> (\<exists>sts. pre @ [Loop callback] = sts @ todo p \<and> setting.truncate p = settings argv sts \<and>
     (sts = [] \<longrightarrow> ls = []) \<and> (happened ls \<noteq> [] \<longrightarrow> settings argv sts = settings argv pre \<and> length pre \<le> length sts)) \<and>
     pcap_loop (on_event test_func callback (settings argv pre)) (happened ls) s = Inr (written p, globals p)"

lemma done_parts:
  assumes "pre @ [Loop callback] = sts @ sts'"
  shows "(\<exists>mid. pre = sts @ mid \<and> sts' = mid @ [Loop callback]) \<or> (sts = pre @ [Loop callback] \<and> sts' = [])"
  using assms by (cases sts' rule: rev_cases) auto

lemma at_loop:
  assumes "pre @ [Loop callback] = sts @ Loop cb # sts'"
  shows "sts = pre \<and> cb = callback \<and> sts' = []"
proof -
  from done_parts [OF assms] obtain mid where m: "pre = sts @ mid" "Loop cb # sts' = mid @ [Loop callback]" by auto
  then have "mid = []" using sets_up by (cases mid) (auto simp: no_loop_def)
  with m show ?thesis by simp
qed

lemma armed:
  assumes "pre @ [Loop callback] = sts @ sts'" and "itimer (settings argv sts) \<noteq> None"
  shows "settings argv sts = settings argv pre \<and> length pre \<le> length sts \<and> sa_prof (settings argv pre) = Runs test_func"
  using done_parts [OF assms(1)]
proof
  assume "\<exists>mid. pre = sts @ mid \<and> sts' = mid @ [Loop callback]"
  then obtain mid where "pre = sts @ mid" by blast
  with times [OF this assms(2)] show ?thesis by simp
next
  assume "sts = pre @ [Loop callback] \<and> sts' = []"
  with times [of pre "[]" argv] assms(2) show ?thesis by simp
qed

lemma handled:
  assumes "pre @ [Loop callback] = sts @ sts'" and "sts \<noteq> []"
  shows "sa_int (settings argv sts) = Exits handler"
  using done_parts [OF assms(1)] assms(2) handles [of _ _ argv] sets_up by auto

lemma inv_start: "proc_inv argv s [] (start_process (pre @ [Loop callback]) s)"
  by (simp add: proc_inv_def start_process_def setting.defs)

lemma inv_step:
  assumes "proc_inv argv s ls p" and "proc_step P argv (Running p) l (Running p')"
  shows "proc_inv argv s (ls @ [l]) p'"
proof -
  from assms(1) obtain sts where sts: "pre @ [Loop callback] = sts @ todo p" "setting.truncate p = settings argv sts"
      "sts = [] \<longrightarrow> ls = []" "happened ls \<noteq> [] \<longrightarrow> settings argv sts = settings argv pre \<and> length pre \<le> length sts"
    and lp: "pcap_loop (on_event test_func callback (settings argv pre)) (happened ls) s = Inr (written p, globals p)"
    unfolding proc_inv_def by blast
  have fields: "itimer p = itimer (settings argv sts)" "sa_prof p = sa_prof (settings argv sts)" "sa_int p = sa_int (settings argv sts)"
      "ms_interval p = ms_interval (settings argv sts)" "stream_open p = stream_open (settings argv sts)"
    by (simp_all flip: sts(2))
  show ?thesis
    using assms(2)
  proof (cases rule: proc_step.cases)
    case (stmt st sts')
    from exec_running [OF stmt(2) [symmetric]] have r: "setting.truncate p' = configure argv st (settings argv sts)"
      "todo p' = sts'" "globals p' = globals p" "written p' = written p" by (simp_all add: sts(2))
    have "settings argv (sts @ [st]) = settings argv pre \<and> length pre \<le> length (sts @ [st])" if "happened ls \<noteq> []"
    proof -
      from that sts(4) have "length pre \<le> length sts" by simp
      with past_end sts(1) stmt have "sts = pre \<and> st = Loop callback" by metis
      then show ?thesis by simp
    qed
    with r stmt sts(1) lp show ?thesis unfolding proc_inv_def by (intro conjI exI [of _ "sts @ [st]"]) simp_all
  next
    case (packet cb sts' f)
    have d: "sts = pre" "cb = callback" using at_loop sts(1) packet by auto
    with packet fields lp sts show ?thesis
      unfolding proc_inv_def by (intro conjI exI [of _ sts])
        (auto simp: write_out_def pcap_loop_snoc on_event_def sets_up split: sum.splits)
  next
    case sigint
    have "sts = [] \<or> sa_int p = Exits handler" using handled [OF sts(1)] fields by auto
    with sigint fields show ?thesis by (auto simp: deliver_def split: sum.splits)
  next
    case sigprof
    have "itimer (settings argv sts) \<noteq> None" using sigprof(3) fields(1) by simp
    from armed [OF sts(1) this] fields(2) have a: "settings argv sts = settings argv pre" "length pre \<le> length sts" "sa_prof p = Runs test_func"
      by simp_all
    have "sts \<noteq> []" using a(2) sets_up by auto
    with sigprof fields(4,5) lp sts a show ?thesis
      unfolding proc_inv_def by (intro conjI exI [of _ sts])
        (auto simp: write_out_def deliver_def pcap_loop_snoc on_event_def split: sum.splits)
  qed
qed

lemma run_inv:
  assumes "proc_run P argv (Running (start_process (pre @ [Loop callback]) s)) ls (Running p)"
  shows "proc_inv argv s ls p"
proof -
  have "proc_run P argv (Running (start_process (pre @ [Loop callback]) s)) ls c \<Longrightarrow> c = Running p \<Longrightarrow> proc_inv argv s ls p" for c
  proof (induction arbitrary: p rule: proc_run.induct)
    case begin_run
    then show ?case using inv_start by auto
  next
    case (add_step ls c l c')
    then show ?case by (cases c) (auto intro: inv_step)
  qed
  with assms show ?thesis by blast
qed

text \<open>How a process ends: from a running one, by the last move.\<close>

lemma last_move:
  assumes "proc_run P argv (Running p0) ls c" and "\<nexists>p. c = Running p"
  shows "\<exists>ls' l p. ls = ls' @ [l] \<and> proc_run P argv (Running p0) ls' (Running p) \<and> proc_step P argv (Running p) l c"
  using assms
proof (cases rule: proc_run.cases)
  case (add_step ls' c' l)
  then show ?thesis by (cases c') auto
qed simp

text \<open>
  The fate of a process whose set-up meets no error and whose loop meets no fault: it runs, or has ended with
  what the events so far have it write. Only the default action of \<open>SIGINT\<close>, before the first statement, kills it.
\<close>

lemma fate:
  assumes "proc_run P argv (Running (start_process (pre @ [Loop callback]) s)) ls c"
    and "\<And>st p. st \<in> set pre \<Longrightarrow> \<exists>p'. exec_stmt P argv st p = Running (p' :: ('f, 'o, 's) process)"
    and "pcap_loop (on_event test_func callback (settings argv pre)) (happened ls) s = Inr (out, t)"
    and "\<And>b. handler b = Inr 0"
  shows "(\<exists>p. c = Running p \<and> written p = out) \<or> (ls = [Deliver SIGINT] \<and> c = Killed SIGINT) \<or>
    (ls \<noteq> [] \<and> c = Exited 0 (map Out out @ (if last ls = Deliver SIGINT then [] else [Finished])))"
proof (cases "\<exists>p. c = Running p")
  case True
  then obtain p where c: "c = Running p" by blast
  from run_inv [OF assms(1) [unfolded c]] assms(3) have "written p = out" by (simp add: proc_inv_def)
  with c show ?thesis by blast
next
  case False
  from last_move [OF assms(1) False] obtain ls' l p where ls: "ls = ls' @ [l]"
    and run: "proc_run P argv (Running (start_process (pre @ [Loop callback]) s)) ls' (Running p)"
    and step: "proc_step P argv (Running p) l c" by blast
  from run_inv [OF run] obtain sts where sts: "pre @ [Loop callback] = sts @ todo p" "setting.truncate p = settings argv sts"
      "sts = [] \<longrightarrow> ls' = []"
    and lp: "pcap_loop (on_event test_func callback (settings argv pre)) (happened ls') s = Inr (written p, globals p)"
    unfolding proc_inv_def by blast
  have fields: "itimer p = itimer (settings argv sts)" "sa_prof p = sa_prof (settings argv sts)" "sa_int p = sa_int (settings argv sts)"
      "ms_interval p = ms_interval (settings argv sts)" "stream_open p = stream_open (settings argv sts)"
    by (simp_all flip: sts(2))
  from step show ?thesis
  proof (cases rule: proc_step.cases)
    case (stmt st sts')
    with sts(1) have "st \<in> set (pre @ [Loop callback])" by simp
    then have "st \<in> set pre \<or> st = Loop callback" by auto
    then obtain p' where "exec_stmt P argv st (p\<lparr>todo := sts'\<rparr>) = Running p'"
      using assms(2) exec_loop by blast
    with stmt False show ?thesis by simp
  next
    case return
    with ls lp assms(3) show ?thesis by simp
  next
    case (packet cb sts' f)
    have d: "sts = pre" "cb = callback" using at_loop sts(1) packet by auto
    with packet fields lp assms(3) False show ?thesis
      by (auto simp: ls write_out_def pcap_loop_snoc on_event_def split: sum.splits)
  next
    case sigint
    have "sts = [] \<or> sa_int p = Exits handler" using handled [OF sts(1)] fields by auto
    with sigint fields sts(3) ls lp assms(3,4) show ?thesis by (auto simp: deliver_def)
  next
    case sigprof
    have "itimer (settings argv sts) \<noteq> None" using sigprof(3) fields(1) by simp
    from armed [OF sts(1) this] fields(2) have a: "settings argv sts = settings argv pre" "sa_prof p = Runs test_func"
      by simp_all
    with sigprof fields(4,5) lp assms(3) False show ?thesis
      by (auto simp: ls write_out_def deliver_def pcap_loop_snoc on_event_def split: sum.splits)
  qed
qed

lemma fate_reports:
  assumes "proc_run P argv (Running (start_process (pre @ [Loop callback]) s)) ls c"
    and "\<And>st p. st \<in> set pre \<Longrightarrow> \<exists>p'. exec_stmt P argv st p = Running (p' :: ('f, 'o, 's) process)"
    and "pcap_loop (on_event test_func callback (settings argv pre)) (happened ls) s = Inr (out, t)" and "data_of out = xs"
    and "\<And>b. handler b = Inr 0"
  shows "reports ls xs c"
  using fate [OF assms(1-3,5)] assms(4) unfolding reports_def by blast

text \<open>A running process that \<open>SIGINT\<close> meets: killed before its first statement, ended by its handler afterwards.\<close>

lemma interrupted:
  assumes "proc_run P argv (Running (start_process (pre @ [Loop callback]) s)) ls (Running p)"
  shows "proc_step P argv (Running p) (Deliver SIGINT) c \<longleftrightarrow> c =
    (if todo p = pre @ [Loop callback] then Killed SIGINT
     else case handler (stream_open p) of Inl e \<Rightarrow> Faulted e | Inr status \<Rightarrow> Exited status (map Out (written p)))"
proof -
  from run_inv [OF assms] obtain sts where sts: "pre @ [Loop callback] = sts @ todo p" "setting.truncate p = settings argv sts"
    unfolding proc_inv_def by blast
  have f: "sa_int p = sa_int (settings argv sts)" by (simp flip: sts(2))
  show ?thesis
  proof (cases "sts = []")
    case True
    with sts(1) f show ?thesis by (simp add: signal_step deliver_def)
  next
    case False
    with handled [OF sts(1) False, of argv] sts(1) f show ?thesis by (auto simp: signal_step deliver_def)
  qed
qed

text \<open>Without a timer only packets happen.\<close>

lemma only_packets:
  assumes "proc_run P argv (Running (start_process (pre @ [Loop callback]) s)) ls c"
    and "\<And>sts sts'. pre = sts @ sts' \<Longrightarrow> itimer (settings argv sts) = None"
  shows "Deliver SIGPROF \<notin> set ls"
  using assms(1)
proof (induction rule: proc_run.induct)
  case (add_step ls c l c')
  have "l \<noteq> Deliver SIGPROF"
  proof
    assume l: "l = Deliver SIGPROF"
    with add_step(2) obtain p where p: "c = Running p" "itimer p \<noteq> None" by (cases c) (auto simp: signal_step)
    from run_inv [OF add_step(1) [unfolded p(1)]] obtain sts where sts: "pre @ [Loop callback] = sts @ todo p"
      "setting.truncate p = settings argv sts" unfolding proc_inv_def by blast
    have "itimer (settings argv sts) = None" using done_parts [OF sts(1)] assms(2) [of sts] assms(2) [of pre "[]"] by auto
    moreover have "itimer p = itimer (settings argv sts)" by (simp flip: sts(2))
    ultimately show False using p by simp
  qed
  with add_step(3) show ?case by simp
qed simp

text \<open>Conversely the set-up, and then any events, are a run.\<close>

lemma set_up_run:
  assumes "\<And>st p. st \<in> set pre \<Longrightarrow> \<exists>p'. exec_stmt P argv st p = Running (p' :: ('f, 'o, 's) process)"
    and "pre = sts @ sts'"
  shows "\<exists>ls p. proc_run P argv (Running (start_process (pre @ [Loop callback]) s)) ls (Running p) \<and> happened ls = [] \<and>
    todo p = sts' @ [Loop callback]"
  using assms(2)
proof (induction sts arbitrary: sts' rule: rev_induct)
  case Nil
  then show ?case
    by (intro exI [of _ "[]"] exI [of _ "start_process (pre @ [Loop callback]) s"])
      (auto simp: start_process_def intro: proc_run.begin_run)
next
  case (snoc st sts)
  from snoc.IH [of "st # sts'"] snoc.prems obtain ls p where
    r: "proc_run P argv (Running (start_process (pre @ [Loop callback]) s)) ls (Running p)" "happened ls = []"
      "todo p = st # sts' @ [Loop callback]" by auto
  from snoc.prems assms(1) obtain p' where p': "exec_stmt P argv st (p\<lparr>todo := sts' @ [Loop callback]\<rparr>) = Running p'"
    by force
  from proc_run.add_step [OF r(1) proc_step.stmt [OF r(3)]] r(2) exec_running [OF p'] show ?case
    unfolding p' by (intro exI [of _ "ls @ [Next]"] exI [of _ p']) simp
qed

lemma events_run:
  assumes "proc_run P argv (Running (start_process (pre @ [Loop callback]) s)) ls (Running p)"
    and "todo p = [Loop callback]" and "happened ls = []"
    and "pcap_loop (on_event test_func callback (settings argv pre)) hs s = Inr (out, t)"
    and "None \<in> set hs \<longrightarrow> itimer (settings argv pre) \<noteq> None"
  shows "\<exists>ls' p'. proc_run P argv (Running (start_process (pre @ [Loop callback]) s)) ls' (Running p') \<and> happened ls' = hs \<and>
    todo p' = [Loop callback]"
  using assms(4,5)
proof (induction hs arbitrary: out t rule: rev_induct)
  case Nil
  with assms(1-3) show ?case by auto
next
  case (snoc e hs)
  from snoc.prems(1) obtain out1 t1 out2 where
    hs: "pcap_loop (on_event test_func callback (settings argv pre)) hs s = Inr (out1, t1)"
    and e: "on_event test_func callback (settings argv pre) e t1 = Inr (out2, t)"
    by (auto simp: pcap_loop_snoc bindE_Inr_iff)
  from snoc.IH [OF hs] snoc.prems(2) obtain ls' p' where
    r: "proc_run P argv (Running (start_process (pre @ [Loop callback]) s)) ls' (Running p')" "happened ls' = hs"
      "todo p' = [Loop callback]" by auto
  from run_inv [OF r(1)] hs have inv: "setting.truncate p' = settings argv pre" "globals p' = t1" and wr: "written p' = out1"
    unfolding proc_inv_def r(2,3) by auto
  let ?q = "p'\<lparr>globals := t, written := written p' @ out2\<rparr>"
  have f: "ms_interval p' = ms_interval (settings argv pre)" "stream_open p' = stream_open (settings argv pre)"
    "itimer p' = itimer (settings argv pre)" "sa_prof p' = sa_prof (settings argv pre)" by (simp_all flip: inv(1))
  show ?case
  proof (cases e)
    case None
    then have "itimer p' \<noteq> None" using snoc.prems(2) f(3) by simp
    moreover have "sa_prof p' = Runs test_func" using times [of pre "[]" argv] calculation f(3,4) by simp
    then have "deliver SIGPROF p' = Running ?q" using e None inv(2) f(1) by (simp add: deliver_def write_out_def on_event_def)
    ultimately have "proc_step P argv (Running p') (Deliver SIGPROF) (Running ?q)" using proc_step.sigprof by metis
    from proc_run.add_step [OF r(1) this] r(2,3) None show ?thesis
      by (intro exI [of _ "ls' @ [Deliver SIGPROF]"] exI [of _ ?q]) simp
  next
    case (Some f')
    from proc_step.packet [OF r(3), of P argv f'] e Some inv(2) f(1,2)
    have "proc_step P argv (Running p') (Got f') (Running ?q)" by (simp add: write_out_def on_event_def)
    from proc_run.add_step [OF r(1) this] r(2,3) Some show ?thesis
      by (intro exI [of _ "ls' @ [Got f']"] exI [of _ ?q]) simp
  qed
qed

lemma may_be_interrupted:
  assumes "\<And>st p. st \<in> set pre \<Longrightarrow> \<exists>p'. exec_stmt P argv st p = Running (p' :: ('f, 'o, 's) process)"
    and "pcap_loop (on_event test_func callback (settings argv pre)) hs s = Inr (out, t)" and "data_of out = xs"
    and "None \<in> set hs \<longrightarrow> itimer (settings argv pre) \<noteq> None" and "\<And>b. handler b = Inr 0"
  shows "interruptible P argv (pre @ [Loop callback]) s hs xs"
proof -
  from set_up_run [OF assms(1), of pre "[]" s] obtain ls p where
    "proc_run P argv (Running (start_process (pre @ [Loop callback]) s)) ls (Running p)" "happened ls = []"
    "todo p = [Loop callback]" by auto
  from events_run [OF this(1,3,2) assms(2,4)] obtain ls' p' where
    r: "proc_run P argv (Running (start_process (pre @ [Loop callback]) s)) ls' (Running p')" "happened ls' = hs"
      "todo p' = [Loop callback]" by blast
  have "written p' = out"
    using run_inv [OF r(1)] assms(2) unfolding proc_inv_def r(2,3) by auto
  with assms(5) interrupted [OF r(1)] r(3) sets_up have "proc_step P argv (Running p') (Deliver SIGINT) (Exited 0 (map Out out))"
    by simp
  from proc_run.add_step [OF r(1) this] r(2) assms(3)
  have "\<exists>ls out. proc_run P argv (Running (start_process (pre @ [Loop callback]) s)) (ls @ [Deliver SIGINT]) (Exited 0 (map Out out)) \<and>
    happened ls = hs \<and> data_of out = xs" by blast
  then show ?thesis using fate_reports [OF _ assms(1)] assms(2,3,5) unfolding interruptible_def by blast
qed

end

section \<open>The programs\<close>

definition timed_set_up :: "(bool \<Rightarrow> fault + int) \<Rightarrow> (int \<Rightarrow> 's \<Rightarrow> fault + 'o line list \<times> 's) \<Rightarrow> (int \<Rightarrow> int \<times> int)
    \<Rightarrow> ('f, 'o, 's) stmt list" where
  "timed_set_up handler test_func init_time =
     [Signal_int handler, Open_live, Set_filter, Interval, Init_sigaction test_func, Init_time init_time]"

definition plain_set_up :: "(bool \<Rightarrow> fault + int) \<Rightarrow> bool option \<Rightarrow> ('f, 'o, 's) stmt list" where
  "plain_set_up handler file =
     Signal_int handler # (case file of None \<Rightarrow> [] | Some is_open \<Rightarrow> [Fopen is_open]) @ [Open_live, Set_filter, Interval]"

lemmas configure_parts = settings_def configure_def Cons_eq_append_conv

lemma timed_process: "capture_process (timed_set_up handler test_func init_time) handler test_func"
proof
  fix sts sts' argv
  assume eq: "timed_set_up handler test_func init_time = sts @ sts'"
  show "sts \<noteq> [] \<Longrightarrow> sa_int (settings argv sts) = Exits handler"
    using eq by (auto simp: timed_set_up_def configure_parts split: sum.splits)
  show "itimer (settings argv sts) \<noteq> None \<Longrightarrow> sts' = [] \<and> sa_prof (settings argv sts) = Runs test_func"
    using eq by (auto simp: timed_set_up_def configure_parts split: sum.splits if_splits)
qed (simp add: timed_set_up_def no_loop_def)

lemma plain_timer: "plain_set_up handler file = sts @ sts' \<Longrightarrow> itimer (settings argv sts) = None"
  by (auto simp: plain_set_up_def configure_parts split: sum.splits option.splits)

lemma plain_handler: "plain_set_up handler file = sts @ sts' \<Longrightarrow> sts \<noteq> [] \<Longrightarrow> sa_int (settings argv sts) = Exits handler"
  by (auto simp: plain_set_up_def configure_parts split: sum.splits option.splits)

lemma plain_process: "capture_process (plain_set_up handler file) handler test_func"
proof (unfold_locales, goal_cases)
  case 1
  show ?case by (simp add: plain_set_up_def no_loop_def split: option.splits)
next
  case 2
  then show ?case by (rule plain_handler)
next
  case 3
  then show ?case by (simp add: plain_timer)
qed

interpretation nstream_proc: capture_process "timed_set_up exit_handler nstream_test_func nstream_init_time" exit_handler
    nstream_test_func "\<lambda>_ _ (pkthdr, packet). nstream_callback pkthdr packet"
  by (rule timed_process)

interpretation burst_proc: capture_process "timed_set_up exit_handler burst_test_func burst_init_time" exit_handler
    burst_test_func "\<lambda>_ _ (pkthdr, packet). burst_callback pkthdr packet"
  by (rule timed_process)

interpretation speed_proc: capture_process "plain_set_up exit_handler None" exit_handler test_func "\<lambda>_. speed_callback" for test_func
  by (rule plain_process)

interpretation s2f_proc: capture_process "plain_set_up s2f_handler (Some file_open)" s2f_handler test_func s2f_callback
    for file_open test_func
  by (rule plain_process)

interpretation tuple_proc: capture_process "plain_set_up exit_handler None" exit_handler test_func "\<lambda>_ _. tuple_callback"
    for test_func
  by (rule plain_process)

interpretation retr_proc: capture_process "plain_set_up exit_handler None" exit_handler test_func "\<lambda>_ _. retr_callback"
    for test_func
  by (rule plain_process)

lemma process_parts:
  "nstream_process = timed_set_up exit_handler nstream_test_func nstream_init_time @ [Loop (\<lambda>_ _ (pkthdr, packet). nstream_callback pkthdr packet)]"
  "burst_process = timed_set_up exit_handler burst_test_func burst_init_time @ [Loop (\<lambda>_ _ (pkthdr, packet). burst_callback pkthdr packet)]"
  "speed_process = plain_set_up exit_handler None @ [Loop (\<lambda>_. speed_callback)]"
  "s2f_process file_open = plain_set_up s2f_handler (Some file_open) @ [Loop s2f_callback]"
  "tuple_process = plain_set_up exit_handler None @ [Loop (\<lambda>_ _. tuple_callback)]"
  "retr_process = plain_set_up exit_handler None @ [Loop (\<lambda>_ _. retr_callback)]"
  by (simp_all add: nstream_process_def burst_process_def speed_process_def s2f_process_def tuple_process_def retr_process_def
      timed_set_up_def plain_set_up_def)

section \<open>What is reported\<close>

lemma set_up_runs:
  assumes "pcap_works P" and "chars arg = decimal n" and "n + 48 < 2147483648"
  shows "st \<in> set (timed_set_up handler test_func init_time) \<Longrightarrow> \<exists>p'. exec_stmt P [prog, dev, flt, arg] st p = Running p'"
    and "st' \<in> set (plain_set_up handler file) \<Longrightarrow> \<exists>p'. exec_stmt P [prog, dev, flt, arg] st' q = Running p'"
  using assms by (auto simp: timed_set_up_def plain_set_up_def exec_stmt_def pcap_works_def c2number_reads numeral_3_eq_3
      split: option.splits)

lemma set_up_interval:
  assumes "chars arg = decimal n" and "n + 48 < 2147483648"
  shows "ms_interval (settings [prog, dev, flt, arg] (timed_set_up handler test_func init_time)) = int n"
    "ms_interval (settings [prog, dev, flt, arg] (plain_set_up handler file)) = int n"
    "stream_open (settings [prog, dev, flt, arg] (plain_set_up handler file)) = (file = Some True)"
  using assms by (auto simp: timed_set_up_def plain_set_up_def configure_parts c2number_reads numeral_3_eq_3 split: option.splits)

text \<open>The events of a run of \<open>nstream\<close> or \<open>count_burst\<close>.\<close>

definition stream_events :: "(pcap_pkthdr \<times> u8 list) option list \<Rightarrow> event list" where
  "stream_events hs = map (\<lambda>e. case e of None \<Rightarrow> Expiry | Some (pkthdr, packet) \<Rightarrow> Packet pkthdr packet) hs"

text \<open>The packets of a run of a program without a timer.\<close>

definition packets :: "'f move list \<Rightarrow> 'f list" where
  "packets ls = concat (map (\<lambda>l. case l of Got f \<Rightarrow> [f] | _ \<Rightarrow> []) ls)"

lemma happened_packets: "Deliver SIGPROF \<notin> set ls \<Longrightarrow> happened ls = map Some (packets ls)"
  by (induction ls) (auto simp: happened_def packets_def split: move.splits signal.splits)

lemma stream_events_loop:
  "pcap_loop (on_event nstream_test_func (\<lambda>_ _ (pkthdr, packet). nstream_callback pkthdr packet) c) hs s =
     pcap_loop (nstream_event (ms_interval c)) (stream_events hs) s"
  "pcap_loop (on_event burst_test_func (\<lambda>_ _ (pkthdr, packet). burst_callback pkthdr packet) c') hs s =
     pcap_loop (burst_event (ms_interval c')) (stream_events hs) s"
proof -
  have "on_event nstream_test_func (\<lambda>_ _ (pkthdr, packet). nstream_callback pkthdr packet) c =
      (\<lambda>e. nstream_event (ms_interval c) (case e of None \<Rightarrow> Expiry | Some (pkthdr, packet) \<Rightarrow> Packet pkthdr packet))"
    "on_event burst_test_func (\<lambda>_ _ (pkthdr, packet). burst_callback pkthdr packet) c' =
      (\<lambda>e. burst_event (ms_interval c') (case e of None \<Rightarrow> Expiry | Some (pkthdr, packet) \<Rightarrow> Packet pkthdr packet))"
    by (auto simp: on_event_def fun_eq_iff split: option.splits)
  then show "pcap_loop (on_event nstream_test_func (\<lambda>_ _ (pkthdr, packet). nstream_callback pkthdr packet) c) hs s =
      pcap_loop (nstream_event (ms_interval c)) (stream_events hs) s"
    "pcap_loop (on_event burst_test_func (\<lambda>_ _ (pkthdr, packet). burst_callback pkthdr packet) c') hs s =
      pcap_loop (burst_event (ms_interval c')) (stream_events hs) s"
    by (simp_all only: stream_events_def pcap_loop_map)
qed

lemma timer_armed:
  assumes "chars arg = decimal n" and "0 < n" and "n + 48 < 2147483648"
  shows "itimer (settings [prog, dev, flt, arg] (timed_set_up handler test_func nstream_init_time)) \<noteq> None"
    "itimer (settings [prog, dev, flt, arg] (timed_set_up handler test_func burst_init_time)) \<noteq> None"
proof -
  have i: "int n sdiv 1000 = int (n div 1000)" "int n smod 1000 = int (n mod 1000)"
    using assms(2) by (simp_all add: signed_divide_int_def signed_modulo_int_def zdiv_int zmod_int)
  have "n div 1000 \<noteq> 0 \<or> n mod 1000 \<noteq> 0" using assms(2) by (metis div_mult_mod_eq add_0 mult_0 neq0_conv)
  moreover have "n mod 1000 < 1000" by simp
  ultimately have "setitimer (nstream_init_time (int n)) None \<noteq> None" "setitimer (burst_init_time (int n)) None \<noteq> None"
    by (auto simp: setitimer_def nstream_init_time_def burst_init_time_def i)
  then show "itimer (settings [prog, dev, flt, arg] (timed_set_up handler test_func nstream_init_time)) \<noteq> None"
    "itimer (settings [prog, dev, flt, arg] (timed_set_up handler test_func burst_init_time)) \<noteq> None"
    using assms(1,3) by (simp_all add: timed_set_up_def settings_def configure_def c2number_reads numeral_3_eq_3)
qed



lemma packets_loop: "pcap_loop (on_event test_func callback c) (map Some fs) s = pcap_loop (callback (stream_open c) (ms_interval c)) fs s"
  by (simp add: pcap_loop_map on_event_def)

text \<open>
  C29. The same for the programs without a timer. \<open>speed\<close>, \<open>5tuple\<close> and \<open>retransmission_loss\<close> may be interrupted after any
  packets of a capture: up to there they have printed what is specified for these packets, and \<open>SIGINT\<close> ends them
  with status 0 and this output.
\<close>

theorem interrupted_captures_measure:
  assumes "pcap_works P" and "chars arg = decimal n" and "n + 48 < 2147483648"
    and "run_ok (meter_ok (int n)) [] fs" and "run_ok tuple_ok [] gs" and "run_ok retr_ok [] gs"
  shows "interruptible P [prog, dev, flt, arg] speed_process meter_init (map Some fs) (spec_run (meter_spec (int n)) [] fs) \<and>
    interruptible P [prog, dev, flt, arg] tuple_process \<lparr>f_tot_len = 0\<rparr> (map Some gs) (spec_run tuple_spec [] gs) \<and>
    interruptible P [prog, dev, flt, arg] retr_process retr_init (map Some gs) (spec_run retr_spec [] gs)"
proof (intro conjI)
  from speed.loop_means [OF meter_init_means assms(4)] obtain out t where
    l: "pcap_loop (speed_callback (int n)) fs meter_init = Inr (out, t)" "data_of out = spec_run (meter_spec (int n)) [] fs" by blast
  show "interruptible P [prog, dev, flt, arg] speed_process meter_init (map Some fs) (spec_run (meter_spec (int n)) [] fs)"
    unfolding process_parts
    by (rule speed_proc.may_be_interrupted [OF set_up_runs(2) [OF assms(1-3)] _ l(2) _ exit_handler_def])
      (auto simp: packets_loop set_up_interval [OF assms(2,3)] l(1))
  from tuple.loop_means [OF TrueI assms(5), of "\<lparr>f_tot_len = 0\<rparr>"] obtain out t where
    l: "pcap_loop tuple_callback gs \<lparr>f_tot_len = 0\<rparr> = Inr (out, t)" "data_of out = spec_run tuple_spec [] gs" by blast
  show "interruptible P [prog, dev, flt, arg] tuple_process \<lparr>f_tot_len = 0\<rparr> (map Some gs) (spec_run tuple_spec [] gs)"
    unfolding process_parts
    by (rule tuple_proc.may_be_interrupted [OF set_up_runs(2) [OF assms(1-3)] _ l(2) _ exit_handler_def])
      (auto simp: packets_loop l(1))
  from retr.loop_means [OF retr_init_means assms(6)] obtain out t where
    l: "pcap_loop retr_callback gs retr_init = Inr (out, t)" "data_of out = spec_run retr_spec [] gs" by blast
  show "interruptible P [prog, dev, flt, arg] retr_process retr_init (map Some gs) (spec_run retr_spec [] gs)"
    unfolding process_parts
    by (rule retr_proc.may_be_interrupted [OF set_up_runs(2) [OF assms(1-3)] _ l(2) _ exit_handler_def])
      (auto simp: packets_loop l(1))
qed

theorem interrupted_captures_measure_witness:
  "\<exists>ls out. proc_run (ex_pcap ([] :: event list)) [''5tuple'', ''eth0'', ''ip'', ''1000'']
      (Running (start_process tuple_process \<lparr>f_tot_len = 0\<rparr>)) (ls @ [Deliver SIGINT]) (Exited 0 (map Out out)) \<and>
    happened ls = [Some (ex_hdr, ex_frame)] \<and> data_of out = [tuple_of ex_frame]"
proof -
  have m: "run_ok (meter_ok (int 1000)) [] [ex_event 5]" by (simp add: ex_events)
  have l: "length ex_frame = 64" by (simp add: ex_frame_def)
  have t: "run_ok tuple_ok [] [(ex_hdr, ex_frame)]" "run_ok retr_ok [] [(ex_hdr, ex_frame)]"
    using ex_frame_facts ex_stream(2) l by (simp_all add: tuple_ok_def retr_ok_def)
  have s: "spec_run tuple_spec [] [(ex_hdr, ex_frame)] = [tuple_of ex_frame]"
    using ex_frame_facts by (simp add: tuple_spec_def)
  from interrupted_captures_measure [OF ex_pcap_facts(1) ex_interval m t, of "[] :: event list" "''5tuple''" "''eth0''" "''ip''"]
  show ?thesis unfolding s interruptible_def by simp
qed

section \<open>Handlers that fail\<close>

lemma s2f_stream:
  assumes "plain_set_up s2f_handler (Some file_open) @ [Loop s2f_callback] = sts @ sts'" and "sts \<noteq> []"
  shows "stream_open (settings argv sts) \<longleftrightarrow> file_open \<and> sts' \<noteq> tl (s2f_process file_open)"
  using assms by (auto simp: plain_set_up_def s2f_process_def configure_parts split: sum.splits if_splits)

lemma s2f_written:
  assumes "proc_run P argv (Running (start_process (s2f_process True) meter_init)) ls (Running p)"
    and "run_ok (meter_ok (ms_interval p)) [] (packets ls)"
  shows "data_of (written p) = spec_run (meter_spec (ms_interval p)) [] (packets ls)"
proof -
  let ?tf = "\<lambda>_ s. Inr ([], s)" and ?c = "settings argv (plain_set_up s2f_handler (Some True) :: (timeval \<times> pcap_pkthdr \<times> u8 list, dbl, meter) stmt list)"
  note run = assms(1) [unfolded process_parts]
  have h: "happened ls = map Some (packets ls)"
    by (rule happened_packets, rule s2f_proc.only_packets [OF run], erule plain_timer)
  from s2f_proc.run_inv [OF run, where test_func = ?tf] obtain sts where
    "plain_set_up s2f_handler (Some True) @ [Loop s2f_callback] = sts @ todo p"
    and sts: "setting.truncate p = settings argv sts" "happened ls \<noteq> [] \<longrightarrow> settings argv sts = ?c"
    and l: "pcap_loop (on_event ?tf s2f_callback ?c) (happened ls) meter_init = Inr (written p, globals p)"
    unfolding s2f_proc.proc_inv_def by blast
  have o: "stream_open ?c" by (auto simp: plain_set_up_def configure_parts split: sum.splits)
  show ?thesis
  proof (cases "packets ls = []")
    case True
    with l show ?thesis by (auto simp: h)
  next
    case False
    then have "ms_interval p = ms_interval ?c" using sts h by (metis map_is_Nil_conv setting_of(5))
    with l o have "pcap_loop (s2f_callback True (ms_interval p)) (packets ls) meter_init = Inr (written p, globals p)"
      by (simp add: h packets_loop)
    with s2f.loop_means [OF meter_init_means assms(2)] show ?thesis by auto
  qed
qed

lemma gap_unhandled:
  assumes "proc_run P argv (Running (start_process gap_process s)) ls c" and "c = Running p"
  shows "sa_int p = SIG_DFL \<and> set (todo p) \<subseteq> set gap_process"
  using assms
proof (induction arbitrary: p rule: proc_run.induct)
  case begin_run
  then show ?case by (auto simp: start_process_def)
next
  case (add_step ls c l c')
  from add_step(2) show ?case
  proof (cases rule: proc_step.cases)
    case (stmt q st sts)
    with add_step(3) have d: "sa_int q = SIG_DFL" "set (todo q) \<subseteq> set gap_process" by blast+
    from stmt add_step(4) have r: "exec_stmt P argv st (q\<lparr>todo := sts\<rparr>) = Running p" by simp
    have "\<nexists>h. st = Signal_int h" using d(2) stmt by (auto simp: gap_process_def)
    then have "sa_int (configure argv st (setting.truncate q)) = SIG_DFL" using d(1)
      by (auto simp: configure_def split: stmt.splits sum.splits)
    moreover from exec_running [OF r] have t: "setting.truncate p = configure argv st (setting.truncate q)" "todo p = sts"
      by simp_all
    have "sa_int p = sa_int (configure argv st (setting.truncate q))" by (simp flip: t(1))
    ultimately show ?thesis using d(2) stmt t(2) by auto
  next
    case return
    with add_step(4) show ?thesis by simp
  next
    case (packet q cb sts f)
    with add_step(3,4) show ?thesis by (auto simp: write_out_def split: sum.splits)
  next
    case (sigint q)
    with add_step(3,4) show ?thesis by (simp add: deliver_def)
  next
    case (sigprof q)
    with add_step(3,4) show ?thesis by (auto simp: write_out_def deliver_def split: sum.splits action.splits)
  qed
qed

text \<open>
  C30. Two programs that \<open>SIGINT\<close> does not end as meant. \<open>speed2file\<close>, wherever it is in \<open>main\<close>: before the handler is
  installed it is killed; from then on, when its file is open, it ends with status 0 and what it has
  written, which is the specified measurement of the packets so far; but between \<open>signal\<close> and \<open>fopen\<close>, and for ever
  when \<open>fopen\<close> failed, its handler passes the null stream to \<open>fclose\<close>. \<open>count_interval\<close> installs no handler: \<open>SIGINT\<close>
  kills it at any time.
\<close>

theorem interrupted_handler_fails:
  assumes "proc_run P argv (Running (start_process (s2f_process file_open) meter_init)) ls (Running p)"
    and "proc_run P argv (Running (start_process gap_process gap_init)) ls' (Running q)"
  shows "(proc_step P argv (Running p) (Deliver SIGINT) c \<longleftrightarrow> c =
      (if todo p = s2f_process file_open then Killed SIGINT
       else if file_open \<and> todo p \<noteq> tl (s2f_process file_open) then Exited 0 (map Out (written p))
       else Faulted NullDeref)) \<and>
    (file_open \<and> run_ok (meter_ok (ms_interval p)) [] (packets ls) \<longrightarrow>
       data_of (written p) = spec_run (meter_spec (ms_interval p)) [] (packets ls)) \<and>
    (proc_step P argv (Running q) (Deliver SIGINT) c' \<longleftrightarrow> c' = Killed SIGINT)"
proof (intro conjI impI)
  note run = assms(1) [unfolded process_parts]
  from s2f_proc.run_inv [OF run] obtain sts where
    sts: "plain_set_up s2f_handler (Some file_open) @ [Loop s2f_callback] = sts @ todo p" "setting.truncate p = settings argv sts"
    unfolding s2f_proc.proc_inv_def by blast
  have o: "stream_open p = stream_open (settings argv sts)" by (simp flip: sts(2))
  show "proc_step P argv (Running p) (Deliver SIGINT) c \<longleftrightarrow> c =
      (if todo p = s2f_process file_open then Killed SIGINT
       else if file_open \<and> todo p \<noteq> tl (s2f_process file_open) then Exited 0 (map Out (written p))
       else Faulted NullDeref)"
  proof (cases "sts = []")
    case True
    with sts(1) show ?thesis by (simp add: s2f_proc.interrupted [OF run] process_parts(4))
  next
    case False
    then have "todo p \<noteq> s2f_process file_open" using sts(1) by (auto simp: process_parts(4))
    with s2f_stream [OF sts(1) False, of argv] o show ?thesis
      by (cases file_open) (simp_all add: s2f_proc.interrupted [OF run] s2f_handler_def flip: process_parts(4))
  qed
  assume ok: "file_open \<and> run_ok (meter_ok (ms_interval p)) [] (packets ls)"
  show "data_of (written p) = spec_run (meter_spec (ms_interval p)) [] (packets ls)" using s2f_written assms(1) ok by auto
next
  show "proc_step P argv (Running q) (Deliver SIGINT) c' \<longleftrightarrow> c' = Killed SIGINT"
    using gap_unhandled [OF assms(2) refl] by (simp add: signal_step deliver_def)
qed

theorem interrupted_handler_fails_witness:
  "\<exists>ls p. proc_run (ex_pcap ([] :: event list)) [''speed2file'', ''eth0''] (Running (start_process (s2f_process True) meter_init)) ls (Running p) \<and>
     proc_step (ex_pcap ([] :: event list)) [''speed2file'', ''eth0''] (Running p) (Deliver SIGINT) (Faulted NullDeref)"
proof -
  let ?P = "ex_pcap ([] :: event list)" and ?argv = "[''speed2file'', ''eth0'']" and ?p = "start_process (s2f_process True) meter_init"
  let ?q = "?p\<lparr>todo := tl (s2f_process True), sa_int := Exits s2f_handler\<rparr>"
  have t: "todo ?p = Signal_int s2f_handler # tl (s2f_process True)" by (simp add: start_process_def s2f_process_def)
  from proc_run.add_step [OF proc_run.begin_run proc_step.stmt [OF t]]
  have s: "proc_run ?P ?argv (Running ?p) [Next] (Running ?q)" by (simp add: exec_stmt_def)
  have "todo ?q \<noteq> s2f_process True" "todo ?q = tl (s2f_process True)" by (simp_all add: s2f_process_def)
  with interrupted_handler_fails [OF s proc_run.begin_run, where c = "Faulted NullDeref"] s show ?thesis by metis
qed

end
