(* ===== verification/Signals_Main.thy ===== *)
theory Signals_Main
  imports Signals_Props
begin

text \<open>
  The two models of \<open>main\<close> agree: a process that no \<open>SIGINT\<close> interrupts ends as the function \<open>main\<close> of the theory
  \<open>Programs\<close> does on the events of its run, on every command line and whatever the library does.
\<close>

section \<open>Statements that succeeded\<close>

definition passes :: "'e pcap \<Rightarrow> string list \<Rightarrow> ('f, 'o, 's) stmt \<Rightarrow> bool" where
  "passes P argv st =
     (case st of
        Open_live \<Rightarrow> 2 \<le> length argv \<and> p_open_live P (argv ! 1)
      | Set_filter \<Rightarrow> length argv > 2 \<longrightarrow> p_compile P (argv ! 2) \<and> p_setfilter P (argv ! 2)
      | Interval \<Rightarrow> length argv > 3 \<longrightarrow> (\<exists>n. c2number (chars (argv ! 3)) = Inr n)
      | _ \<Rightarrow> True)"

lemma exec_passes: "exec_stmt P argv st p = Running p' \<Longrightarrow> passes P argv st"
  by (auto simp: exec_stmt_def passes_def Let_def split: stmt.splits if_splits sum.splits)

lemma todo_write_out: "write_out p r = Running p' \<Longrightarrow> todo p' = todo p"
  by (auto simp: write_out_def split: sum.splits)

lemma todo_deliver: "deliver sg p = Running p' \<Longrightarrow> todo p' = todo p"
  by (auto simp: deliver_def todo_write_out split: action.splits sum.splits signal.splits)

lemma passed:
  assumes "proc_run P argv (Running (start_process main s)) ls c" and "c = Running p"
  shows "\<exists>sts. main = sts @ todo p \<and> list_all (passes P argv) sts"
  using assms
proof (induction arbitrary: p rule: proc_run.induct)
  case begin_run
  then show ?case by (auto simp: start_process_def)
next
  case (add_step ls c l c')
  show ?case
  proof (cases c)
    case (Running q)
    with add_step obtain sts where sts: "main = sts @ todo q" "list_all (passes P argv) sts" by blast
    from add_step(2) [unfolded Running add_step(4)] show ?thesis
    proof (cases rule: proc_step.cases)
      case (stmt st sts')
      from exec_running [OF stmt(2) [symmetric]] exec_passes [OF stmt(2) [symmetric]] stmt(3) sts show ?thesis
        by (intro exI [of _ "sts @ [st]"]) simp
    qed (use sts todo_write_out todo_deliver in \<open>metis\<close>)+
  qed (use add_step in simp_all)
qed

lemma timer_interval:
  assumes "\<And>st. st \<in> set timer \<Longrightarrow> \<exists>i t. st = Init_sigaction i \<or> st = Init_time t"
  shows "ms_interval (fold (configure argv) timer c) = ms_interval c"
  using assms by (induction timer arbitrary: c) (fastforce simp: configure_def)+

section \<open>Both models\<close>

context capture_process
begin

lemma process_main:
  assumes "proc_run P argv (Running (start_process (pre @ [Loop callback]) s)) ls (Exited st out)" and "Deliver SIGINT \<notin> set ls"
    and "pre = Signal_int handler # Open_live # Set_filter # Interval # timer" and "\<And>st. st \<in> set timer \<Longrightarrow> \<exists>i t. st = Init_sigaction i \<or> st = Init_time t"
    and "pcap_loop (on_event test_func callback (settings argv pre)) (happened ls) s =
      pcap_loop (step (ms_interval (settings argv pre))) es s"
  shows "capture_main (P\<lparr>p_events := \<lambda>_ _ _. es\<rparr>) t step s argv = Inr (st, out)"
proof -
  from last_move [OF assms(1)] obtain ls' l p where ls: "ls = ls' @ [l]"
    and run: "proc_run P argv (Running (start_process (pre @ [Loop callback]) s)) ls' (Running p)"
    and step: "proc_step P argv (Running p) l (Exited st out)" by blast
  from run_inv [OF run] obtain sts where sts: "pre @ [Loop callback] = sts @ todo p" "setting.truncate p = settings argv sts"
      "happened ls' \<noteq> [] \<longrightarrow> settings argv sts = settings argv pre \<and> length pre \<le> length sts"
    and lp: "pcap_loop (on_event test_func callback (settings argv pre)) (happened ls') s = Inr (written p, globals p)"
    unfolding proc_inv_def by blast
  from passed [OF run refl] obtain sts' where ps: "pre @ [Loop callback] = sts' @ todo p" "list_all (passes P argv) sts'" by blast
  with sts(1) have [simp]: "sts' = sts" by simp
  from step show ?thesis
  proof (cases rule: proc_step.cases)
    case (stmt st' rest)
    have "st' = Open_live \<or> st' = Set_filter"
      using stmt by (cases st') (auto simp: exec_stmt_def Let_def split: if_splits sum.splits)
    moreover have "happened ls' = []"
    proof (rule ccontr)
      assume "happened ls' \<noteq> []"
      with sts(1,3) stmt have "st' = Loop callback" using past_end by metis
      with calculation show False by simp
    qed
    then have "written p = []" using lp by simp
    ultimately show ?thesis using stmt ps sts(1) assms(3)
      by (auto simp: exec_stmt_def Let_def capture_main_def passes_def Cons_eq_append_conv split: if_splits)
  next
    case return
    with sts(1) ps(2) have "list_all (passes P argv) pre" by auto
    then have a: "2 \<le> length argv" "p_open_live P (argv ! 1)" "length argv > 2 \<longrightarrow> p_compile P (argv ! 2) \<and> p_setfilter P (argv ! 2)"
      "length argv > 3 \<longrightarrow> (\<exists>n. c2number (chars (argv ! 3)) = Inr n)" by (simp_all add: assms(3) passes_def)
    have "(if length argv > 3 then c2number (chars (argv ! 3)) else Inr 1000) = Inr (ms_interval (settings argv pre))"
      using a(4) by (auto simp: assms(3) settings_def configure_def timer_interval [OF assms(4)])
    moreover have "pcap_loop (step (ms_interval (settings argv pre))) es s = Inr (written p, globals p)"
      using lp assms(5) return ls by simp
    ultimately show ?thesis using a(1-3) return by (auto simp: capture_main_def Let_def)
  next
    case sigint
    with assms(2) ls show ?thesis by simp
  next
    case packet
    then show ?thesis by (auto simp: write_out_def split: sum.splits)
  next
    case sigprof
    have "itimer p = itimer (settings argv sts)" "sa_prof p = sa_prof (settings argv sts)" by (simp_all flip: sts(2))
    with armed [OF sts(1), of argv] sigprof have "sa_prof p = Runs test_func" by (simp only:) auto
    with sigprof show ?thesis by (auto simp: deliver_def write_out_def split: sum.splits)
  qed
qed

end

text \<open>
  The process is \<open>main\<close>. On every command line, whatever the library answers: a process of \<open>nstream\<close>,
  \<open>count_burst\<close> or \<open>speed\<close> that ends without a \<open>SIGINT\<close> ends with the status and the output that the function \<open>main\<close>
  computes from the events of its run, the early exits after an error of the library included.
\<close>

theorem process_is_main:
  assumes "Deliver SIGINT \<notin> set ls" and "Deliver SIGINT \<notin> set ls'"
  shows "(proc_run P argv (Running (start_process nstream_process streams_init)) ls (Exited st out) \<longrightarrow>
      nstream_main (P\<lparr>p_events := \<lambda>_ _ _. stream_events (happened ls)\<rparr>) argv = Inr (st, out)) \<and>
    (proc_run P argv (Running (start_process burst_process streams_init)) ls (Exited st out') \<longrightarrow>
      burst_main (P\<lparr>p_events := \<lambda>_ _ _. stream_events (happened ls)\<rparr>) argv = Inr (st, out')) \<and>
    (proc_run Q argv (Running (start_process speed_process meter_init)) ls' (Exited st out'') \<longrightarrow>
      speed_main (Q\<lparr>p_events := \<lambda>_ _ _. packets ls'\<rparr>) argv = Inr (st, out''))"
proof (intro conjI impI)
  assume "proc_run P argv (Running (start_process nstream_process streams_init)) ls (Exited st out)"
  then show "nstream_main (P\<lparr>p_events := \<lambda>_ _ _. stream_events (happened ls)\<rparr>) argv = Inr (st, out)"
    unfolding process_parts nstream_main_def
    by (rule nstream_proc.process_main [OF _ assms(1)]) (auto simp: timed_set_up_def stream_events_loop)
next
  assume "proc_run P argv (Running (start_process burst_process streams_init)) ls (Exited st out')"
  then show "burst_main (P\<lparr>p_events := \<lambda>_ _ _. stream_events (happened ls)\<rparr>) argv = Inr (st, out')"
    unfolding process_parts burst_main_def
    by (rule burst_proc.process_main [OF _ assms(1)]) (auto simp: timed_set_up_def stream_events_loop)
next
  assume run: "proc_run Q argv (Running (start_process speed_process meter_init)) ls' (Exited st out'')"
  have "happened ls' = map Some (packets ls')"
    by (rule happened_packets, rule speed_proc.only_packets [OF run [unfolded process_parts]], erule plain_timer)
  then show "speed_main (Q\<lparr>p_events := \<lambda>_ _ _. packets ls'\<rparr>) argv = Inr (st, out'')"
    using run unfolding process_parts speed_main_def
    by (intro speed_proc.process_main [OF _ assms(2)]) (auto simp: plain_set_up_def packets_loop)
qed

theorem process_is_main_witness:
  "burst_main \<lparr>p_open_live = \<lambda>s. s \<noteq> ''eth9'', p_compile = \<lambda>_. True, p_setfilter = \<lambda>_. True, p_events = \<lambda>_ _ _. []\<rparr>
     [''count_burst'', ''eth9''] = Inr (1, [OpenLiveError])"
proof -
  let ?P = "\<lparr>p_open_live = \<lambda>s. s \<noteq> ''eth9'', p_compile = \<lambda>_. True, p_setfilter = \<lambda>_. True, p_events = \<lambda>_ _ _. []\<rparr> :: event pcap"
  let ?argv = "[''count_burst'', ''eth9'']" and ?p = "start_process burst_process streams_init"
  let ?q = "?p\<lparr>todo := tl burst_process, sa_int := Exits exit_handler\<rparr>"
  have t: "todo ?p = Signal_int exit_handler # tl burst_process" "todo ?q = Open_live # tl (tl burst_process)"
    by (simp_all add: start_process_def burst_process_def)
  from proc_run.add_step [OF proc_run.begin_run proc_step.stmt [OF t(1)]]
  have "proc_run ?P ?argv (Running ?p) [Next] (Running ?q)" by (simp add: exec_stmt_def)
  from proc_run.add_step [OF this proc_step.stmt [OF t(2)]]
  have "proc_run ?P ?argv (Running ?p) [Next, Next] (Exited 1 [OpenLiveError])"
    by (simp add: exec_stmt_def start_process_def)
  with process_is_main [where P = ?P and argv = ?argv and ls = "[Next, Next]" and ls' = "[]" and st = 1 and out' = "[OpenLiveError]"]
  show ?thesis by (simp add: stream_events_def happened_def)
qed

end
