(* ===== verification/Logs.thy ===== *)
theory Logs
  imports Capture Dbl
begin

text \<open>
  The filters over recorded text: \<open>src/benchmark/tcp_Retr.cpp\<close> and \<open>src/benchmark/jitter.cpp\<close>, which take
  the ninth column out of the log of \<open>iperf3\<close>, and \<open>src/MeasureRate/countTotContinuousByte.cpp\<close>, which
  adds up the bursts of a recording. The text of the input file is a list of characters; the first
  section is what the filters use of \<open>std::istream\<close>.
\<close>

section \<open>Input streams\<close>

text \<open>The lines \<open>getline\<close> delivers: a text that ends with a newline has no empty line behind it.\<close>

function getlines :: "string \<Rightarrow> string list" where
  "getlines s =
     (if s = [] then []
      else takeWhile (\<lambda>c. c \<noteq> CHR 0x0A) s # getlines (drop 1 (dropWhile (\<lambda>c. c \<noteq> CHR 0x0A) s)))"
  by pat_completeness auto

termination
proof (relation "measure length")
  fix s :: string
  assume "s \<noteq> []"
  then show "(drop 1 (dropWhile (\<lambda>c. c \<noteq> CHR 0x0A) s), s) \<in> measure length"
    using length_dropWhile_le [of "\<lambda>c. c \<noteq> CHR 0x0A" s] by (cases s) (auto simp: less_Suc_eq_le)
qed simp

declare getlines.simps [simp del]

definition is_space :: "char \<Rightarrow> bool" where
  "is_space c \<longleftrightarrow> c \<in> set [CHR '' '', CHR 0x09, CHR 0x0A, CHR 0x0B, CHR 0x0C, CHR 0x0D]"

definition is_digit :: "char \<Rightarrow> bool" where
  "is_digit c \<longleftrightarrow> 48 \<le> (of_char c :: nat) \<and> (of_char c :: nat) < 58"

text \<open>
  A stream is the text not read yet, or \<open>None\<close> once an extraction has failed; then every later one
  fails. An extraction that finds nothing but white space fails without storing anything.
\<close>

text \<open>\<open>ss >> now\<close> with a string.\<close>

definition read_word :: "string \<Rightarrow> (string \<times> string) option" where
  "read_word s =
     (let t = dropWhile is_space s in
      if t = [] then None
      else Some (takeWhile (\<lambda>c. \<not> is_space c) t, dropWhile (\<lambda>c. \<not> is_space c) t))"

definition read_sign :: "string \<Rightarrow> bool \<times> string" where
  "read_sign s =
     (case s of [] \<Rightarrow> (False, [])
      | c # t \<Rightarrow> if c = CHR ''-'' then (True, t) else if c = CHR ''+'' then (False, t) else (False, s))"

definition digits_val :: "string \<Rightarrow> nat" where
  "digits_val s = foldl (\<lambda>n c. 10 * n + (of_char c - 48)) 0 s"

text \<open>
  \<open>ss >> ans\<close> with an \<open>int\<close>: the value stored, if one is, and the stream. Text that is no number stores
  0, a number out of range the nearest \<open>int\<close>, and both fail.
\<close>

definition read_int :: "string \<Rightarrow> int option \<times> string option" where
  "read_int s =
     (let t = dropWhile is_space s in
      if t = [] then (None, None)
      else
        (case read_sign t of (neg, u) \<Rightarrow>
          (let ds = takeWhile is_digit u; n = (if neg then - int (digits_val ds) else int (digits_val ds)) in
           if ds = [] then (Some 0, None)
           else if n < - 2147483648 then (Some (- 2147483648), None)
           else if 2147483648 \<le> n then (Some 2147483647, None)
           else (Some n, Some (dropWhile is_digit u)))))"

text \<open>The exponent of a \<open>double\<close>: \<open>None\<close> for an \<open>e\<close> without digits.\<close>

definition read_exp :: "string \<Rightarrow> int option \<times> string" where
  "read_exp s =
     (case s of [] \<Rightarrow> (Some 0, [])
      | c # t \<Rightarrow>
          if c = CHR ''e'' \<or> c = CHR ''E'' then
            (case read_sign t of (neg, u) \<Rightarrow>
              (let ds = takeWhile is_digit u in
               (if ds = [] then None else Some (if neg then - int (digits_val ds) else int (digits_val ds)),
                dropWhile is_digit u)))
          else (Some 0, s))"

text \<open>
  \<open>ss >> jitter\<close> with a \<open>double\<close>. The value is a sign and a magnitude, because \<open>printf\<close> shows the sign
  of a zero. A number too large stores the largest \<open>double\<close>.
\<close>

definition read_fraction :: "string \<Rightarrow> string \<times> string" where
  "read_fraction s =
     (case s of [] \<Rightarrow> ([], [])
      | c # t \<Rightarrow> if c = CHR ''.'' then (takeWhile is_digit t, dropWhile is_digit t) else ([], s))"

definition read_double :: "string \<Rightarrow> (bool \<times> dbl) option \<times> string option" where
  "read_double s =
     (let t = dropWhile is_space s in
      if t = [] then (None, None)
      else
        (case read_sign t of (neg, u) \<Rightarrow>
        (case read_fraction (dropWhile is_digit u) of (b, v) \<Rightarrow>
          (let a = takeWhile is_digit u in
           if a @ b = [] then (Some (False, Fin 0), None)
           else
             (case read_exp v of
                (None, w) \<Rightarrow> (Some (False, Fin 0), None)
              | (Some e, w) \<Rightarrow>
                  (case rnd (of_nat (digits_val (a @ b)) * 10 powi (e - int (length b))) of
                     Fin x \<Rightarrow> (Some (neg, Fin x), Some w)
                   | _ \<Rightarrow> (Some (neg, Fin ((2 ^ 53 - 1) * 2 ^ 971)), None)))))))"

lemma read_word_shorter: "read_word s = Some (w, r) \<Longrightarrow> length r < length s"
proof -
  assume r: "read_word s = Some (w, r)"
  let ?t = "dropWhile is_space s"
  have t: "?t \<noteq> []" "r = dropWhile (\<lambda>c. \<not> is_space c) ?t"
    using r by (auto simp: read_word_def Let_def split: if_splits)
  then have "\<not> is_space (hd ?t)" using hd_dropWhile by blast
  with t have r': "r = dropWhile (\<lambda>c. \<not> is_space c) (tl ?t)" by (cases ?t) simp_all
  have "length (tl ?t) < length ?t" using t(1) by (cases ?t) simp_all
  then show ?thesis
    using length_dropWhile_le [of "\<lambda>c. \<not> is_space c" "tl ?t"] length_dropWhile_le [of is_space s]
    unfolding r' by linarith
qed

lemma read_sign_length: "length (snd (read_sign s)) \<le> length s"
  by (simp add: read_sign_def split: list.split)

lemma read_int_shorter: "read_int s = (v, Some r) \<Longrightarrow> length r \<le> length s"
  using length_dropWhile_le [of is_space s] read_sign_length [of "dropWhile is_space s"]
    length_dropWhile_le [of is_digit "snd (read_sign (dropWhile is_space s))"]
  by (auto simp: read_int_def Let_def split: prod.splits if_splits)

lemma read_fraction_length: "length (snd (read_fraction s)) \<le> length s"
  by (auto simp: read_fraction_def le_SucI length_dropWhile_le split: list.split)

lemma read_exp_length: "length (snd (read_exp s)) \<le> length s"
proof (cases s)
  case (Cons c t)
  have "length (dropWhile is_digit (snd (read_sign t))) \<le> length t"
    by (rule order_trans [OF length_dropWhile_le read_sign_length])
  with Cons show ?thesis by (simp add: read_exp_def Let_def case_prod_beta)
qed (simp add: read_exp_def)

lemma read_double_shorter:
  assumes "read_double s = (v, Some r)"
  shows "length r \<le> length s"
proof -
  let ?u = "snd (read_sign (dropWhile is_space s))"
  let ?v = "snd (read_fraction (dropWhile is_digit ?u))"
  have r: "r = snd (read_exp ?v)"
    using assms by (auto simp: read_double_def Let_def case_prod_beta split: if_splits option.splits prod.splits dbl.splits)
  show ?thesis
    using read_exp_length [of ?v] read_fraction_length [of "dropWhile is_digit ?u"] length_dropWhile_le [of is_digit ?u]
      read_sign_length [of "dropWhile is_space s"] length_dropWhile_le [of is_space s]
    unfolding r by linarith
qed

text \<open>How much of a stream is left, for termination.\<close>

definition left :: "string option \<Rightarrow> nat" where
  "left ss = (case ss of None \<Rightarrow> 0 | Some s \<Rightarrow> Suc (length s))"

lemma left_simps [simp]: "left None = 0" "left (Some s) = Suc (length s)"
  by (simp_all add: left_def)

lemma left_read_int: "read_int s = (v, ss) \<Longrightarrow> left ss \<le> Suc (length s)"
  by (cases ss) (auto dest: read_int_shorter)

lemma left_read_double: "read_double s = (v, ss) \<Longrightarrow> left ss \<le> Suc (length s)"
  by (cases ss) (auto dest: read_double_shorter)

section \<open>Retransmissions\<close>

text \<open>
  The loop \<open>while(ss>>now)\<close> of \<open>tcp_Retr.cpp\<close>: \<open>id\<close> says whether the line lies between two heads of a
  table (the word \<open>ID]\<close>), \<open>ans\<close> is declared in the loop over the lines and has no value at first. The
  result is what is printed and the new \<open>id\<close>.
\<close>

function retr_line :: "int \<Rightarrow> bool \<Rightarrow> int option \<Rightarrow> string option \<Rightarrow> fault + int list \<times> bool" where
  "retr_line cnt id_flag ans None = Inr ([], id_flag)"
| "retr_line cnt id_flag ans (Some ss) =
     (case read_word ss of
        None \<Rightarrow> Inr ([], id_flag)
      | Some (now, ss1) \<Rightarrow>
          bindE (add_int cnt 1) (\<lambda>cnt'.
          if now = ''ID]'' then Inr ([], \<not> id_flag)
          else if cnt' = 8 then
            (case read_int ss1 of (v, ss2) \<Rightarrow>
              (let ans' = (case v of None \<Rightarrow> ans | Some n \<Rightarrow> Some n) in
               if id_flag \<and> hd now \<noteq> CHR ''-'' then
                 (case ans' of
                    None \<Rightarrow> Inl Undefined
                  | Some n \<Rightarrow> bindE (retr_line cnt' id_flag ans' ss2) (\<lambda>(ls, id_flag'). Inr (n # ls, id_flag')))
               else retr_line cnt' id_flag ans' ss2))
          else retr_line cnt' id_flag ans (Some ss1)))"
  by pat_completeness auto

termination
  by (relation "measure (\<lambda>(cnt, id_flag, ans, ss). left ss)")
    (auto dest!: read_word_shorter left_read_int [OF sym])

declare retr_line.simps(2) [simp del]

fun retr_lines :: "bool \<Rightarrow> string list \<Rightarrow> fault + int list" where
  "retr_lines id_flag [] = Inr []"
| "retr_lines id_flag (l # ls) =
     bindE (retr_line 0 id_flag None (Some l)) (\<lambda>(out, id_flag').
     bindE (retr_lines id_flag' ls) (\<lambda>outs. Inr (out @ outs)))"

definition tcp_retr_main :: "string \<Rightarrow> fault + int list" where
  "tcp_retr_main text = retr_lines False (getlines text)"

section \<open>Jitter\<close>

text \<open>The output of \<open>printf("%.3lf")\<close>: the decimal nearest to the value, ties to even.\<close>

fun show_nat :: "nat \<Rightarrow> string" where
  "show_nat n = (if n < 10 then [digit n] else show_nat (n div 10) @ [digit (n mod 10)])"

declare show_nat.simps [simp del]

definition thousandths :: "nat \<Rightarrow> string" where
  "thousandths n = show_nat (n div 1000) @ [CHR ''.'', digit (n div 100 mod 10), digit (n div 10 mod 10), digit (n mod 10)]"

definition printf_3lf :: "bool \<times> dbl \<Rightarrow> string" where
  "printf_3lf v =
     (case v of (neg, d) \<Rightarrow>
       (if neg then ''-'' else []) @
       (case d of Fin x \<Rightarrow> thousandths (nat (half_even (1000 * x))) | NaN \<Rightarrow> ''nan'' | _ \<Rightarrow> ''inf''))"

text \<open>The loop of \<open>jitter.cpp\<close>: \<open>id_number\<close> counts the heads seen so far and lives across the lines.\<close>

function jitter_line :: "int \<Rightarrow> int \<Rightarrow> bool \<times> dbl \<Rightarrow> string option \<Rightarrow> fault + string list \<times> int" where
  "jitter_line cnt id_number jitter None = Inr ([], id_number)"
| "jitter_line cnt id_number jitter (Some ss) =
     (case read_word ss of
        None \<Rightarrow> Inr ([], id_number)
      | Some (now, ss1) \<Rightarrow>
          bindE (add_int cnt 1) (\<lambda>cnt'.
          bindE (if now = ''ID]'' then add_int id_number 1 else Inr id_number) (\<lambda>id'.
          if now = ''ID]'' \<and> id' = 2 then Inr ([], id')
          else if id' = 2 \<and> cnt' = 8 then
            (case read_double ss1 of (v, ss2) \<Rightarrow>
              (let jitter' = (case v of None \<Rightarrow> jitter | Some d \<Rightarrow> d) in
               bindE (jitter_line cnt' id' jitter' ss2) (\<lambda>(ls, id''). Inr (printf_3lf jitter' # ls, id''))))
          else jitter_line cnt' id' jitter (Some ss1))))"
  by pat_completeness auto

termination
  by (relation "measure (\<lambda>(cnt, id_number, jitter, ss). left ss)")
    (auto dest!: read_word_shorter left_read_double [OF sym])

declare jitter_line.simps(2) [simp del]

fun jitter_lines :: "int \<Rightarrow> string list \<Rightarrow> fault + string list" where
  "jitter_lines id_number [] = Inr []"
| "jitter_lines id_number (l # ls) =
     bindE (jitter_line 0 id_number (False, Fin 0) (Some l)) (\<lambda>(out, id').
     bindE (jitter_lines id' ls) (\<lambda>outs. Inr (out @ outs)))"

definition jitter_main :: "string \<Rightarrow> fault + string list" where
  "jitter_main text = jitter_lines 0 (getlines text)"

section \<open>Bursts\<close>

text \<open>
  The loop of \<open>countTotContinuousByte.cpp\<close>: \<open>now\<close> has no value at first and keeps the one it has when a
  line is blank. The result is the vector \<open>byte\<close>, which is printed in the end.
\<close>

fun burst_lines :: "int option \<Rightarrow> int \<Rightarrow> string list \<Rightarrow> fault + int list" where
  "burst_lines now tot [] = Inr []"
| "burst_lines now tot (s # ls) =
     (case (case fst (read_int s) of Some n \<Rightarrow> Some n | None \<Rightarrow> now) of
        None \<Rightarrow> Inl Undefined
      | Some n \<Rightarrow>
          bindE (add_int tot n) (\<lambda>tot'.
          if n = 0 \<and> tot' \<noteq> 0 then bindE (burst_lines (Some n) 0 ls) (\<lambda>byte. Inr (tot' # byte))
          else burst_lines (Some n) tot' ls))"

definition count_tot_continuous_byte :: "string \<Rightarrow> fault + int list" where
  "count_tot_continuous_byte text = burst_lines None 0 (getlines text)"

end
