(* ===== verification/Logs_Props.thy ===== *)
theory Logs_Props
  imports Logs "HOL-Library.Sublist"
begin

text \<open>
  What the filters over text do, on lines seen as lists of words: \<open>tcp_Retr\<close> prints the ninth word of the
  rows of the first table as a number, \<open>jitter\<close> that of the rows of the second as it stands,
  \<open>countTotContinuousByte\<close> adds up the numbers that begin the lines.
\<close>

section \<open>Words and numbers\<close>

function words :: "string \<Rightarrow> string list" where
  "words s = (case read_word s of None \<Rightarrow> [] | Some (w, r) \<Rightarrow> w # words r)"
  by pat_completeness auto

termination
  by (relation "measure length") (auto dest: read_word_shorter)

declare words.simps [simp del]

lemma words_None: "read_word s = None \<Longrightarrow> words s = []"
  by (subst words.simps) simp

lemma words_Some: "read_word s = Some (w, r) \<Longrightarrow> words s = w # words r"
  by (subst words.simps) simp

text \<open>The number a word stands for, if it is an optional sign and digits and an \<open>int\<close>.\<close>

definition int_word :: "string \<Rightarrow> int option" where
  "int_word w =
     (case read_sign w of (neg, ds) \<Rightarrow>
        (let n = (if neg then - int (digits_val ds) else int (digits_val ds)) in
         if ds \<noteq> [] \<and> list_all is_digit ds \<and> - 2147483648 \<le> n \<and> n < 2147483648 then Some n else None))"

text \<open>What \<open>read_word\<close> splits the stream into.\<close>

lemma read_word_split:
  assumes "read_word s = Some (w, r)"
  shows "dropWhile is_space s = w @ r" and "w \<noteq> []" and "r = [] \<or> is_space (hd r)"
    and "takeWhile is_digit r = []" and "dropWhile is_digit r = r" 
proof -
  let ?t = "dropWhile is_space s"
  have t: "?t \<noteq> []" "w = takeWhile (\<lambda>c. \<not> is_space c) ?t" "r = dropWhile (\<lambda>c. \<not> is_space c) ?t"
    using assms by (auto simp: read_word_def Let_def split: if_splits)
  from t show "?t = w @ r" by simp
  have "\<not> is_space (hd ?t)" using t(1) hd_dropWhile by blast
  with t show "w \<noteq> []" by (cases ?t) simp_all
  show hd: "r = [] \<or> is_space (hd r)" using t(3) hd_dropWhile by blast
  have "\<not> is_digit c" if "is_space c" for c using that by (auto simp: is_space_def is_digit_def)
  with hd show "takeWhile is_digit r = []" "dropWhile is_digit r = r" by (cases r; simp)+
qed

lemma read_sign_append: "w \<noteq> [] \<Longrightarrow> read_sign (w @ r) = (fst (read_sign w), snd (read_sign w) @ r)"
  by (cases w) (simp_all add: read_sign_def)

lemma digits_append:
  assumes "list_all is_digit ds"
  shows "takeWhile is_digit (ds @ r) = ds @ takeWhile is_digit r" and "dropWhile is_digit (ds @ r) = dropWhile is_digit r"
  using assms by (induction ds) auto

lemma read_int_word:
  assumes r: "read_word s = Some (w, r)" and n: "int_word w = Some n"
  shows "read_int s = (Some n, Some r)"
proof -
  note S = read_word_split [OF r]
  obtain neg ds where w: "read_sign w = (neg, ds)" by (cases "read_sign w")
  from n w have ds: "ds \<noteq> []" "list_all is_digit ds" "- 2147483648 \<le> n" "n < 2147483648"
      "n = (if neg then - int (digits_val ds) else int (digits_val ds))"
    by (auto simp: int_word_def Let_def split: if_splits)
  have "takeWhile is_digit (ds @ r) = ds" "dropWhile is_digit (ds @ r) = r"
    using digits_append [OF ds(2)] S(4,5) by simp_all
  then show ?thesis
    using ds S(2) unfolding read_int_def S(1) Let_def read_sign_append [OF S(2)] w by (cases neg) simp_all
qed

text \<open>What \<open>ss >> ans\<close> stores of a word: the number it begins with, 0 if there is none, at most the largest \<open>int\<close>.\<close>

definition lead_int :: "string \<Rightarrow> int" where
  "lead_int w = (case read_sign w of (neg, u) \<Rightarrow>
     (let n = int (digits_val (takeWhile is_digit u)) in max (- 2147483648) (min 2147483647 (if neg then - n else n))))"

lemma lead_int_word: "int_word w = Some n \<Longrightarrow> lead_int w = n"
  by (auto simp: int_word_def lead_int_def Let_def list_all_iff takeWhile_eq_all_conv [THEN iffD2] split: prod.splits if_splits)

lemma suffix_read_sign: "suffix (snd (read_sign w)) w"
  by (auto simp: read_sign_def suffix_ConsI split: list.split)

lemma read_int_lead:
  assumes r: "read_word s = Some (w, r)"
  shows "fst (read_int s) = Some (lead_int w)"
    and "snd (read_int s) = None \<or> (\<exists>v. suffix v w \<and> snd (read_int s) = Some (v @ r))"
proof -
  note S = read_word_split [OF r]
  obtain neg u where w: "read_sign w = (neg, u)" by (cases "read_sign w")
  have d: "takeWhile is_digit (u @ r) = takeWhile is_digit u" "dropWhile is_digit (u @ r) = dropWhile is_digit u @ r"
    using S(4,5) by (auto simp: takeWhile_append dropWhile_append takeWhile_eq_all_conv [THEN iffD2])
  let ?n = "int (digits_val (takeWhile is_digit u))"
  have "suffix (dropWhile is_digit u) w"
    using suffix_read_sign [of w] w suffix_dropWhile suffix_order.trans by (metis snd_conv)
  moreover have "digits_val [] = 0" by (simp add: digits_val_def)
  moreover have ne: "w @ r \<noteq> []" using S(2) by simp
  ultimately show "fst (read_int s) = Some (lead_int w)"
    and "snd (read_int s) = None \<or> (\<exists>v. suffix v w \<and> snd (read_int s) = Some (v @ r))"
    unfolding read_int_def S(1) Let_def read_sign_append [OF S(2)] w fst_conv snd_conv prod.case d lead_int_def
    by auto
qed

text \<open>The words of what \<open>ss >> ans\<close> leaves.\<close>

lemma words_suffix:
  assumes r: "read_word s = Some (w, r)" and v: "suffix v w"
  shows "words (v @ r) = (if v = [] then words r else v # words r)"
proof (cases "v = []")
  case False
  have "\<forall>c \<in> set w. \<not> is_space c"
    using r by (auto simp: read_word_def Let_def dest: set_takeWhileD split: if_splits)
  then have n: "\<forall>c \<in> set v. \<not> is_space c" using v by (auto simp: suffix_def)
  have "r = [] \<or> is_space (hd r)" by (rule read_word_split(3) [OF r])
  then have "takeWhile (\<lambda>c. \<not> is_space c) (v @ r) = v" "dropWhile (\<lambda>c. \<not> is_space c) (v @ r) = r"
    using n by (cases r; simp)+
  moreover have "dropWhile is_space (v @ r) = v @ r" using n False by (cases v) simp_all
  ultimately have "read_word (v @ r) = Some (v, r)" using False by (simp add: read_word_def Let_def)
  then show ?thesis using False by (simp add: words_Some)
qed simp

section \<open>Retransmissions\<close>

text \<open>
  What a line prints, \<open>k\<close> words before its eighth: with \<open>k = 7\<close> the number of the ninth word, in the first
  table only, unless the line starts a table or its eighth word begins with \<open>-\<close>. A line of the table that ends with
  its eighth word has no such number.
\<close>

definition is_row :: "nat \<Rightarrow> bool \<Rightarrow> string list \<Rightarrow> bool" where
  "is_row k id_flag ws \<longleftrightarrow> id_flag \<and> k < length ws \<and> ''ID]'' \<notin> set (take (Suc k) ws) \<and> hd (ws ! k) \<noteq> CHR ''-''"

definition retr_out :: "nat \<Rightarrow> bool \<Rightarrow> string list \<Rightarrow> int list" where
  "retr_out k id_flag ws = (if is_row k id_flag ws then [lead_int (ws ! Suc k)] else [])"

definition row_ends :: "nat \<Rightarrow> bool \<Rightarrow> string list \<Rightarrow> bool" where
  "row_ends k id_flag ws \<longleftrightarrow> is_row k id_flag ws \<and> length ws = Suc k"

text \<open>Behind the eighth word of a line that starts no table no word ends with \<open>ID]\<close>.\<close>

definition no_late_head :: "nat \<Rightarrow> string list \<Rightarrow> bool" where
  "no_late_head k ws \<longleftrightarrow> (''ID]'' \<notin> set (take (Suc k) ws) \<longrightarrow> (\<forall>w \<in> set (drop (Suc k) ws). \<not> suffix ''ID]'' w))"

lemma retr_line_tail:
  assumes "8 \<le> cnt" and "cnt + int (length (words s)) < 2147483648"
  shows "retr_line cnt id_flag ans (Some s) = Inr ([], id_flag \<noteq> (''ID]'' \<in> set (words s)))"
  using assms
proof (induction s arbitrary: cnt rule: words.induct)
  case (1 s)
  show ?case
  proof (cases "read_word s")
    case None
    then show ?thesis by (simp add: words_None retr_line.simps(2))
  next
    case (Some wr)
    then obtain w r where wr: "read_word s = Some (w, r)" by (cases wr) simp
    note W = words_Some [OF wr]
    have add: "add_int cnt 1 = Inr (cnt + 1)" using 1(2,3) unfolding W by (simp add: add_int_def)
    from 1(1) [OF wr refl, of "cnt + 1"] 1(2,3) show ?thesis unfolding W retr_line.simps(2) [of _ _ _ s] by (auto simp: wr add)
  qed
qed

lemma retr_line_number:
  assumes "read_word s = Some (w, r)" and "w \<noteq> ''ID]''" and "no_late_head 0 (words s)" and "length (words s) < 2147483640"
  shows "retr_line 7 id_flag None (Some s) = (if row_ends 0 id_flag (words s) then Inl Undefined
    else Inr (retr_out 0 id_flag (words s), id_flag))"
proof -
  note W = words_Some [OF assms(1)] and step = retr_line.simps(2) [of _ _ _ s]
  show ?thesis
  proof (cases "read_word r")
    case None
    then have "words r = []" "read_int r = (None, None)"
      by (auto simp: words_None read_word_def read_int_def Let_def split: if_splits)
    then show ?thesis
      using assms(1,2) unfolding W step by (simp add: add_int_def row_ends_def retr_out_def is_row_def)
  next
    case (Some wr)
    then obtain w' r' where wr': "read_word r = Some (w', r')" by (cases wr) simp
    note W' = words_Some [OF wr']
    obtain v ss where ri: "read_int r = (v, ss)" by (cases "read_int r")
    have v: "v = Some (lead_int w')" using read_int_lead(1) [OF wr'] ri by simp
    have tail: "retr_line 8 f a ss = Inr ([], f)" for f a
    proof (cases ss)
      case (Some t)
      then obtain x where x: "suffix x w'" "t = x @ r'" using read_int_lead(2) [OF wr'] ri by auto
      have "\<not> suffix ''ID]'' y" if "y \<in> set (w' # words r')" for y
        using assms(2,3) that unfolding W W' by (auto simp: no_late_head_def)
      then have "x \<noteq> ''ID]''" "''ID]'' \<notin> set (words r')" using x(1) by auto
      then have "''ID]'' \<notin> set (words t)" unfolding x(2) words_suffix [OF wr' x(1)] by simp
      moreover have "length (words t) \<le> length (words r)" unfolding x(2) words_suffix [OF wr' x(1)] W' by simp
      ultimately show ?thesis using retr_line_tail [of 8 t] assms(4) unfolding Some W by simp
    qed simp
    show ?thesis using assms(1,2) unfolding W W' step
      by (simp add: add_int_def ri v tail row_ends_def retr_out_def is_row_def Let_def)
  qed
qed

lemma retr_line_row:
  assumes "k \<le> 7" and "no_late_head k (words s)" and "length (words s) < 2147483640"
  shows "retr_line (7 - int k) id_flag None (Some s) =
    (if row_ends k id_flag (words s) then Inl Undefined
     else Inr (retr_out k id_flag (words s), id_flag \<noteq> (''ID]'' \<in> set (take (Suc k) (words s)))))"
  using assms
proof (induction k arbitrary: s)
  case 0
  show ?case
  proof (cases "read_word s")
    case None
    then show ?thesis by (simp add: words_None retr_out_def row_ends_def is_row_def retr_line.simps(2))
  next
    case (Some wr)
    then obtain w r where wr: "read_word s = Some (w, r)" by (cases wr) simp
    note W = words_Some [OF wr]
    show ?thesis
    proof (cases "w = ''ID]''")
      case True
      then show ?thesis
        unfolding W retr_line.simps(2) [of _ _ _ s] by (simp add: wr add_int_def retr_out_def row_ends_def is_row_def)
    next
      case False
      with retr_line_number [OF wr False 0(2,3)] show ?thesis by (simp add: W)
    qed
  qed
next
  case (Suc k)
  show ?case
  proof (cases "read_word s")
    case None
    then show ?thesis by (simp add: words_None retr_out_def row_ends_def is_row_def retr_line.simps(2))
  next
    case (Some wr)
    then obtain w r where wr: "read_word s = Some (w, r)" by (cases wr) simp
    note W = words_Some [OF wr]
    have add: "add_int (7 - int (Suc k)) 1 = Inr (7 - int k)" "add_int (6 - int k) 1 = Inr (7 - int k)"
      using Suc.prems(1) by (simp_all add: add_int_def)
    show ?thesis
    proof (cases "w = ''ID]''")
      case True
      then show ?thesis
        unfolding W retr_line.simps(2) [of _ _ _ s] by (simp add: wr add retr_out_def row_ends_def is_row_def)
    next
      case False
      with Suc.prems(2) have "no_late_head k (words r)" unfolding W by (simp add: no_late_head_def)
      moreover have "length (words r) < 2147483640" using Suc.prems(3) unfolding W by simp
      ultimately have "retr_line (7 - int k) id_flag None (Some r) =
          (if row_ends k id_flag (words r) then Inl Undefined
           else Inr (retr_out k id_flag (words r), id_flag \<noteq> (''ID]'' \<in> set (take (Suc k) (words r)))))"
        using Suc.prems(1) by (intro Suc.IH) simp_all
      moreover have "is_row (Suc k) id_flag (words s) = is_row k id_flag (words r)"
        using False unfolding W by (auto simp: is_row_def)
      moreover have "7 - int k \<noteq> 8" by simp
      ultimately show ?thesis using False unfolding W retr_line.simps(2) [of _ _ _ s]
        by (simp add: wr add row_ends_def retr_out_def)
    qed
  qed
qed

text \<open>The column a log prints, and whether a row of it ends too early.\<close>

fun column_spec :: "bool \<Rightarrow> string list \<Rightarrow> int list" where
  "column_spec id_flag [] = []"
| "column_spec id_flag (l # ls) =
     retr_out 7 id_flag (words l) @ column_spec (id_flag \<noteq> (''ID]'' \<in> set (take 8 (words l)))) ls"

fun rows_complete :: "bool \<Rightarrow> string list \<Rightarrow> bool" where
  "rows_complete id_flag [] \<longleftrightarrow> True"
| "rows_complete id_flag (l # ls) \<longleftrightarrow>
     \<not> row_ends 7 id_flag (words l) \<and> rows_complete (id_flag \<noteq> (''ID]'' \<in> set (take 8 (words l)))) ls"

lemma retr_lines_spec:
  assumes "\<forall>l \<in> set ls. no_late_head 7 (words l) \<and> length (words l) < 2147483640"
  shows "retr_lines id_flag ls = (if rows_complete id_flag ls then Inr (column_spec id_flag ls) else Inl Undefined)"
  using assms
proof (induction ls arbitrary: id_flag)
  case (Cons l ls)
  with retr_line_row [of 7 l id_flag] show ?case by simp
qed simp

section \<open>Jitter\<close>

lemma digit_facts:
  assumes "d < 10"
  shows "is_digit (digit d)" and "of_char (digit d) = 48 + d" and "digit d \<noteq> CHR ''-''" and "digit d \<noteq> CHR ''+''"
proof -
  show v: "of_char (digit d) = 48 + d" using assms by (simp add: digit_def)
  show "is_digit (digit d)" using assms by (simp add: is_digit_def v)
  have "digit d \<noteq> c" if "of_char c < (48 :: nat)" for c using that v by auto
  from this [of "CHR ''-''"] this [of "CHR ''+''"] show "digit d \<noteq> CHR ''-''" "digit d \<noteq> CHR ''+''" by simp_all
qed

lemma digits_val_snoc: "digits_val (s @ [c]) = 10 * digits_val s + (of_char c - 48)"
  by (simp add: digits_val_def)

lemma show_nat_facts:
  "list_all is_digit (show_nat n) \<and> digits_val (show_nat n) = n \<and> show_nat n \<noteq> [] \<and>
    hd (show_nat n) \<noteq> CHR ''-'' \<and> hd (show_nat n) \<noteq> CHR ''+''"
proof (induction n rule: show_nat.induct)
  case (1 n)
  show ?case
  proof (cases "n < 10")
    case True
    then show ?thesis by (subst (1 2 3 4 5) show_nat.simps) (simp add: digit_facts digits_val_def)
  next
    case False
    then show ?thesis using 1 digit_facts [of "n mod 10"]
      by (subst (1 2 3 4 5) show_nat.simps) (simp add: digits_val_snoc)
  qed
qed

lemma half_even_near:
  assumes "\<bar>x - of_int n\<bar> < 1 / 2"
  shows "half_even x = n"
proof -
  have "\<bar>of_int (half_even x) - x\<bar> \<le> 1 / 2" by (rule half_even_error)
  with assms have "of_int (half_even x) < (of_int (n + 1) :: rat)" "(of_int (n - 1) :: rat) < of_int (half_even x)"
    unfolding abs_less_iff abs_le_iff of_int_add of_int_diff of_int_1 by linarith+
  then show ?thesis unfolding of_int_less_iff by linarith
qed

text \<open>A number with three decimals is read, up to rounding, and printed as it was.\<close>

lemma thousandths_read:
  assumes r: "read_word s = Some (thousandths n, r)" and n: "n < 10 ^ 12"
  shows "\<exists>x. read_double s = (Some (False, Fin x), Some r) \<and> printf_3lf (False, Fin x) = thousandths n"
proof -
  note S = read_word_split [OF r] and F = show_nat_facts [of "n div 1000"]
  let ?a = "show_nat (n div 1000)" and ?b = "[digit (n div 100 mod 10), digit (n div 10 mod 10), digit (n mod 10)]"
  have b: "list_all is_digit ?b" by (simp add: digit_facts)
  have t: "dropWhile is_space s = ?a @ CHR ''.'' # ?b @ r" using S(1) by (simp add: thousandths_def)
  have sign: "read_sign (?a @ CHR ''.'' # ?b @ r) = (False, ?a @ CHR ''.'' # ?b @ r)"
    using F by (cases ?a) (simp_all add: read_sign_def)
  have dot: "\<not> is_digit CHR ''.''" by (simp add: is_digit_def)
  have a: "takeWhile is_digit (?a @ CHR ''.'' # ?b @ r) = ?a" "dropWhile is_digit (?a @ CHR ''.'' # ?b @ r) = CHR ''.'' # ?b @ r"
    using digits_append [of ?a "CHR ''.'' # ?b @ r"] F dot by simp_all
  have fraction: "read_fraction (CHR ''.'' # ?b @ r) = (?b, r)"
    unfolding read_fraction_def using digits_append [OF b, of r] S(4,5) by simp
  have "hd r \<noteq> CHR ''e'' \<and> hd r \<noteq> CHR ''E''" if "r \<noteq> []" using S(3) that by (auto simp: is_space_def)
  then have exp: "read_exp r = (Some 0, r)" by (cases r) (simp_all add: read_exp_def)
  have "n = 1000 * (n div 1000) + 100 * (n div 100 mod 10) + 10 * (n div 10 mod 10) + n mod 10"
  proof -
    have d: "n div 100 = n div 10 div 10" "n div 1000 = n div 100 div 10" by (simp_all add: div_mult2_eq [symmetric])
    show ?thesis
      using div_mult_mod_eq [of n 10] div_mult_mod_eq [of "n div 10" 10] div_mult_mod_eq [of "n div 100" 10]
      unfolding d by linarith
  qed
  then have val: "digits_val (?a @ ?b) = n"
    using F by (simp add: digits_val_def digit_facts)
  let ?x = "of_nat n * 10 powi (0 - int (length ?b)) :: rat"
  have x: "?x = of_nat n / 1000" by (simp add: power_int_minus field_simps)
  have "(of_nat n :: rat) < 10 ^ 12" using n by (metis of_nat_less_iff of_nat_numeral of_nat_power)
  then have "\<bar>?x\<bar> < 2 powi 30" unfolding x by simp
  from rnd_error [OF this] obtain y where y: "rnd ?x = Fin y" "\<bar>y - ?x\<bar> \<le> 2 powi (30 - 54)" by auto
  have "\<bar>y - of_nat n / 1000\<bar> \<le> 1 / 16777216" using y(2) unfolding x by (simp add: power_int_minus)
  then have small: "\<bar>1000 * y - of_int (int n)\<bar> < 1 / 2" unfolding abs_le_iff abs_less_iff of_int_of_nat_eq by linarith
  have "half_even (1000 * y) = int n"
    using half_even_near [OF small] .
  then have "printf_3lf (False, Fin y) = thousandths n" by (simp add: printf_3lf_def)
  moreover have "read_double s = (Some (False, Fin y), Some r)"
    using F unfolding read_double_def t Let_def sign prod.case a fraction exp option.case val y(1) by simp
  ultimately show ?thesis by blast
qed

text \<open>The heads of tables a line adds: \<open>jitter\<close> leaves the line when it finds the second.\<close>

definition add_heads :: "int \<Rightarrow> string list \<Rightarrow> int" where
  "add_heads n ws = (let m = n + int (count_list ws ''ID]'') in if n < 2 then min 2 m else m)"

lemma jitter_line_silent:
  assumes "8 \<le> cnt \<or> n \<noteq> 2" and "0 \<le> cnt" and "0 \<le> n"
    and "cnt + int (length (words s)) < 2147483648" and "n + int (length (words s)) < 2147483648"
  shows "jitter_line cnt n j (Some s) = Inr ([], add_heads n (words s))"
  using assms
proof (induction s arbitrary: cnt n rule: words.induct)
  case (1 s)
  show ?case
  proof (cases "read_word s")
    case None
    then show ?thesis using 1(4) by (simp add: words_None jitter_line.simps(2) add_heads_def)
  next
    case (Some wr)
    then obtain w r where wr: "read_word s = Some (w, r)" by (cases wr) simp
    note W = words_Some [OF wr] and step = jitter_line.simps(2) [of _ _ _ s]
    have add: "add_int cnt 1 = Inr (cnt + 1)" "add_int n 1 = Inr (n + 1)"
      using 1(3-6) unfolding W by (simp_all add: add_int_def)
    show ?thesis
    proof (cases "w = ''ID]''")
      case False
      have "jitter_line (cnt + 1) n j (Some r) = Inr ([], add_heads n (words r))"
        using 1(2-6) unfolding W by (intro 1(1) [OF wr refl]) auto
      then show ?thesis using False 1(2) unfolding W step by (auto simp: wr add add_heads_def)
    next
      case True
      show ?thesis
      proof (cases "n = 1")
        case True
        moreover have "add_int 1 1 = Inr 2" by (simp add: add_int_def)
        ultimately show ?thesis using \<open>w = ''ID]''\<close> unfolding W step by (simp add: wr add add_heads_def Let_def)
      next
        case False
        have "jitter_line (cnt + 1) (n + 1) j (Some r) = Inr ([], add_heads (n + 1) (words r))"
          using 1(2-6) False unfolding W by (intro 1(1) [OF wr refl]) auto
        then show ?thesis using False True 1(4) unfolding W step by (auto simp: wr add add_heads_def Let_def)
      qed
    qed
  qed
qed

text \<open>What a line of the second table prints, \<open>k\<close> words before its eighth.\<close>

definition jitter_out :: "nat \<Rightarrow> string list \<Rightarrow> string list" where
  "jitter_out k ws = (if k < length ws \<and> ''ID]'' \<notin> set (take (Suc k) ws) then [ws ! Suc k] else [])"

definition has_jitter :: "nat \<Rightarrow> string list \<Rightarrow> bool" where
  "has_jitter k ws \<longleftrightarrow>
     (k < length ws \<and> ''ID]'' \<notin> set (take (Suc k) ws) \<longrightarrow>
      Suc k < length ws \<and> (\<exists>n < 10 ^ 12. ws ! Suc k = thousandths n))"

lemma thousandths_not_ID: "thousandths n \<noteq> ''ID]''"
proof
  assume "thousandths n = ''ID]''"
  then have "CHR ''.'' \<in> set ''ID]''" by (metis thousandths_def in_set_conv_decomp)
  then show False by simp
qed

lemma jitter_line_row:
  assumes "k \<le> 7" and "has_jitter k (words s)" and "length (words s) < 2147483640"
  shows "jitter_line (7 - int k) 2 j (Some s) = Inr (jitter_out k (words s), add_heads 2 (words s))"
  using assms
proof (induction k arbitrary: s)
  case 0
  show ?case
  proof (cases "read_word s")
    case None
    then show ?thesis by (simp add: words_None jitter_out_def jitter_line.simps(2) add_heads_def)
  next
    case (Some wr)
    then obtain w r where wr: "read_word s = Some (w, r)" by (cases wr) simp
    note W = words_Some [OF wr] and step = jitter_line.simps(2) [of _ _ _ s]
    show ?thesis
    proof (cases "w = ''ID]''")
      case True
      have "jitter_line 8 3 j (Some r) = Inr ([], add_heads 3 (words r))"
        by (rule jitter_line_silent) (use 0(3) in \<open>simp_all add: W\<close>)
      with True show ?thesis unfolding W step by (simp add: wr add_int_def jitter_out_def add_heads_def Let_def)
    next
      case False
      with 0(2) obtain n where ne: "words r \<noteq> []" and n: "n < 10 ^ 12" "words r ! 0 = thousandths n"
        unfolding W by (auto simp: has_jitter_def)
      then obtain w' r' where wr': "read_word r = Some (w', r')" by (cases "read_word r") (auto simp: words_None)
      note W' = words_Some [OF wr']
      have w': "w' = thousandths n" using n(2) unfolding W' by simp
      obtain x where x: "read_double r = (Some (False, Fin x), Some r')" "printf_3lf (False, Fin x) = thousandths n"
        using thousandths_read [OF wr' [unfolded w'] n(1)] by blast
      have tail: "jitter_line 8 2 j' (Some r') = Inr ([], add_heads 2 (words r'))" for j'
        by (rule jitter_line_silent) (use 0(3) in \<open>simp_all add: W W'\<close>)
      show ?thesis
        using False thousandths_not_ID [of n] unfolding W W' step w'
        by (simp add: wr add_int_def x tail jitter_out_def add_heads_def Let_def)
    qed
  qed
next
  case (Suc k)
  show ?case
  proof (cases "read_word s")
    case None
    then show ?thesis by (simp add: words_None jitter_out_def jitter_line.simps(2) add_heads_def)
  next
    case (Some wr)
    then obtain w r where wr: "read_word s = Some (w, r)" by (cases wr) simp
    note W = words_Some [OF wr] and step = jitter_line.simps(2) [of _ _ _ s]
    have add: "add_int (7 - int (Suc k)) 1 = Inr (7 - int k)" "add_int (6 - int k) 1 = Inr (7 - int k)" "add_int 2 1 = Inr 3"
      using Suc.prems(1) by (simp_all add: add_int_def)
    show ?thesis
    proof (cases "w = ''ID]''")
      case True
      have "jitter_line (7 - int k) 3 j (Some r) = Inr ([], add_heads 3 (words r))"
        by (rule jitter_line_silent) (use Suc.prems in \<open>simp_all add: W\<close>)
      with True show ?thesis unfolding W step by (simp add: wr add jitter_out_def add_heads_def Let_def)
    next
      case False
      with Suc.prems(2) have "has_jitter k (words r)" unfolding W by (simp add: has_jitter_def)
      moreover have "length (words r) < 2147483640" using Suc.prems(3) unfolding W by simp
      ultimately have "jitter_line (7 - int k) 2 j (Some r) = Inr (jitter_out k (words r), add_heads 2 (words r))"
        using Suc.prems(1) by (intro Suc.IH) simp_all
      moreover have "jitter_out (Suc k) (words s) = jitter_out k (words r)" "add_heads 2 (words s) = add_heads 2 (words r)"
        using False unfolding W by (simp_all add: jitter_out_def add_heads_def)
      moreover have "7 - int k \<noteq> 8" by simp
      ultimately show ?thesis using False unfolding W step by (simp add: wr add)
    qed
  qed
qed

fun jitter_spec :: "int \<Rightarrow> string list \<Rightarrow> string list" where
  "jitter_spec n [] = []"
| "jitter_spec n (l # ls) =
     (if n = 2 then jitter_out 7 (words l) else []) @ jitter_spec (add_heads n (words l)) ls"

text \<open>The lines behind the second head, up to a third, whose ninth word must be a number with three decimals.\<close>

fun jitter_ok :: "int \<Rightarrow> string list \<Rightarrow> bool" where
  "jitter_ok n [] \<longleftrightarrow> True"
| "jitter_ok n (l # ls) \<longleftrightarrow> (n = 2 \<longrightarrow> has_jitter 7 (words l)) \<and> jitter_ok (add_heads n (words l)) ls"

lemma jitter_lines_spec:
  assumes "jitter_ok n ls" and "0 \<le> n"
    and "n + int (sum_list (map (length \<circ> words) ls)) < 2147483640"
  shows "jitter_lines n ls = Inr (jitter_spec n ls)"
  using assms
proof (induction ls arbitrary: n)
  case (Cons l ls)
  have "count_list (words l) ''ID]'' \<le> length (words l)" by (rule count_le_length)
  then have h: "0 \<le> add_heads n (words l)" "add_heads n (words l) \<le> n + int (length (words l))"
    using Cons.prems(2) by (auto simp: add_heads_def Let_def)
  have "jitter_lines (add_heads n (words l)) ls = Inr (jitter_spec (add_heads n (words l)) ls)"
    by (rule Cons.IH) (use Cons.prems h in auto)
  moreover have "jitter_line 0 n (False, Fin 0) (Some l) = Inr (if n = 2 then jitter_out 7 (words l) else [], add_heads n (words l))"
  proof (cases "n = 2")
    case True
    with Cons.prems jitter_line_row [of 7 l "(False, Fin 0)"] show ?thesis by simp
  next
    case False
    with Cons.prems jitter_line_silent [of 0 n l "(False, Fin 0)"] show ?thesis by simp
  qed
  ultimately show ?case by simp
qed simp

section \<open>Bursts\<close>

text \<open>The runs of a recording between its zeros; the last one ends with the file.\<close>

fun zero_runs :: "int list \<Rightarrow> int list list" where
  "zero_runs [] = [[]]"
| "zero_runs (x # xs) =
     (if x = 0 then [] # zero_runs xs
      else (case zero_runs xs of [] \<Rightarrow> [[x]] | r # rs \<Rightarrow> (x # r) # rs))"

lemma zero_runs_ne: "zero_runs xs \<noteq> []"
  by (induction xs) (auto split: list.split)

text \<open>The sums of the runs but the last, the first one increased by \<open>t\<close>, without the sums that are zero.\<close>

fun run_sums :: "int \<Rightarrow> int list list \<Rightarrow> int list" where
  "run_sums t (r # r' # rs) = (if t + sum_list r = 0 then [] else [t + sum_list r]) @ run_sums 0 (r' # rs)"
| "run_sums t rs = []"

lemma burst_lines_runs:
  assumes "list_all2 (\<lambda>l x. fst (read_int l) = Some x) ls xs"
    and "\<forall>x \<in> set xs. 0 \<le> x" and "0 \<le> t" and "t + sum_list xs < 2147483648"
  shows "burst_lines now t ls = Inr (run_sums t (zero_runs xs))"
  using assms
proof (induction ls xs arbitrary: now t rule: list_all2_induct)
  case Nil
  then show ?case by simp
next
  case (Cons l ls x xs)
  have s: "0 \<le> sum_list xs" using Cons.prems(1) by (intro sum_list_nonneg) simp
  then have add: "add_int t x = Inr (t + x)" using Cons.prems by (simp add: add_int_def)
  obtain r rs where z: "zero_runs xs = r # rs" using zero_runs_ne [of xs] by (cases "zero_runs xs") auto
  show ?case
  proof (cases "x = 0")
    case True
    with Cons s add z show ?thesis by auto
  next
    case False
    from Cons.IH [of "t + x" "Some x"] Cons.prems False add z Cons.hyps(1) show ?thesis
      by (cases rs) (auto simp: add.assoc)
  qed
qed

lemma run_sums_positive:
  assumes "\<forall>r \<in> set rs. \<forall>x \<in> set r. 0 < x"
  shows "run_sums 0 rs = map sum_list (filter (\<lambda>r. r \<noteq> []) (butlast rs))"
proof -
  have pos: "sum_list r = 0 \<longleftrightarrow> r = []" if "\<forall>x \<in> set r. 0 < (x :: int)" for r
  proof (cases r)
    case (Cons x xs)
    have "0 \<le> sum_list xs" using that Cons by (intro sum_list_nonneg) auto
    with that Cons show ?thesis by simp
  qed simp
  show ?thesis using assms by (induction "0 :: int" rs rule: run_sums.induct) (auto simp: pos)
qed

lemma zero_runs_positive: "\<forall>x \<in> set xs. 0 \<le> x \<Longrightarrow> \<forall>r \<in> set (zero_runs xs). \<forall>x \<in> set r. 0 < x"
  by (induction xs) (auto split: list.splits)

lemma read_first_word:
  assumes "words l = w # ws" and "int_word w = Some x"
  shows "fst (read_int l) = Some x"
proof (cases "read_word l")
  case (Some wr)
  then obtain w' r where wr: "read_word l = Some (w', r)" by (cases wr) simp
  with assms(1) have "w' = w" by (simp add: words_Some)
  with read_int_word [OF wr] assms(2) show ?thesis by simp
qed (use assms(1) words_None in auto)

section \<open>Properties\<close>

text \<open>A text made of lines, and the lines of \<open>iperf3\<close> the two examples share.\<close>

definition unlines :: "string list \<Rightarrow> string" where
  "unlines ls = concat (map (\<lambda>l. l @ [CHR 0x0A]) ls)"

lemma getlines_unlines: "\<forall>l \<in> set ls. CHR 0x0A \<notin> set l \<Longrightarrow> getlines (unlines ls) = ls"
proof (induction ls)
  case Nil
  then show ?case by (simp add: unlines_def getlines.simps)
next
  case (Cons l ls)
  let ?nl = "CHR 0x0A"
  have u: "unlines (l # ls) = l @ ?nl # unlines ls" by (simp add: unlines_def)
  have "takeWhile (\<lambda>c. c \<noteq> ?nl) (l @ ?nl # unlines ls) = l" "dropWhile (\<lambda>c. c \<noteq> ?nl) (l @ ?nl # unlines ls) = ?nl # unlines ls"
    using Cons.prems by (auto simp: takeWhile_append dropWhile_append)
  with Cons show ?case unfolding u by (subst getlines.simps) simp
qed

definition log_start :: "string list" where
  "log_start =
     [''Connecting to host 192.168.179.134, port 5001'',
      ''[  5] local 192.168.179.134 port 33155 connected to 192.168.179.134 port 5001'']"

definition log_rule :: string where
  "log_rule = ''- - - - - - - - - - - - - - - - - - - - - - - - -''"

lemma log_words:
  "words ''Connecting to host 192.168.179.134, port 5001'' =
     [''Connecting'', ''to'', ''host'', ''192.168.179.134,'', ''port'', ''5001'']"
  "words ''[  5] local 192.168.179.134 port 33155 connected to 192.168.179.134 port 5001'' =
     [''['', ''5]'', ''local'', ''192.168.179.134'', ''port'', ''33155'', ''connected'', ''to'', ''192.168.179.134'', ''port'', ''5001'']"
  "words log_rule = replicate 25 ''-''" "words '''' = []" "words ''iperf Done.'' = [''iperf'', ''Done.'']"
  by code_simp+

text \<open>
  C39. \<open>tcp_Retr\<close> prints the column of retransmissions. The lines between the first and the second head of a table
  (and the third and the fourth, and so on) that have eight words, the eighth not beginning with \<open>-\<close>, are the
  rows. For every log in which no word behind the eighth ends with \<open>ID]\<close>, whatever else its lines hold: if every row has
  a ninth word, the program never faults and prints the numbers these words begin with (0 if there is
  none), in order, and nothing for any other line; if a row ends with its eighth word, the program prints a
  variable that has no value.
\<close>

theorem tcp_retr_prints:
  assumes "\<forall>l \<in> set (getlines text). no_late_head 7 (words l) \<and> length (words l) < 2147483640"
  shows "tcp_retr_main text =
    (if rows_complete False (getlines text) then Inr (column_spec False (getlines text)) else Inl Undefined)"
  unfolding tcp_retr_main_def using assms by (rule retr_lines_spec)

text \<open>A log of \<open>iperf3\<close> over TCP, from the sender.\<close>

definition ex_retr :: "string list" where
  "ex_retr = log_start @
     [''[ ID] Interval           Transfer     Bitrate         Retr  Cwnd'',
      ''[  5]   0.00-1.00   sec  1.25 MBytes  10.5 Mbits/sec    3   58.0 KBytes       '',
      ''[  5]   1.00-2.00   sec  1.12 MBytes  9.44 Mbits/sec    0   70.7 KBytes       '',
      log_rule,
      ''[ ID] Interval           Transfer     Bitrate         Retr'',
      ''[  5]   0.00-2.00   sec  2.37 MBytes  9.96 Mbits/sec    3             sender'',
      ''[  5]   0.00-2.04   sec  2.25 MBytes  9.25 Mbits/sec                  receiver'',
      '''', ''iperf Done.'']"

lemma ex_retr_words:
  "words ''[ ID] Interval           Transfer     Bitrate         Retr  Cwnd'' =
     [''['', ''ID]'', ''Interval'', ''Transfer'', ''Bitrate'', ''Retr'', ''Cwnd'']"
  "words ''[  5]   0.00-1.00   sec  1.25 MBytes  10.5 Mbits/sec    3   58.0 KBytes       '' =
     [''['', ''5]'', ''0.00-1.00'', ''sec'', ''1.25'', ''MBytes'', ''10.5'', ''Mbits/sec'', ''3'', ''58.0'', ''KBytes'']"
  "words ''[  5]   1.00-2.00   sec  1.12 MBytes  9.44 Mbits/sec    0   70.7 KBytes       '' =
     [''['', ''5]'', ''1.00-2.00'', ''sec'', ''1.12'', ''MBytes'', ''9.44'', ''Mbits/sec'', ''0'', ''70.7'', ''KBytes'']"
  "words ''[ ID] Interval           Transfer     Bitrate         Retr'' =
     [''['', ''ID]'', ''Interval'', ''Transfer'', ''Bitrate'', ''Retr'']"
  "words ''[  5]   0.00-2.00   sec  2.37 MBytes  9.96 Mbits/sec    3             sender'' =
     [''['', ''5]'', ''0.00-2.00'', ''sec'', ''2.37'', ''MBytes'', ''9.96'', ''Mbits/sec'', ''3'', ''sender'']"
  "words ''[  5]   0.00-2.04   sec  2.25 MBytes  9.25 Mbits/sec                  receiver'' =
     [''['', ''5]'', ''0.00-2.04'', ''sec'', ''2.25'', ''MBytes'', ''9.25'', ''Mbits/sec'', ''receiver'']"
  by code_simp+

theorem tcp_retr_prints_witness: "tcp_retr_main (unlines ex_retr) = Inr [3, 0]"
proof -
  have g: "getlines (unlines ex_retr) = ex_retr"
    by (rule getlines_unlines) (simp add: ex_retr_def log_start_def log_rule_def)
  note W = log_words ex_retr_words
  have n: "lead_int ''3'' = 3" "lead_int ''0'' = 0" by code_simp+
  have "\<forall>l \<in> set ex_retr. no_late_head 7 (words l) \<and> length (words l) < 2147483640"
    by (simp add: ex_retr_def log_start_def W no_late_head_def suffix_def)
  then have "tcp_retr_main (unlines ex_retr) =
      (if rows_complete False ex_retr then Inr (column_spec False ex_retr) else Inl Undefined)"
    using tcp_retr_prints [of "unlines ex_retr"] unfolding g by simp
  then show ?thesis
    by (simp add: ex_retr_def log_start_def W row_ends_def retr_out_def is_row_def n)
qed

text \<open>
  C38. \<open>jitter\<close> copies the jitter of the summary. For every log whose lines of eight words or more behind the second
  head, up to a third, have a number with three decimals as their ninth word (whatever the lines before it
  hold), the program never faults and prints these words as they stand, in order: reading them into a
  \<open>double\<close> and printing it with \<open>%.3lf\<close> is the identity on numbers below a billion, although none of them need be a
  \<open>double\<close>. (After a third head it prints nothing.)
\<close>

theorem jitter_copies:
  assumes "jitter_ok 0 (getlines text)"
    and "int (sum_list (map (length \<circ> words) (getlines text))) < 2147483640"
  shows "jitter_main text = Inr (jitter_spec 0 (getlines text))"
  unfolding jitter_main_def by (rule jitter_lines_spec) (use assms in simp_all)

text \<open>The recorded log \<open>src/MeasureRate/speedtest/iperf3.txt\<close>, with one of its 120 rows.\<close>

definition ex_jitter :: "string list" where
  "ex_jitter = log_start @
     [''[ ID] Interval           Transfer     Bitrate         Total Datagrams'',
      ''[  5]   0.00-1.00   sec  11.9 MBytes   100 Mbits/sec  8334  '',
      log_rule,
      ''[ ID] Interval           Transfer     Bitrate         Jitter    Lost/Total Datagrams'',
      ''[  5]   0.00-120.00 sec  1.40 GBytes   100 Mbits/sec  0.000 ms  0/1000000 (0%)  sender'',
      ''[  5]   0.00-120.04 sec  1.39 GBytes  99.3 Mbits/sec  0.027 ms  6771/1000000 (0.68%)  receiver'',
      '''', ''iperf Done.'']"

lemma ex_jitter_words:
  "words ''[ ID] Interval           Transfer     Bitrate         Total Datagrams'' =
     [''['', ''ID]'', ''Interval'', ''Transfer'', ''Bitrate'', ''Total'', ''Datagrams'']"
  "words ''[  5]   0.00-1.00   sec  11.9 MBytes   100 Mbits/sec  8334  '' =
     [''['', ''5]'', ''0.00-1.00'', ''sec'', ''11.9'', ''MBytes'', ''100'', ''Mbits/sec'', ''8334'']"
  "words ''[ ID] Interval           Transfer     Bitrate         Jitter    Lost/Total Datagrams'' =
     [''['', ''ID]'', ''Interval'', ''Transfer'', ''Bitrate'', ''Jitter'', ''Lost/Total'', ''Datagrams'']"
  "words ''[  5]   0.00-120.00 sec  1.40 GBytes   100 Mbits/sec  0.000 ms  0/1000000 (0%)  sender'' =
     [''['', ''5]'', ''0.00-120.00'', ''sec'', ''1.40'', ''GBytes'', ''100'', ''Mbits/sec'', ''0.000'', ''ms'', ''0/1000000'', ''(0%)'', ''sender'']"
  "words ''[  5]   0.00-120.04 sec  1.39 GBytes  99.3 Mbits/sec  0.027 ms  6771/1000000 (0.68%)  receiver'' =
     [''['', ''5]'', ''0.00-120.04'', ''sec'', ''1.39'', ''GBytes'', ''99.3'', ''Mbits/sec'', ''0.027'', ''ms'', ''6771/1000000'', ''(0.68%)'', ''receiver'']"
  by code_simp+

theorem jitter_copies_witness: "jitter_main (unlines ex_jitter) = Inr [''0.000'', ''0.027'']"
proof -
  have g: "getlines (unlines ex_jitter) = ex_jitter"
    by (rule getlines_unlines) (simp add: ex_jitter_def log_start_def log_rule_def)
  note W = log_words ex_jitter_words
  have z: "''0.000'' = thousandths 0" "''0.027'' = thousandths 27" by code_simp+
  have t: "\<exists>n < 1000000000000. ''0.000'' = thousandths n" "\<exists>n < 1000000000000. ''0.027'' = thousandths n"
    unfolding z by (rule exI [of _ 0], simp) (rule exI [of _ 27], simp)
  have "jitter_ok 0 ex_jitter"
    by (simp add: ex_jitter_def log_start_def W has_jitter_def add_heads_def t)
  moreover have "int (sum_list (map (length \<circ> words) ex_jitter)) < 2147483640"
    by (simp add: ex_jitter_def log_start_def W)
  ultimately have "jitter_main (unlines ex_jitter) = Inr (jitter_spec 0 ex_jitter)"
    using jitter_copies [of "unlines ex_jitter"] unfolding g by simp
  then show ?thesis by (simp add: ex_jitter_def log_start_def W jitter_out_def add_heads_def)
qed

text \<open>
  C40. \<open>countTotContinuousByte\<close> adds up the bursts but the last. For a recording whose lines begin with
  non-negative numbers with a sum that is an \<open>int\<close>, the result is the list of the sums of the runs
  between zeros that are not empty, in order; the run after the last zero is never counted, so a
  recording that does not end with a zero loses its last burst.
\<close>

theorem continuous_byte_sums:
  assumes "list_all2 (\<lambda>l x. \<exists>w ws. words l = w # ws \<and> int_word w = Some x) (getlines text) xs"
    and "\<forall>x \<in> set xs. 0 \<le> x" and "sum_list xs < 2147483648"
  shows "count_tot_continuous_byte text =
    Inr (map sum_list (filter (\<lambda>r. r \<noteq> []) (butlast (zero_runs xs))))"
proof -
  have "list_all2 (\<lambda>l x. fst (read_int l) = Some x) (getlines text) xs"
    using assms(1) by (rule list_all2_mono) (auto intro: read_first_word)
  then have "burst_lines None 0 (getlines text) = Inr (run_sums 0 (zero_runs xs))"
    by (rule burst_lines_runs) (use assms(2,3) in simp_all)
  then show ?thesis
    by (simp add: count_tot_continuous_byte_def run_sums_positive [OF zero_runs_positive [OF assms(2)]])
qed

definition ex_bursts :: string where
  "ex_bursts = concat (map (\<lambda>n. show_nat n @ [CHR 0x0A]) [50, 7, 0, 0, 3, 0, 9])"

theorem continuous_byte_sums_witness: "count_tot_continuous_byte ex_bursts = Inr [57, 3]"
proof -
  have g: "getlines ex_bursts = [''50'', ''7'', ''0'', ''0'', ''3'', ''0'', ''9'']" by code_simp
  have w: "words ''50'' = [''50'']" "words ''7'' = [''7'']" "words ''0'' = [''0'']" "words ''3'' = [''3'']" "words ''9'' = [''9'']"
    "int_word ''50'' = Some 50" "int_word ''7'' = Some 7" "int_word ''0'' = Some 0" "int_word ''3'' = Some 3" "int_word ''9'' = Some 9"
    by code_simp+
  show ?thesis using continuous_byte_sums [of ex_bursts "[50, 7, 0, 0, 3, 0, 9]"] by (simp add: g w)
qed

end
