(* ===== verification/Sim_Main.thy ===== *)
theory Sim_Main
  imports RingSim_Props Logs_Props
begin

text \<open>
  The function \<open>main\<close> of \<open>src/RateLimiter/ring/main.cpp\<close>: it reads the packets from a file, one line each,
  sets the timer and waits while the handler \<open>test_func\<close> runs every tenth of a millisecond. The model runs a
  given number of expiries.
\<close>

section \<open>Reading the packets\<close>

text \<open>
  \<open>temp\<close> is declared outside the loop: what a line does not store keeps its value, and at first the
  members have none. Pushing a packet with a member that has no value is undefined.
\<close>

definition read_packet :: "dbl option \<times> int option \<Rightarrow> string \<Rightarrow> dbl option \<times> int option" where
  "read_packet temp s =
     (case read_double s of (v, ss) \<Rightarrow>
       (let arrival = (case v of None \<Rightarrow> fst temp | Some (neg, x) \<Rightarrow> Some (if neg then dneg x else x)) in
        case ss of
          None \<Rightarrow> (arrival, snd temp)
        | Some s' \<Rightarrow> (arrival, case fst (read_int s') of None \<Rightarrow> snd temp | Some n \<Rightarrow> Some n)))"

fun read_packets :: "dbl option \<times> int option \<Rightarrow> string list \<Rightarrow> fault + sim_packet list" where
  "read_packets temp [] = Inr []"
| "read_packets temp (s # ls) =
     (case read_packet temp s of
        (Some arrival, Some len) \<Rightarrow>
          bindE (read_packets (Some arrival, Some len) ls) (\<lambda>ps. Inr (\<lparr>p_arrival = arrival, p_len = len\<rparr> # ps))
      | _ \<Rightarrow> Inl Undefined)"

section \<open>The run\<close>

fun sim_run :: "nat \<Rightarrow> sim \<Rightarrow> fault + (dbl \<times> int) list \<times> sim" where
  "sim_run 0 g = Inr ([], g)"
| "sim_run (Suc n) g =
     bindE (sim_run n g) (\<lambda>(outs, g1).
     bindE (test_func g1) (\<lambda>(out, g2). Inr (outs @ out, g2)))"

definition sim_main :: "string \<Rightarrow> nat \<Rightarrow> fault + (dbl \<times> int) list \<times> sim" where
  "sim_main text n =
     bindE (ring_new (ddiv (Fin 1024) (Fin 8))) (\<lambda>ring.
     bindE (read_packets (None, None) (getlines text)) (\<lambda>ps.
     sim_run n \<lparr>g_input = ps, g_inque = [], g_tot_round = 0, g_ring = ring\<rparr>))"

section \<open>The clock\<close>

text \<open>
  A packet is fed at the first tick whose time is not below its arrival, and then it is not yet too old:
  one tick is much less than the latency, whatever the rounding of \<open>tot_round*0.1\<close>.
\<close>

lemma tenth_eq: "\<bar>k\<bar> < 2 ^ 53 \<Longrightarrow> tenth k = rnd (of_int k * (3602879701896397 / 36028797018963968))"
  by (simp add: tenth_def rnd_tenth)

lemma tenth_mono:
  assumes "i \<le> j" and "0 \<le> i" and "j < 2 ^ 53"
  shows "tenth i \<le> tenth j"
proof -
  have "(of_int i :: rat) \<le> of_int j" using assms(1) by simp
  then show ?thesis using assms by (simp add: tenth_eq) (rule rnd_mono, simp)
qed

lemma timely:
  assumes a: "0 \<le> a" and k: "1 \<le> k" "k < 2 ^ 31" and prev: "k = 1 \<or> tenth (k - 1) < Fin a"
  shows "\<not> dlt (dadd (Fin a) (Fin 40)) (tenth k)"
proof -
  let ?c = "3602879701896397 / 36028797018963968 :: rat"
  define m where "m = \<lfloor>of_int (k - 1) * ?c\<rfloor>"
  have m: "of_int m \<le> of_int (k - 1) * ?c" "of_int (k - 1) * ?c < of_int m + 1" unfolding m_def by linarith+
  have m0: "0 \<le> m" using k(1) by (simp add: m_def)
  have "(of_int (k - 1) :: rat) < of_int (2 ^ 31)" using k(2) unfolding of_int_less_iff by simp
  moreover have "0 \<le> (of_int (k - 1) :: rat)" using k(1) by simp
  ultimately have "(of_int m :: rat) < of_int (2 ^ 31)" using m(1) by simp
  then have m1: "m < 2 ^ 31" unfolding of_int_less_iff .
  have "of_int k * ?c \<le> of_int (m + 2)" using m(2) unfolding of_int_add of_int_diff by (simp add: left_diff_distrib)
  then have "rnd (of_int k * ?c) \<le> Fin (of_int (m + 2))" by (rule rnd_le_dbl) (use m0 m1 in \<open>simp del: of_int_add\<close>)
  then have now: "tenth k \<le> Fin (of_int (m + 2))" using k by (simp add: tenth_eq)
  have "of_int m \<le> a"
  proof (cases "k = 1")
    case True
    then show ?thesis using a by (simp add: m_def)
  next
    case False
    have "Fin (of_int m) \<le> rnd (of_int (k - 1) * ?c)" by (rule rnd_ge_dbl [OF m(1)]) (use m0 m1 in simp)
    also have "\<dots> = tenth (k - 1)" using k by (simp add: tenth_eq)
    finally have "Fin (of_int m) < Fin a" using prev False by auto
    then show ?thesis by (simp add: less_dbl_def)
  qed
  then have "of_int (m + 40) \<le> a + 40" by simp
  then have "Fin (of_int (m + 40)) \<le> rnd (a + 40)" by (rule rnd_ge_dbl) (use m0 m1 in \<open>simp del: of_int_add\<close>)
  moreover have "Fin (of_int (m + 2)) \<le> (Fin (of_int (m + 40)) :: dbl)" by (simp add: less_eq_dbl_def less_dbl_def)
  ultimately have "tenth k \<le> dadd (Fin a) (Fin 40)" using now by simp
  moreover have "tenth k \<noteq> NaN" using k by (simp add: tenth_eq)
  ultimately show ?thesis by (simp add: dlt_iff)
qed

section \<open>A tick\<close>

text \<open>A packet of the input, and an input a run of the simulator delivers: in the order of arrival.\<close>

definition arrives :: "sim_packet \<Rightarrow> bool" where
  "arrives p \<longleftrightarrow> (case p_arrival p of Fin a \<Rightarrow> 0 \<le> a | _ \<Rightarrow> False) \<and> 0 \<le> p_len p"

text \<open>
  After \<open>n\<close> ticks: what was printed, what the ring holds and what is still in the input are the packets;
  the input holds those that arrive later; \<open>e\<close> blocks have been passed since the last arrival.
\<close>

definition sim_state :: "sim_packet list \<Rightarrow> nat \<Rightarrow> nat \<Rightarrow> (dbl \<times> int) list \<Rightarrow> sim \<Rightarrow> bool" where
  "sim_state ps K n outs g \<longleftrightarrow>
     (\<exists>d bs sent. sim_rep (g_ring g) d bs \<and> r_latency (g_ring g) = Fin 40 \<and> g_inque g = [] \<and>
        g_tot_round g = int n \<and> sent @ concat bs @ g_input g = ps \<and> map snd outs = map p_len sent \<and>
        (\<forall>p \<in> set (g_input g). n = 0 \<or> tenth (int n) < p_arrival p) \<and>
        (K \<le> n \<longrightarrow> (\<forall>j < block. block \<le> j + (n div 10 - K div 10) \<longrightarrow> bs ! j = [])))"

lemma in_ring_latency: "in_ring T xs r = Inr (ys, r') \<Longrightarrow> r_latency r' = r_latency r"
proof (induction T xs r rule: in_ring.induct)
  case (2 T p xs r)
  have "r_latency r1 = r_latency r" if "place ib d p r = Inr r1" for ib d r1
    using that by (auto simp: place_def set_cell_def Let_def bindE_Inr_iff split: if_splits)
  with 2 show ?case by (auto simp: Let_def bindE_Inr_iff split: if_splits)
qed simp

declare feed.simps [simp del]

lemma feed_timely:
  assumes rep: "sim_rep (g_ring g) d bs" and inque: "g_inque g = []" and lat: "r_latency (g_ring g) = Fin 40"
    and timely: "\<forall>p \<in> set (g_input g). \<not> dlt (dadd (p_arrival p) (Fin 40)) msec \<and> 0 \<le> p_len p"
    and msec: "msec = tenth (g_tot_round g)"
    and room: "sum_list (map p_len (g_input g)) + r_tot_bytes (g_ring g) < 131072" "length (concat bs) + length (g_input g) \<le> qlen"
  defines "now \<equiv> takeWhile (\<lambda>p. dge msec (p_arrival p)) (g_input g)"
    and "later \<equiv> dropWhile (\<lambda>p. dge msec (p_arrival p)) (g_input g)"
  shows "\<exists>r' d' bs'. feed msec g = Inr (g\<lparr>g_input := later, g_inque := [], g_ring := r'\<rparr>) \<and> sim_rep r' d' bs' \<and>
    concat bs' = concat bs @ now \<and> r_latency r' = Fin 40 \<and> (now = [] \<longrightarrow> bs' = bs)"
proof -
  have split: "g_input g = now @ later" by (simp add: now_def later_def)
  have stop: "feed msec (g\<lparr>g_input := later, g_inque := [], g_ring := r'\<rparr>) = Inr (g\<lparr>g_input := later, g_inque := [], g_ring := r'\<rparr>)"
    if "r_latency r' = Fin 40" for r'
  proof (cases later)
    case Nil
    then show ?thesis by (subst feed.simps) simp
  next
    case (Cons p rest)
    then have "\<not> dge msec (p_arrival p)" unfolding later_def by (metis hd_dropWhile list.discI list.sel(1))
    moreover have "\<not> dlt (dadd (p_arrival p) (Fin 40)) msec" using timely unfolding split Cons by simp
    ultimately show ?thesis using that Cons by (subst feed.simps) simp
  qed
  show ?thesis
  proof (cases now)
    case Nil
    then have "g\<lparr>g_input := later, g_inque := [], g_ring := g_ring g\<rparr> = g" using split inque by simp
    with stop [OF lat] rep lat Nil show ?thesis by (metis append_Nil2)
  next
    case (Cons p rest)
    have "0 \<le> sum_list (map p_len later)" using timely unfolding split by (intro sum_list_nonneg) auto
    with room(1) have sum: "sum_list (map p_len now) + r_tot_bytes (g_ring g) < 131072" unfolding split by simp
    have len: "\<forall>p \<in> set now. 0 \<le> p_len p" and old: "filter (\<lambda>p. \<not> expired (g_tot_round g) (g_ring g) p) now = now"
      using timely unfolding split by (auto simp: expired_def lat msec filter_id_conv)
    have "length (concat bs) + length now \<le> qlen" using room(2) unfolding split by simp
    from in_ring_rep [OF rep len sum this, of "g_tot_round g"] obtain r' d' bs' where
      r': "in_ring (g_tot_round g) now (g_ring g) = Inr ([], r')" "sim_rep r' d' bs'" "concat bs' = concat bs @ now"
      unfolding old by blast
    have l: "r_latency r' = Fin 40" using in_ring_latency [OF r'(1)] lat by simp
    obtain xs where g: "g_input g = p # xs" using split Cons by simp
    have p: "dge msec (p_arrival p)" using set_takeWhileD [of p "\<lambda>p. dge msec (p_arrival p)" "g_input g"] Cons by (simp add: now_def)
    have rest: "takeWhile (\<lambda>x. dge msec (p_arrival x)) xs = rest" "dropWhile (\<lambda>x. dge msec (p_arrival x)) xs = later"
      using Cons p by (simp_all add: now_def later_def g)
    have "feed msec g = feed msec (g\<lparr>g_input := later, g_inque := [], g_ring := r'\<rparr>)"
      using timely r'(1) Cons p lat inque unfolding feed.simps [of msec g]
      by (simp add: g rest del: in_ring.simps)
    with stop [OF l] r'(2,3) l Cons show ?thesis by auto
  qed
qed

text \<open>What a run of the simulator needs of the packets it reads.\<close>

definition deliverable :: "sim_packet list \<Rightarrow> nat \<Rightarrow> bool" where
  "deliverable ps K \<longleftrightarrow> (\<forall>p \<in> set ps. arrives p \<and> p_arrival p \<le> tenth (int K)) \<and> sorted (map p_arrival ps) \<and>
     length ps \<le> 80 \<and> sum_list (map p_len ps) < 131072"

lemma later_arrivals:
  assumes "sorted (map p_arrival xs)" and "\<forall>p \<in> set xs. arrives p"
    and "p \<in> set (dropWhile (\<lambda>p. dge msec (p_arrival p)) xs)" and "msec \<noteq> NaN"
  shows "msec < p_arrival p"
  using assms
proof (induction xs)
  case (Cons x xs)
  show ?case
  proof (cases "dge msec (p_arrival x)")
    case True
    with Cons show ?thesis by simp
  next
    case False
    have "p_arrival x \<noteq> NaN" using Cons.prems(2) by (auto simp: arrives_def)
    with False Cons.prems(4) have "msec < p_arrival x" by (auto simp: dge_def deq_def dlt_iff)
    moreover have "p_arrival x \<le> p_arrival p" using Cons.prems(1,3) False by auto
    ultimately show ?thesis by (rule less_le_trans)
  qed
qed simp

lemma sim_state_tick:
  assumes st: "sim_state ps K n outs g" and ok: "deliverable ps K" and n: "int n + 1 < 2 ^ 31"
  shows "\<exists>out g'. test_func g = Inr (out, g') \<and> sim_state ps K (Suc n) (outs @ out) g'"
proof -
  from st obtain d bs sent where rep: "sim_rep (g_ring g) d bs" and lat: "r_latency (g_ring g) = Fin 40" and inque: "g_inque g = []"
    and round: "g_tot_round g = int n" and ps: "ps = sent @ concat bs @ g_input g" and outs: "map snd outs = map p_len sent"
    and late: "\<forall>p \<in> set (g_input g). n = 0 \<or> tenth (int n) < p_arrival p"
    and empty: "K \<le> n \<Longrightarrow> \<forall>j < block. block \<le> j + (n div 10 - K div 10) \<longrightarrow> bs ! j = []"
    by (auto simp: sim_state_def)
  let ?T = "int n + 1"
  define G where "G = g\<lparr>g_tot_round := g_tot_round g + 1\<rparr>"
  have G: "g_input G = g_input g" "g_ring G = g_ring g" "g_inque G = []" "g_tot_round G = ?T"
    by (simp_all add: G_def inque round)
  let ?now = "takeWhile (\<lambda>p. dge (tenth ?T) (p_arrival p)) (g_input g)"
    and ?later = "dropWhile (\<lambda>p. dge (tenth ?T) (p_arrival p)) (g_input g)"
  have timely: "\<forall>p \<in> set (g_input g). \<not> dlt (dadd (p_arrival p) (Fin 40)) (tenth ?T) \<and> 0 \<le> p_len p"
  proof
    fix p assume p: "p \<in> set (g_input g)"
    then have "arrives p" using ok unfolding deliverable_def ps by auto
    then obtain a where a: "p_arrival p = Fin a" "0 \<le> a" "0 \<le> p_len p" by (auto simp: arrives_def split: dbl.splits)
    from late p a(1) have "?T = 1 \<or> tenth (?T - 1) < Fin a" by auto
    from timely [OF a(2) _ n this] a show "\<not> dlt (dadd (p_arrival p) (Fin 40)) (tenth ?T) \<and> 0 \<le> p_len p" by simp
  qed
  have nonneg: "\<forall>p \<in> set ps. 0 \<le> p_len p" using ok by (auto simp: deliverable_def arrives_def)
  then have "0 \<le> sum_list (map p_len sent)" unfolding ps by (intro sum_list_nonneg) auto
  moreover have "r_tot_bytes (g_ring g) = sum_list (map p_len (concat bs))" using rep by (simp add: sim_rep_def)
  ultimately have room: "sum_list (map p_len (g_input g)) + r_tot_bytes (g_ring g) < 131072"
      "length (concat bs) + length (g_input g) \<le> qlen"
    using ok unfolding deliverable_def ps by simp_all
  obtain r' d' bs' where f: "feed (tenth ?T) G = Inr (G\<lparr>g_input := ?later, g_inque := [], g_ring := r'\<rparr>)"
    and rep': "sim_rep r' d' bs'" and c': "concat bs' = concat bs @ ?now" and lat': "r_latency r' = Fin 40"
    and same: "?now = [] \<longrightarrow> bs' = bs"
    using feed_timely [of G d bs "tenth ?T", unfolded G, OF rep refl lat timely refl room] by blast
  have split: "g_input g = ?now @ ?later" by simp
  have ps': "ps = sent @ concat bs' @ ?later" unfolding c' ps by simp
  have later: "\<forall>p \<in> set ?later. tenth ?T < p_arrival p"
    using ok n unfolding deliverable_def ps
    by (auto simp: sorted_append tenth_eq intro!: later_arrivals [of "g_input g"])
  then have later: "\<forall>p \<in> set ?later. tenth (int (Suc n)) < p_arrival p" by (simp add: add.commute)
  have done_K: "bs' = bs" if "K \<le> n" "0 < n"
  proof -
    have "g_input g = []"
    proof (rule ccontr)
      assume "g_input g \<noteq> []"
      then obtain p where p: "p \<in> set (g_input g)" by (cases "g_input g") auto
      then have "tenth (int n) < p_arrival p" "p_arrival p \<le> tenth (int K)"
        using late that ok unfolding deliverable_def ps by auto
      moreover have "tenth (int K) \<le> tenth (int n)" using that n by (intro tenth_mono) simp_all
      ultimately show False by simp
    qed
    then show ?thesis using same by simp
  qed
  have len: "length bs' = block" using rep' by (simp add: sim_rep_def)
  define G' where "G' = G\<lparr>g_input := ?later, g_inque := [], g_ring := r'\<rparr>"
  have test: "test_func g = (if ?T mod 10 = 0
      then Inr (fst (sim_tick ?T r'), G'\<lparr>g_ring := snd (sim_tick ?T r')\<rparr>) else Inr ([], G'))"
    using f unfolding test_func_def Let_def G_def [symmetric] G(4)
    by (simp add: G'_def G(4) sim_tick_def split_beta)
  have G': "g_input G' = ?later" "g_ring G' = r'" "g_inque G' = []" "g_tot_round G' = int (Suc n)"
    by (simp_all add: G'_def G(4))
  have T10: "?T mod 10 = 0 \<longleftrightarrow> Suc n mod 10 = 0"
    using zmod_int [of "Suc n" 10] by (metis add.commute of_nat_Suc of_nat_eq_0_iff of_nat_numeral)
  show ?thesis
  proof (cases "?T mod 10 = 0")
    case False
    then have same_div: "Suc n div 10 = n div 10" using T10 by (simp add: div_Suc)
    have drained: "bs' ! j = []" if j: "K \<le> Suc n" "j < block" "block \<le> j + (Suc n div 10 - K div 10)" for j
    proof -
      have "0 < Suc n div 10 - K div 10" using j(2,3) by linarith
      then have "K \<noteq> Suc n" "n \<noteq> 0" by auto
      then have "K \<le> n" "0 < n" using j(1) by linarith+
      then show ?thesis using empty j(2,3) done_K unfolding same_div by simp
    qed
    have "sim_state ps K (Suc n) (outs @ []) G'"
      unfolding sim_state_def G'
      by (rule exI [of _ d'], rule exI [of _ bs'], rule exI [of _ sent]) (use rep' lat' ps' outs later drained in auto)
    with test False show ?thesis by auto
  next
    case True
    then have div: "Suc n div 10 = Suc (n div 10)" using T10 by (simp add: div_Suc)
    obtain q qs where q: "bs' = q # qs" using len by (cases bs') auto
    have "map snd (fst (sim_tick ?T r')) = map p_len q"
      using de_ring_rep(1) [OF rep', of ?T] by (simp add: q sim_tick_def split_beta)
    moreover have drained: "(qs @ [[]]) ! j = []" if "K \<le> Suc n" "j < block" "block \<le> j + (Suc n div 10 - K div 10)" for j
    proof (cases "Suc j < block")
      case True
      have "K \<noteq> Suc n" using that(2,3) by auto
      then have K: "K \<le> n" using that(1) by linarith
      have "0 < n" using T10 \<open>?T mod 10 = 0\<close> by (cases n) auto
      then have "bs' ! Suc j = []" using empty [OF K, rule_format, of "Suc j"] done_K [OF K] that(3) True unfolding div by auto
      then show ?thesis using True len by (simp add: q nth_append)
    next
      case False
      then show ?thesis using that(2) len by (simp add: q nth_append)
    qed
    ultimately have "sim_state ps K (Suc n) (outs @ fst (sim_tick ?T r')) (G'\<lparr>g_ring := snd (sim_tick ?T r')\<rparr>)"
      unfolding sim_state_def
      by (intro exI [of _ "d' - 1"] exI [of _ "qs @ [[]]"] exI [of _ "sent @ q"])
        (use sim_tick_rep [OF rep', of ?T] lat' ps' outs later in \<open>auto simp: G' q\<close>)
    with test True show ?thesis by auto
  qed
qed

lemma sim_run_state:
  assumes "sim_state ps K 0 [] g" and "deliverable ps K" and "int n < 2 ^ 31"
  shows "\<exists>outs g'. sim_run n g = Inr (outs, g') \<and> sim_state ps K n outs g'"
  using assms(3)
proof (induction n)
  case 0
  then show ?case using assms(1) by simp
next
  case (Suc n)
  then obtain outs g1 where "sim_run n g = Inr (outs, g1)" "sim_state ps K n outs g1" by auto
  with sim_state_tick [OF this(2) assms(2)] Suc.prems show ?case by auto
qed

lemma sim_state_printed:
  assumes st: "sim_state ps K n outs g" and ok: "deliverable ps K" and small: "int n < 2 ^ 31"
  shows "\<exists>rest :: sim_packet list. map snd outs @ map p_len rest = map p_len ps \<and>
    (K + 10000 \<le> n \<longrightarrow> rest = [] \<and> g_input g = [])"
proof -
  from st obtain d bs sent where rep: "sim_rep (g_ring g) d bs" and ps: "sent @ concat bs @ g_input g = ps"
    and outs: "map snd outs = map p_len sent" and late: "\<forall>p \<in> set (g_input g). n = 0 \<or> tenth (int n) < p_arrival p"
    and drained: "K \<le> n \<longrightarrow> (\<forall>j < block. block \<le> j + (n div 10 - K div 10) \<longrightarrow> bs ! j = [])"
    by (auto simp: sim_state_def)
  have drain: "concat bs @ g_input g = []" if n: "K + 10000 \<le> n"
  proof -
    have "K div 10 + 1000 \<le> n div 10" using div_le_mono [OF n, of 10] by simp
    then have "\<forall>j < length bs. bs ! j = []" using drained n rep by (simp add: sim_rep_def)
    then have "concat bs = []" by (metis concat_eq_Nil_conv in_set_conv_nth)
    moreover have "g_input g = []"
    proof (rule ccontr)
      assume "g_input g \<noteq> []"
      then obtain p where "p \<in> set (g_input g)" by (cases "g_input g") auto
      then have "tenth (int n) < p_arrival p" "p_arrival p \<le> tenth (int K)"
        using late n ok unfolding deliverable_def ps [symmetric] by auto
      moreover have "tenth (int K) \<le> tenth (int n)" using n small by (intro tenth_mono) simp_all
      ultimately show False by simp
    qed
    ultimately show ?thesis by simp
  qed
  show ?thesis
  proof (intro exI conjI impI)
    show "map snd outs @ map p_len (concat bs @ g_input g) = map p_len ps" using outs ps by auto
    show "concat bs @ g_input g = []" "g_input g = []" if "K + 10000 \<le> n" using drain [OF that] by simp_all
  qed
qed

definition sim_start :: "sim_packet list \<Rightarrow> sim" where
  "sim_start ps = \<lparr>g_input = ps, g_inque = [], g_tot_round = 0, g_ring = ring_128\<rparr>"

lemma sim_main_start:
  assumes "read_packets (None, None) (getlines text) = Inr ps"
  shows "sim_main text n = sim_run n (sim_start ps)"
proof -
  have "rnd 128 = Fin 128" using rnd_of_int [of 128] by simp
  then show ?thesis by (simp add: sim_main_def ring_new_128 sim_start_def assms)
qed

lemma sim_start_state: "sim_state ps K 0 [] (sim_start ps)"
  unfolding sim_state_def
  by (rule exI [of _ 0], rule exI [of _ "replicate block []"], rule exI [of _ "[]"])
    (simp add: ring_128_rep sim_start_def del: replicate.simps)


definition ex_packets :: string where
  "ex_packets = ''1 1000'' @ [CHR 0x0A] @ ''2.5 400'' @ [CHR 0x0A]"

lemma ex_packets_read:
  "read_packets (None, None) (getlines ex_packets) =
     Inr [\<lparr>p_arrival = Fin 1, p_len = 1000\<rparr>, \<lparr>p_arrival = Fin (5 / 2), p_len = 400\<rparr>]"
proof -
  have g: "getlines ex_packets = [''1 1000'', ''2.5 400'']" by code_simp
  have r: "rnd 1 = Fin 1" "rnd (5 / 2) = Fin (5 / 2)"
    using rnd_of_int [of 1] rnd_exact [of 5 "- 1"] by (simp_all add: power_int_minus)
  note c = read_double_def is_space_def is_digit_def read_sign_def read_fraction_def read_exp_def digits_val_def
  have "read_double ''1 1000'' = (Some (False, Fin 1), Some '' 1000'')" by (simp add: c r)
  moreover have "read_double ''2.5 400'' = (Some (False, Fin (5 / 2)), Some '' 400'')"
    using r(2) by (simp add: c power_int_minus)
  moreover have "read_int '' 1000'' = (Some 1000, Some [])" "read_int '' 400'' = (Some 400, Some [])" by code_simp+
  ultimately show ?thesis by (simp add: g read_packet_def)
qed

lemma tenth_100: "Fin (of_int 5) \<le> tenth 100"
proof -
  have "of_int 5 \<le> (of_int 100 * (3602879701896397 / 36028797018963968) :: rat)" by simp
  then have "Fin (of_int 5) \<le> rnd (of_int 100 * (3602879701896397 / 36028797018963968))"
    by (rule rnd_ge_dbl) (rule is_dbl_of_int, simp)
  also have "\<dots> = tenth 100" by (rule tenth_eq [symmetric]) simp
  finally show ?thesis .
qed


end
