(* ===== verification/Sim_Full.thy ===== *)
theory Sim_Full
  imports Sim_Main
begin

text \<open>
  The simulator when the ring is full. \<open>in_ring\<close> leaves the packets that do not fit in \<open>inque\<close> and is called
  again only when a packet arrives, so what is left behind by the last arrival stays there.
\<close>

lemma in_ring_blocked:
  assumes rep: "sim_rep r d ps" and new: "\<not> expired T r p" and len: "0 \<le> p_len p" "p_len p \<le> 131072"
    and full: "131204 \<le> p_len p + r_tot_bytes r" and tot: "r_tot_bytes r < 131072"
  shows "in_ring T (p # zs) r = Inr (p # zs, r)"
proof -
  have rate: "r_rate r = Fin 128" using rep by (simp add: sim_rep_def)
  have "interval_block p r = Inr ((p_len p + r_tot_bytes r) * 1000 div 131072)"
    by (rule interval_block_eq [OF rate]) (use len full tot in simp_all)
  moreover have "(1001 :: int) \<le> (p_len p + r_tot_bytes r) * 1000 div 131072"
    using zdiv_mono1 [of "131204 * 1000" "(p_len p + r_tot_bytes r) * 1000" 131072] full by simp
  moreover have "\<not> too_big p r" using too_big_eq [OF rate len(1)] len(2) by simp
  ultimately show ?thesis using new by (simp add: expired_def Let_def)
qed

text \<open>
  The run on all packets, and the run on those that fit: they are the same but for the rest, which is
  behind the input at first and in \<open>inque\<close> once the packets have arrived.
\<close>

definition beside :: "sim_packet list \<Rightarrow> sim_packet list \<Rightarrow> sim \<Rightarrow> sim \<Rightarrow> bool" where
  "beside us vs g g' \<longleftrightarrow> g_inque g = [] \<and>
     (g_input g = us \<and> g' = g\<lparr>g_input := us @ vs\<rparr> \<or> g_input g = [] \<and> g' = g\<lparr>g_inque := vs\<rparr>)"

lemma feed_beside:
  assumes st: "sim_state us K n outs g" and ok: "deliverable us K" and n: "int n + 1 < 2 ^ 31"
    and be: "beside us vs g g'" and ne: "us \<noteq> []" and arr: "\<forall>q \<in> set (us @ vs). p_arrival q = Fin a"
    and vs: "vs = p # zs" "0 \<le> p_len p" "p_len p \<le> 131072" "131204 \<le> sum_list (map p_len us) + p_len p"
  defines "T \<equiv> int n + 1"
  shows "\<exists>g1 g1'. feed (tenth T) (g\<lparr>g_tot_round := T\<rparr>) = Inr g1 \<and> feed (tenth T) (g'\<lparr>g_tot_round := T\<rparr>) = Inr g1' \<and>
    beside us vs g1 g1' \<and> g_tot_round g1 = T \<and> g_tot_round g1' = T"
proof -
  let ?G = "g\<lparr>g_tot_round := T\<rparr>" and ?G' = "g'\<lparr>g_tot_round := T\<rparr>"
  have stop: "feed msec h = Inr h" if "g_input h = []" for msec h using that by (subst feed.simps) simp
  from be have inque: "g_inque g = []" by (simp add: beside_def)
  from be consider (before) "g_input g = us" "g' = g\<lparr>g_input := us @ vs\<rparr>" | (after) "g_input g = []" "g' = g\<lparr>g_inque := vs\<rparr>"
    by (auto simp: beside_def)
  then show ?thesis
  proof cases
    case after
    have "beside us vs ?G ?G'" using after inque by (simp add: beside_def)
    moreover have "feed (tenth T) ?G = Inr ?G" "feed (tenth T) ?G' = Inr ?G'" using after by (simp_all add: stop)
    ultimately show ?thesis by auto
  next
    case before
    from st before obtain d bs where rep: "sim_rep (g_ring g) d bs" and lat: "r_latency (g_ring g) = Fin 40"
      and bs: "concat bs = []" and late: "\<forall>q \<in> set us. n = 0 \<or> tenth (int n) < p_arrival q"
      by (auto simp: sim_state_def simp del: concat_eq_Nil_conv)
    from ne obtain u us' where us: "us = u # us'" by (cases us) auto
    have a: "0 \<le> a" using ok arr by (auto simp: us deliverable_def arrives_def)
    have "T = 1 \<or> tenth (T - 1) < Fin a" using late arr by (auto simp: us T_def)
    from timely [OF a _ _ this] n have new: "\<not> dlt (dadd (Fin a) (Fin 40)) (tenth T)" by (simp add: T_def)
    show ?thesis
    proof (cases "dge (tenth T) (Fin a)")
      case False
      then have "feed (tenth T) ?G = Inr ?G" "feed (tenth T) ?G' = Inr ?G'"
        using before new lat arr unfolding feed.simps [of _ ?G] feed.simps [of _ ?G'] by (simp_all add: us)
      moreover have "beside us vs ?G ?G'" using before inque by (simp add: beside_def)
      ultimately show ?thesis by auto
    next
      case True
      have tot: "r_tot_bytes (g_ring g) = 0" using rep bs by (simp add: sim_rep_def del: concat_eq_Nil_conv)
      have fits: "\<forall>q \<in> set us. 0 \<le> p_len q" "sum_list (map p_len us) + r_tot_bytes (g_ring g) < 131072"
          "length (concat bs) + length us \<le> qlen"
        using ok tot bs by (simp_all add: deliverable_def arrives_def del: concat_eq_Nil_conv)
      from in_ring_append [OF rep fits, of T] obtain r' d' bs' where
        r': "\<forall>zs. in_ring T (us @ zs) (g_ring g) = in_ring T zs r'" and rep': "sim_rep r' d' bs'"
        and c: "concat bs' = concat bs @ filter (\<lambda>p. \<not> expired T (g_ring g) p) us" and lat': "r_latency r' = Fin 40"
        unfolding lat by blast
      have "filter (\<lambda>p. \<not> expired T (g_ring g) p) us = us"
        using new arr lat by (auto simp: expired_def filter_id_conv)
      then have "concat bs' = us" using c bs by simp
      then have tot': "r_tot_bytes r' = sum_list (map p_len us)" using rep' by (simp add: sim_rep_def)
      have "in_ring T vs r' = Inr (vs, r')" unfolding vs(1)
        by (rule in_ring_blocked [OF rep'])
          (use new arr lat' vs tot' ok in \<open>simp_all add: expired_def deliverable_def\<close>)
      then have full: "in_ring T (us @ vs) (g_ring g) = Inr (vs, r')" using r' by simp
      have part: "in_ring T us (g_ring g) = Inr ([], r')" using r' [rule_format, of "[]"] by simp
      let ?g1 = "?G\<lparr>g_input := [], g_inque := [], g_ring := r'\<rparr>" and ?g2 = "?G'\<lparr>g_input := [], g_inque := vs, g_ring := r'\<rparr>"
      have all: "takeWhile (\<lambda>x. dge (tenth T) (p_arrival x)) xs = xs" "dropWhile (\<lambda>x. dge (tenth T) (p_arrival x)) xs = []"
        if "set xs \<subseteq> set (us @ vs)" for xs
        using that arr True by (auto simp: takeWhile_eq_all_conv dropWhile_eq_Nil_conv)
      have sub: "set us' \<subseteq> set (us @ vs)" "set (us' @ vs) \<subseteq> set (us @ vs)" by (auto simp: us)
      have au: "p_arrival u = Fin a" using arr by (simp add: us)
      have "feed (tenth T) ?G = Inr ?g1"
        using before new lat True inque part [unfolded us]
        unfolding feed.simps [of _ ?G] by (simp add: us au all [OF sub(1)] stop del: in_ring.simps)
      moreover have "feed (tenth T) ?G' = Inr ?g2"
        using before new lat True inque full [unfolded us]
        unfolding feed.simps [of _ ?G'] by (simp add: us au all [OF sub(2)] stop del: in_ring.simps)
      moreover have "beside us vs ?g1 ?g2" using before by (simp add: beside_def)
      ultimately show ?thesis by auto
    qed
  qed
qed

lemma tick_beside:
  assumes "feed (tenth T) (g\<lparr>g_tot_round := T\<rparr>) = Inr g1" and "feed (tenth T) (g'\<lparr>g_tot_round := T\<rparr>) = Inr g1'"
    and "beside us vs g1 g1'" and "g_tot_round g = T - 1" and "g_tot_round g' = T - 1"
    and "g_tot_round g1 = T" and "g_tot_round g1' = T"
  shows "\<exists>out g2 g2'. test_func g = Inr (out, g2) \<and> test_func g' = Inr (out, g2') \<and> beside us vs g2 g2'"
  using assms by (cases "T mod 10 = 0") (auto simp: test_func_def Let_def beside_def split: prod.splits)

lemma sim_run_beside:
  assumes ok: "deliverable us K" and n: "int n < 2 ^ 31"
    and ne: "us \<noteq> []" and arr: "\<forall>q \<in> set (us @ vs). p_arrival q = Fin a"
    and vs: "vs = p # zs" "0 \<le> p_len p" "p_len p \<le> 131072" "131204 \<le> sum_list (map p_len us) + p_len p"
  shows "\<exists>outs g g'. sim_run n (sim_start us) = Inr (outs, g) \<and> sim_run n (sim_start (us @ vs)) = Inr (outs, g') \<and>
    sim_state us K n outs g \<and> beside us vs g g'"
  using n
proof (induction n)
  case 0
  then show ?case using sim_start_state by (simp add: beside_def sim_start_def)
next
  case (Suc n)
  then obtain outs g g' where run: "sim_run n (sim_start us) = Inr (outs, g)" "sim_run n (sim_start (us @ vs)) = Inr (outs, g')"
    and st: "sim_state us K n outs g" and be: "beside us vs g g'" by auto
  have n: "int n + 1 < 2 ^ 31" using Suc.prems by simp
  from feed_beside [OF st ok n be ne arr vs] obtain g1 g1' where
    f: "feed (tenth (int n + 1)) (g\<lparr>g_tot_round := int n + 1\<rparr>) = Inr g1"
      "feed (tenth (int n + 1)) (g'\<lparr>g_tot_round := int n + 1\<rparr>) = Inr g1'"
      "beside us vs g1 g1'" "g_tot_round g1 = int n + 1" "g_tot_round g1' = int n + 1" by blast
  have "g_tot_round g = int n + 1 - 1" "g_tot_round g' = int n + 1 - 1" using st be by (auto simp: sim_state_def beside_def)
  from tick_beside [OF f(1-3) this f(4,5)] obtain out g2 g2' where
    t: "test_func g = Inr (out, g2)" "test_func g' = Inr (out, g2')" "beside us vs g2 g2'" by blast
  from sim_state_tick [OF st ok n] t(1) have "sim_state us K (Suc n) (outs @ out) g2" by auto
  with run t show ?case by auto
qed

text \<open>
  C23. What does not fit when the last packet arrives is never sent. For a file of packets that arrive
  together, of which a first part \<open>us\<close> fits into the ring and the next one does not (it would lie more than
  1000 blocks ahead): whatever the number of ticks, exactly packets of \<open>us\<close> are printed, in order, all of
  them within a turn of the ring, and the others are left in \<open>inque\<close> for ever, neither sent nor, as the
  documentation has it, dropped when they have waited longer than the latency.
\<close>

theorem sim_main_strands:
  assumes "read_packets (None, None) (getlines text) = Inr (us @ p # vs)" and "deliverable us K"
    and "us \<noteq> []" and "\<forall>q \<in> set (us @ p # vs). p_arrival q = Fin a" and "0 \<le> p_len p" and "p_len p \<le> 131072"
    and "131204 \<le> sum_list (map p_len us) + p_len p" and "int n < 2 ^ 31"
  shows "\<exists>outs g. \<exists>rest :: sim_packet list. sim_main text n = Inr (outs, g) \<and>
    map snd outs @ map p_len rest = map p_len us \<and> (K + 10000 \<le> n \<longrightarrow> rest = [] \<and> g_inque g = p # vs)"
proof -
  from sim_run_beside [OF assms(2,8,3,4) refl assms(5-7)] obtain outs g g' where
    run: "sim_run n (sim_start (us @ p # vs)) = Inr (outs, g')" and st: "sim_state us K n outs g" and be: "beside us (p # vs) g g'"
    by blast
  from sim_state_printed [OF st assms(2,8)] obtain rest :: "sim_packet list" where
    "map snd outs @ map p_len rest = map p_len us" "K + 10000 \<le> n \<longrightarrow> rest = [] \<and> g_input g = []" by blast
  moreover have "g_inque g' = p # vs" if "g_input g = []" using be that assms(3) by (auto simp: beside_def)
  ultimately show ?thesis using run unfolding sim_main_start [OF assms(1)] by blast
qed

definition ex_burst :: string where
  "ex_burst = concat (replicate 15 (''1 10000'' @ [CHR 0x0A]))"

theorem sim_main_strands_witness:
  "\<exists>outs g. sim_main ex_burst 10100 = Inr (outs, g) \<and> map snd outs = replicate 13 10000 \<and> length (g_inque g) = 2"
proof -
  let ?p = "\<lparr>p_arrival = Fin 1, p_len = 10000\<rparr>"
  have g: "getlines ex_burst = replicate 15 ''1 10000''" by code_simp
  have t: "replicate 15 x = [x, x, x, x, x, x, x, x, x, x, x, x, x, x, x]" "replicate 13 x = [x, x, x, x, x, x, x, x, x, x, x, x, x]"
    for x :: 'a by (simp_all add: numeral_eq_Suc)
  note c = read_double_def is_space_def is_digit_def read_sign_def read_fraction_def read_exp_def digits_val_def
  have "rnd 1 = Fin 1" using rnd_of_int [of 1] by simp
  then have "read_double ''1 10000'' = (Some (False, Fin 1), Some '' 10000'')" by (simp add: c)
  moreover have "read_int '' 10000'' = (Some 10000, Some [])" by code_simp
  ultimately have rd: "read_packet temp ''1 10000'' = (Some (Fin 1), Some 10000)" for temp by (simp add: read_packet_def)
  have ps: "read_packets (None, None) (getlines ex_burst) = Inr (replicate 13 ?p @ ?p # [?p])"
    unfolding g t by (simp add: rd)
  have "Fin 1 \<le> Fin (of_int 5)" by (simp add: less_eq_dbl_def less_dbl_def)
  from this tenth_100 have "Fin 1 \<le> tenth 100" by (rule order_trans)
  then have ok: "deliverable (replicate 13 ?p) 100" by (simp add: deliverable_def arrives_def t)
  have "\<exists>outs g. \<exists>rest :: sim_packet list. sim_main ex_burst 10100 = Inr (outs, g) \<and>
      map snd outs @ map p_len rest = map p_len (replicate 13 ?p) \<and> (100 + 10000 \<le> (10100::nat) \<longrightarrow> rest = [] \<and> g_inque g = ?p # [?p])"
    by (rule sim_main_strands [OF ps ok, of 1 10100]) (simp_all add: t)
  then obtain outs g and rest :: "sim_packet list" where
    "sim_main ex_burst 10100 = Inr (outs, g)" and "map snd outs @ map p_len rest = map p_len (replicate 13 ?p)"
    and "rest = []" and "g_inque g = [?p, ?p]" by auto
  then show ?thesis by (intro exI [of _ outs] exI [of _ g]) simp
qed

end
