(* ===== verification/Spec2Isabelle.thy ===== *)
theory Spec2Isabelle
  imports Prelude Skb Kfifo Kfifo_Ring Kfifo_Props Tsf Tsf_Bucket Tsf_Reader Tsf_Props Tsf_Run Tsf_Segment Tsf_Life Tsf_Serve
    Dbl RingSim RingSim_Props
    Capture Capture_Props Numbers Ratio Speed Speed_Props Nstream Nstream_Props FiveTuple FiveTuple_Props
    Programs Programs_Props Retrans Retrans_Props
    Burst_Race Signals Signals_Props Signals_Main Logs Logs_Props Sim_Main Sim_Full
begin

text \<open>
  Measurement-Limiter: a Linux queueing discipline that paces the packets to one host, a simulator of its
  ring, and a family of programs that measure traffic with \<open>libpcap\<close>. This library models the C and C++
  code of the repository and proves what each part promises, what holds over whole runs, and where the
  code departs from its intention.

  \<^bold>\<open>The limiter\<close> (\<open>src/RateLimiter\<close>).
  \<^item> \<open>Skb\<close> and \<open>Kfifo\<close> are \<open>sch_kfifo.h\<close> and \<open>sch_kfifo.c\<close>: a ring of nodes of one millisecond each, every
    node with an intrusive list of packets. Packets live in an explicit heap (\<open>skb_heap\<close>), because lists are
    linked through the packets themselves; the block of nodes is an indexed list and a pointer into it an
    optional index; the spin lock is a flag. \<open>Kfifo_Ring\<close> is the representation relation \<open>kf_rep\<close> (which
    packets a ring holds, in which nodes, with which counters) and its preservation by every operation;
    \<open>Kfifo_Props\<close> is the contract of the ring as a bounded queue.
  \<^item> \<open>Tsf\<close> is \<open>sch_tsf.c\<close>: the token bucket in front of the ring, two inner queues, segmentation, the
    configuration through netlink. The kernel is the record \<open>kernel\<close> (clock, inner queues, rate
    tables, address parsing) and \<open>control\<close> (attribute parser, allocation, the effect of flushing a queue on the counters above it). \<open>Tsf_Bucket\<close> proves the loop
    that moves waiting packets to the ring correct and keeps the account of a call, \<open>Tsf_Reader\<close> is the side
    that takes packets out, \<open>Tsf_Props\<close> states what single calls promise, \<open>Tsf_Run\<close> what whole runs do,
    \<open>Tsf_Segment\<close> what becomes of packets that are too big, \<open>Tsf_Serve\<close> how its queues are emptied, and \<open>Tsf_Life\<close> has the table of operations
    \<open>tsf_qdisc_ops\<close> and the states (\<open>live\<close>) that any order of them can reach from \<open>init\<close>.
  \<^item> \<open>RingSim\<close> and \<open>RingSim_Props\<close> are class \<open>Ring\<close> and the timer handler of \<open>ring/main.cpp\<close>, \<open>Sim_Main\<close> its
    \<open>main\<close>: the file it reads and the ticks it waits through. \<open>Sim_Full\<close> follows a burst that does not fit.

  \<^bold>\<open>The measuring programs\<close> (\<open>src/MeasureRate\<close>, \<open>src/RateLimiter/5tuple.cpp\<close>,
  \<open>src/benchmark/retransmission_loss.cpp\<close>) are copies of one skeleton.
  \<^item> \<open>Capture\<close> is that skeleton: \<open>handle_ethernet\<close>, the checks of \<open>handle_IP\<close>, \<open>my_callback\<close>, \<open>c2number\<close>,
    \<open>toStringIP\<close>, \<open>big2small\<close>. \<open>Capture_Props\<close> proves what it does on a frame and gives the interface
    \<open>capture_program\<close>: a program whose state means a function of the events so far prints a function of
    the events. \<open>Numbers\<close> is about the conversions.
  \<^item> \<open>Ratio\<close> is \<open>get_ratio\<close>; \<open>Speed\<close> is \<open>speed.cpp\<close> and \<open>speed2file.cpp\<close>; \<open>Nstream\<close> is \<open>nstream.cpp\<close> and
    \<open>count_burst.cpp\<close>, and \<open>Burst_Race\<close> the handler of \<open>count_burst\<close> as single steps between which the timer
    signal may come; \<open>FiveTuple\<close> is \<open>5tuple.cpp\<close> and \<open>count_interval.c\<close>; \<open>Retrans\<close> is \<open>retransmission_loss.cpp\<close>;
    \<open>Programs\<close> is the functions \<open>main\<close>. Each has a theory of properties.
  \<^item> \<open>Signals\<close> is the functions \<open>main\<close> again, as processes: lists of statements (\<open>signal\<close>, \<open>fopen\<close>, \<open>init_sigaction\<close>,
    \<open>init_time\<close>, the loop) run by a step relation in which \<open>SIGINT\<close> may come at any time and \<open>SIGPROF\<close> while the
    timer is armed. \<open>Signals_Props\<close> has the interface \<open>capture_process\<close>, which follows a process through any run and of
    which six programs are instances; \<open>Signals_Main\<close> shows that a process no \<open>SIGINT\<close> interrupts is \<open>main\<close>.
  \<^item> \<open>Logs\<close> and \<open>Logs_Props\<close> are the filters over text: \<open>tcp_Retr.cpp\<close> and \<open>jitter.cpp\<close> of \<open>src/benchmark\<close> and
    \<open>countTotContinuousByte.cpp\<close>. They model what these programs and \<open>ring/main.cpp\<close> use of \<open>std::istream\<close>:
    \<open>getline\<close>, and the extraction of words, of an \<open>int\<close> and of a \<open>double\<close>, with their failures.

  \<open>Prelude\<close> holds the machine types, the type of faults, the collections of hints and the interface
  \<open>fifo\<close>, of which the ring of the kernel and the ring of the simulator (observed through what it prints) are both instances. \<open>Dbl\<close> is IEEE
  binary64 over rationals, with rounding to nearest even: exactness, monotonicity and error of rounding.

  \<^bold>\<open>How the code is modelled.\<close> Every operation is an executable function on an explicit state and returns
  \<open>fault + result\<close>: a null or wild pointer, an access outside a buffer, a loop that does not end, a lock
  taken twice and behaviour the language leaves undefined (overflow of \<open>int\<close>, an uninitialised value) are
  faults, so a theorem that says an operation returns a result also says that it does none of these.
  Kernel integers are words of their width; the \<open>int\<close> of the programs is an integer with checked
  addition; conversions between widths are written out. Loops that may not end are
  \<open>partial_function (option)\<close>, and that they end is proved.

  \<^bold>\<open>What the theorems show.\<close> The ring is a queue: enqueue appends or refuses without effect, dequeue
  removes the oldest, over any run nothing is lost, duplicated or reordered; when exactly a packet is
  refused; the reader's loop ends; a burst fits into the ring's time. The token bucket refills like the
  ideal one and every call conforms to it; over any run of calls, for packets that need no segmentation, those to the limited host leave in
  order and at most at the rate (air time at most the bucket's depth plus the time passed); dequeue makes
  progress, and a sequence of calls empties the ring and the test queue, unless a packet whose source is the limited host
  heads the test queue, which blocks that queue for ever. The configuration installs as a whole. Whatever the order of calls after \<open>init\<close>, changes that fail
  included, the queues are in order, the lock is held exactly when a change could not create one of its queues, and a packet that
  need not be segmented makes \<open>tsf_enqueue\<close> fault only when it goes to the limited host and finds the inner queue empty, as the first
  such packet after \<open>init\<close> does. (The states \<open>live\<close> leave out changes on a ring that counts bytes, and failing changes to less than
  two milliseconds, after which \<open>kfifo_init\<close> leaves the ring in pieces.)
  The simulator keeps the order, paces, and delivers every packet of a file within a turn of the ring when all fit;
  packets that do not fit at the last arrival are never sent.
  Each capture program, over every capture that keeps the stated conditions, never faults and prints the
  specified measurement, from the command line on; and so it does when \<open>SIGINT\<close> ends it, which is the usual end: the timer never kills
  a program, \<open>SIGINT\<close> only before its handler is installed (and \<open>count_interval\<close>, which has none). A signal in the
  middle of the handler of \<open>count_burst\<close> counts bytes twice, and only between a load and a store. The filters print the columns they are
  meant to from the logs of \<open>iperf3\<close> (over TCP and over UDP): reading a decimal into a \<open>double\<close> and printing it gives it back.
  The theorems under the heading of departures, and those whose text says so, are about the
  code's faults: a null pointer in \<open>tsf_enqueue\<close> when the inner queue is empty, overtaking, lost packets, a lock that is kept, a null stream that is closed,
  stale links, capacity that wraps, rows that overflow, address buffers that are too small, bytes lost in pauses.

  \<^bold>\<open>Bounds.\<close> The measurements are proved for captures of fewer than 32768 events, which keeps every \<open>int\<close>
  counter in range (65535 bytes a packet); the queue of rates holds four; the clock of the kernel is
  assumed to advance where a busy loop waits for it. The simulator's theorem is for files of at most 80
  packets and 131071 bytes, which no row of the ring can overflow, and for fewer than \<open>2^31\<close> ticks: its counter \<open>tot_round\<close> is
  an unbounded integer here; the logs have fewer than \<open>2^31\<close> words, so
  that the counters of words cannot overflow.

  \<^bold>\<open>Not modelled.\<close> Registration with the kernel (\<open>module_init\<close>, the netlink policy),
  the build files, the shell scripts and the recorded data. A signal in the middle of a library call, and of the
  handler of \<open>nstream\<close>; failure of \<open>malloc\<close> in the capture programs and of \<open>freopen\<close> in the filters, which do not
  check for it. \<open>src/MeasureRate/speedtest/speed.cpp\<close> is a byte for byte copy of \<open>speed.cpp\<close>. The set-up of signals of
  \<open>ring/main.cpp\<close> is that of the capture programs, and its ticks are the argument of \<open>sim_main\<close>. The functions that
  several programs have as copies (\<open>get_ratio\<close>, \<open>handle_ethernet\<close>, \<open>toStringIP\<close>, \<open>big2small\<close>) are modelled once.
\<close>

end
